(* ===== verification/Prelude.thy ===== *)
theory Prelude
  imports Main "HOL-Library.Word" "HOL-Library.AList"
begin

unbundle bit_operations_syntax

text \<open>
  Shared vocabulary of the development: machine integers, byte buffers, the outcome of a Rust
  call (a value, an error of the crate's error type, or a panic), the two compilation profiles
  and the arithmetic whose overflow behaviour depends on them, slice accesses that panic out of
  range, and the big-endian codecs of the standard library with their round trips.
\<close>

section \<open>Types\<close>

type_synonym u8 = "8 word"
type_synonym u16 = "16 word"
type_synonym u32 = "32 word"
type_synonym u64 = "64 word"
type_synonym i64 = "64 word"
type_synonym bytes = "u8 list"

text \<open>
  \<open>i64\<close> values are 64-bit words read with \<open>sint\<close> where the code compares them. A
  \<open>std::time::Instant\<close> is a number of nanoseconds on an arbitrary origin and a
  \<open>Duration\<close> a number of nanoseconds. \<open>Instant::duration_since\<close> saturates at zero.
\<close>

type_synonym instant = int
type_synonym duration = nat

definition duration_since :: "instant \<Rightarrow> instant \<Rightarrow> duration" where
  "duration_since later earlier = nat (later - earlier)"

abbreviation from_secs :: "nat \<Rightarrow> duration" where
  "from_secs n \<equiv> n * 1000000000"

abbreviation from_millis :: "nat \<Rightarrow> duration" where
  "from_millis n \<equiv> n * 1000000"

section \<open>Outcomes\<close>

text \<open>The variants of \<open>error.rs\<close>; the payload of \<open>Io\<close> is the operating system's.\<close>

datatype error =
    BufferTooSmall
  | ListenerClosed
  | ConnectionClosed
  | NotSupported
  | Io string
  | UnexpectedEof
  | InvalidPacketLength string
  | MaxAcknowledgement
  | ProtocolMismatch u8 u8
  | Timeout
  | WindowSizeTooBig u32 u32
  | SplitPacket string
  | ZeroPacket
  | InvalidCookie u32 u32
  | UnexpectedPacket string
  | UnknownPacket u8 nat
  | Other string
  | TimestampInFuture

text \<open>
  A call of the crate returns \<open>Result<T, Error>\<close> or unwinds. Both are values here, so that
  "never panics" is a statement about the model.
\<close>

datatype 'a outcome = Ok 'a | Err error | Panic

fun and_then :: "'a outcome \<Rightarrow> ('a \<Rightarrow> 'b outcome) \<Rightarrow> 'b outcome" where
  "and_then (Ok a) f = f a"
| "and_then (Err e) f = Err e"
| "and_then Panic f = Panic"

text \<open>
  A method taking \<open>&mut self\<close> returns the state beside its outcome, because the state it
  leaves behind when it returns an error is observable.
\<close>

definition and_then_st ::
  "'s \<times> 'a outcome \<Rightarrow> ('s \<Rightarrow> 'a \<Rightarrow> 's \<times> 'b outcome) \<Rightarrow> 's \<times> 'b outcome" where
  "and_then_st m f =
     (case m of (s, Ok a) \<Rightarrow> f s a | (s, Err e) \<Rightarrow> (s, Err e) | (s, Panic) \<Rightarrow> (s, Panic))"

definition guard :: "bool \<Rightarrow> error \<Rightarrow> unit outcome" where
  "guard b e = (if b then Ok () else Err e)"

fun is_ok :: "'a outcome \<Rightarrow> bool" where
  "is_ok (Ok a) = True"
| "is_ok _ = False"

named_theorems outcome_simps \<open>facts that reduce a sequence of calls\<close>

lemma and_then_st_simps [simp, outcome_simps]:
  "and_then_st (s, Ok a) f = f s a"
  "and_then_st (s, Err e) f = (s, Err e)"
  "and_then_st (s, Panic) f = (s, Panic)"
  by (simp_all add: and_then_st_def)

lemma guard_simps [simp, outcome_simps]:
  "guard True e = Ok ()"
  "guard False e = Err e"
  by (simp_all add: guard_def)

lemma and_then_eq_Ok: "and_then m f = Ok b \<longleftrightarrow> (\<exists>a. m = Ok a \<and> f a = Ok b)"
  by (cases m) auto

lemma and_then_eq_Panic:
  "and_then m f = Panic \<longleftrightarrow> m = Panic \<or> (\<exists>a. m = Ok a \<and> f a = Panic)"
  by (cases m) auto

lemma and_then_no_panic:
  "m \<noteq> Panic \<Longrightarrow> (\<And>a. m = Ok a \<Longrightarrow> f a \<noteq> Panic) \<Longrightarrow> and_then m f \<noteq> Panic"
  by (cases m) auto

lemma guard_eq_Ok [simp]: "guard b e = Ok u \<longleftrightarrow> b"
  by (simp add: guard_def)

lemma guard_no_panic [simp]: "guard b e \<noteq> Panic"
  by (simp add: guard_def)

section \<open>Arithmetic whose overflow depends on the profile\<close>

text \<open>
  With overflow checks (the \<open>dev\<close> profile) an unsigned overflow panics; without them (the
  \<open>release\<close> profile) it wraps. Operations whose overflow an input can reach take the profile.
\<close>

datatype profile = Debug | Release

definition add_ovf :: "profile \<Rightarrow> 'a::len word \<Rightarrow> 'a word \<Rightarrow> 'a word outcome" where
  "add_ovf prof a b =
     (if prof = Debug \<and> 2 ^ LENGTH('a) \<le> unat a + unat b then Panic else Ok (a + b))"

definition sub_ovf :: "profile \<Rightarrow> 'a::len word \<Rightarrow> 'a word \<Rightarrow> 'a word outcome" where
  "sub_ovf prof a b = (if prof = Debug \<and> a < b then Panic else Ok (a - b))"

lemma sub_ovf_Release [simp]: "sub_ovf Release a b = Ok (a - b)"
  by (simp add: sub_ovf_def)

lemma add_ovf_Release [simp]: "add_ovf Release a b = Ok (a + b)"
  by (simp add: add_ovf_def)

lemma sub_ovf_le [simp]: "b \<le> a \<Longrightarrow> sub_ovf prof a b = Ok (a - b)"
  by (auto simp: sub_ovf_def)

lemma sub_ovf_Debug_less: "a < b \<Longrightarrow> sub_ovf Debug a b = Panic"
  by (simp add: sub_ovf_def)

lemma sub_ovf_neq_Err [simp]: "sub_ovf prof a b \<noteq> Err e"
  by (simp add: sub_ovf_def)

lemma add_ovf_fits: "unat a + unat b < 2 ^ LENGTH('a) \<Longrightarrow> add_ovf prof a b = Ok (a + b)"
  for a b :: "'a::len word"
  by (simp add: add_ovf_def)

section \<open>Slices\<close>

text \<open>Indexing and slicing panic out of range.\<close>

definition idx :: "'a list \<Rightarrow> nat \<Rightarrow> 'a outcome" where
  "idx xs i = (if i < length xs then Ok (xs ! i) else Panic)"

definition slice :: "'a list \<Rightarrow> nat \<Rightarrow> nat \<Rightarrow> 'a list outcome" where
  "slice xs i j = (if i \<le> j \<and> j \<le> length xs then Ok (take (j - i) (drop i xs)) else Panic)"

definition slice_from :: "'a list \<Rightarrow> nat \<Rightarrow> 'a list outcome" where
  "slice_from xs i = (if i \<le> length xs then Ok (drop i xs) else Panic)"

lemma idx_Ok [simp]: "i < length xs \<Longrightarrow> idx xs i = Ok (xs ! i)"
  by (simp add: idx_def)

lemma idx_Panic [simp]: "length xs \<le> i \<Longrightarrow> idx xs i = Panic"
  by (simp add: idx_def)

lemma slice_Ok [simp]: "i \<le> j \<Longrightarrow> j \<le> length xs \<Longrightarrow> slice xs i j = Ok (take (j - i) (drop i xs))"
  by (simp add: slice_def)

lemma slice_from_Ok [simp]: "i \<le> length xs \<Longrightarrow> slice_from xs i = Ok (drop i xs)"
  by (simp add: slice_from_def)

lemma nth_append_left_eq: "i < length xs \<Longrightarrow> (xs @ ys) ! i = xs ! i"
  by (simp add: nth_append)

section \<open>Words as numbers\<close>

lemma unat_take_bit: "unat (take_bit n w) = unat w mod 2 ^ n" for w :: "'a::len word"
  by (simp only: unsigned_take_bit_eq) (simp add: take_bit_eq_mod)

lemma take_bit_self_iff_unat: "take_bit n w = w \<longleftrightarrow> unat w < 2 ^ n" for w :: "'a::len word"
  by (metis mod_less mod_less_divisor unat_take_bit word_unat_eq_iff zero_less_numeral zero_less_power)

lemma bit_u8_less: "bit (b :: u8) n \<Longrightarrow> n < 8"
  using bit_imp_le_length [of b n] by simp

lemma unat_succ_less: "i < h \<Longrightarrow> unat (i + 1) = unat i + 1" for i h :: "'a::len word"
proof -
  assume "i < h"
  then have "unat i < unat h" by (simp add: word_less_nat_alt)
  moreover have "unat h < 2 ^ LENGTH('a)" by (rule unsigned_less)
  ultimately have "unat i + 1 < 2 ^ LENGTH('a)" by linarith
  then show ?thesis by (simp add: unat_word_ariths)
qed

lemma succ_le_of_less: "i < h \<Longrightarrow> i + 1 \<le> h" for i h :: "'a::len word"
  using unat_succ_less [of i h] by (simp add: word_le_nat_alt word_less_nat_alt)

section \<open>Big-endian codecs of the standard library\<close>

text \<open>\<open>to_be_bytes\<close> and \<open>from_be_bytes\<close> at any width, \<open>n\<close> bytes.\<close>

fun to_be :: "nat \<Rightarrow> 'a::len word \<Rightarrow> bytes" where
  "to_be 0 w = []"
| "to_be (Suc n) w = ucast (drop_bit (8 * n) w) # to_be n w"

definition from_be :: "bytes \<Rightarrow> 'a::len word" where
  "from_be bs = foldl (\<lambda>acc b. push_bit 8 acc OR ucast b) 0 bs"

text \<open>\<open>from_be_bytes([b[i], .., b[i + n - 1]])\<close>: panics when the indices leave the slice.\<close>

definition get_be :: "nat \<Rightarrow> bytes \<Rightarrow> nat \<Rightarrow> 'a::len word outcome" where
  "get_be n b i = (if i + n \<le> length b then Ok (from_be (take n (drop i b))) else Panic)"

lemma length_to_be [simp]: "length (to_be n w) = n"
  by (induction n) auto

lemma to_be_eq_Nil [simp]: "to_be n w = [] \<longleftrightarrow> n = 0"
  by (cases n) auto

lemma foldl_to_be:
  "foldl (\<lambda>acc b. push_bit 8 acc OR ucast b) acc (to_be n w)
     = push_bit (8 * n) acc OR take_bit (8 * n) (w :: 'a::len word)"
proof (induction n arbitrary: acc)
  case 0
  show ?case by simp
next
  case (Suc n)
  have "push_bit (8 * n) (push_bit 8 acc OR ucast (ucast (drop_bit (8 * n) w) :: u8))
          OR take_bit (8 * n) w
        = push_bit (8 * Suc n) acc OR take_bit (8 * Suc n) w"
    by (rule bit_eqI)
      (auto simp: bit_simps not_less algebra_simps split: if_splits)
  then show ?case by (simp add: Suc.IH)
qed

lemma from_be_to_be: "from_be (to_be n w) = (take_bit (8 * n) w :: 'a::len word)"
  by (simp add: from_be_def foldl_to_be)

lemma from_be_to_be_full [simp]:
  "LENGTH('a) \<le> 8 * n \<Longrightarrow> from_be (to_be n w) = (w :: 'a::len word)"
  by (simp add: from_be_to_be take_bit_word_eq_self)

lemma get_be_Ok [simp]: "i + n \<le> length b \<Longrightarrow> get_be n b i = Ok (from_be (take n (drop i b)))"
  by (simp add: get_be_def)

lemma get_be_no_panic_iff: "get_be n b i = Panic \<longleftrightarrow> length b < i + n"
  by (auto simp: get_be_def)

end
