(* ===== verification/Binary.thy ===== *)
theory Binary
  imports Prelude
begin

text \<open>
  The 24-bit counters of \<open>src/binary.rs\<close>: the wrapper type with its masked constructor and
  wrap-around increment, the little-endian wire format, and the big-endian 16/32-bit writers.
  A \<open>Uint24\<close> wraps a \<open>u32\<close>; the field is public, so a value above 24 bits is representable
  and \<open>u24_ok\<close> says that there is none.
\<close>

unbundle bit_operations_syntax

section \<open>The type\<close>

datatype Uint24 = Uint24 (u24: u32)

definition u24_mask :: u32 where
  "u24_mask = 0x00FFFFFF"

definition u24_new :: "u32 \<Rightarrow> Uint24" where
  "u24_new v = Uint24 (v AND u24_mask)"

text \<open>\<open>inc\<close> returns the old value; the second component is the updated counter.\<close>

definition u24_inc :: "Uint24 \<Rightarrow> Uint24 \<times> Uint24" where
  "u24_inc self = (self, Uint24 ((u24 self + 1) AND u24_mask))"

definition u24_add :: "Uint24 \<Rightarrow> Uint24 \<Rightarrow> Uint24" where
  "u24_add a b = u24_new (u24 a + u24 b)"

definition u24_add_u32 :: "Uint24 \<Rightarrow> u32 \<Rightarrow> Uint24" where
  "u24_add_u32 a b = u24_new (u24 a + b)"

definition u24_sub :: "Uint24 \<Rightarrow> Uint24 \<Rightarrow> Uint24" where
  "u24_sub a b = u24_new (u24 a - u24 b)"

text \<open>The derived order compares the wrapped numbers.\<close>

instantiation Uint24 :: linorder
begin

definition less_eq_Uint24 :: "Uint24 \<Rightarrow> Uint24 \<Rightarrow> bool" where
  "less_eq_Uint24 a b \<longleftrightarrow> u24 a \<le> u24 b"

definition less_Uint24 :: "Uint24 \<Rightarrow> Uint24 \<Rightarrow> bool" where
  "less_Uint24 a b \<longleftrightarrow> u24 a < u24 b"

instance
  by standard (auto simp: less_eq_Uint24_def less_Uint24_def Uint24.expand)

end

definition u24_ok :: "Uint24 \<Rightarrow> bool" where
  "u24_ok v \<longleftrightarrow> u24 v < 0x1000000"

section \<open>The wire format\<close>

text \<open>\<open>read_uint24\<close> consumes from a \<open>Buf\<close>: the second component is what remains.\<close>

definition read_uint24 :: "bytes \<Rightarrow> Uint24 outcome \<times> bytes" where
  "read_uint24 buf =
     (if length buf < 3 then (Err UnexpectedEof, buf)
      else (Ok (Uint24 (ucast (buf ! 0) OR push_bit 8 (ucast (buf ! 1))
                         OR push_bit 16 (ucast (buf ! 2)))),
            drop 3 buf))"

definition load_uint24 :: "bytes \<Rightarrow> Uint24 outcome" where
  "load_uint24 b =
     and_then (idx b 0) (\<lambda>b0. and_then (idx b 1) (\<lambda>b1. and_then (idx b 2) (\<lambda>b2.
       Ok (Uint24 (ucast b0 OR push_bit 8 (ucast b1) OR push_bit 16 (ucast b2))))))"

definition write_uint24 :: "bytes \<Rightarrow> Uint24 \<Rightarrow> bytes" where
  "write_uint24 buf v =
     buf @ [ucast (u24 v), ucast (drop_bit 8 (u24 v)), ucast (drop_bit 16 (u24 v))]"

definition write_uint16 :: "bytes \<Rightarrow> u16 \<Rightarrow> bytes" where
  "write_uint16 buf v = buf @ [ucast (drop_bit 8 v), ucast v]"

definition write_uint32 :: "bytes \<Rightarrow> u32 \<Rightarrow> bytes" where
  "write_uint32 buf v =
     buf @ [ucast (drop_bit 24 v), ucast (drop_bit 16 v), ucast (drop_bit 8 v), ucast v]"

section \<open>Facts about the counters\<close>

lemma u24_mask_eq: "u24_mask = mask 24"
  by (simp add: u24_mask_def mask_eq_exp_minus_1)

lemma and_u24_mask: "w AND u24_mask = take_bit 24 w"
  by (simp add: u24_mask_eq take_bit_eq_mask)

lemma u24_ok_iff_unat: "u24_ok v \<longleftrightarrow> unat (u24 v) < 2 ^ 24"
  by (simp add: u24_ok_def word_less_nat_alt)

lemma u24_ok_iff_take_bit: "u24_ok v \<longleftrightarrow> take_bit 24 (u24 v) = u24 v"
  by (simp add: u24_ok_iff_unat take_bit_self_iff_unat)

lemma u24_take_bit [simp]: "u24_ok v \<Longrightarrow> take_bit 24 (u24 v) = u24 v"
  by (simp add: u24_ok_iff_take_bit)

lemma u24_ok_Uint24_take_bit [simp, intro]: "u24_ok (Uint24 (take_bit 24 w))"
  by (simp add: u24_ok_iff_take_bit)

lemma u24_u24_new: "u24 (u24_new w) = take_bit 24 w"
  by (simp add: u24_new_def and_u24_mask)

lemma u24_ok_new [simp, intro]: "u24_ok (u24_new w)"
  by (simp add: u24_new_def and_u24_mask)

lemma unat_u24_new: "unat (u24 (u24_new w)) = unat w mod 2 ^ 24"
  by (simp add: u24_u24_new unat_take_bit)

lemma u24_new_u24 [simp]: "u24_ok v \<Longrightarrow> u24_new (u24 v) = v"
  by (simp add: u24_new_def and_u24_mask)

lemma u24_new_small: "unat w < 2 ^ 24 \<Longrightarrow> u24 (u24_new w) = w"
  by (rule word_unat_eq_iff [THEN iffD2]) (simp add: unat_u24_new)

lemma unat_suc_u24: "u24_ok v \<Longrightarrow> unat (u24 v + 1) = unat (u24 v) + 1"
  by (simp add: u24_ok_iff_unat unat_word_ariths)

lemma u24_inc_old [simp]: "fst (u24_inc v) = v"
  by (simp add: u24_inc_def)

lemma u24_ok_inc [simp]: "u24_ok (snd (u24_inc v))"
  by (simp add: u24_inc_def and_u24_mask)

lemma unat_u24_inc:
  "u24_ok v \<Longrightarrow> unat (u24 (snd (u24_inc v))) = (unat (u24 v) + 1) mod 2 ^ 24"
  by (simp add: u24_inc_def and_u24_mask unat_take_bit unat_suc_u24)

lemma u24_le_iff: "a \<le> b \<longleftrightarrow> unat (u24 a) \<le> unat (u24 b)"
  by (simp add: less_eq_Uint24_def word_le_nat_alt)

lemma u24_less_iff: "a < b \<longleftrightarrow> unat (u24 a) < unat (u24 b)"
  by (simp add: less_Uint24_def word_less_nat_alt)

lemma u24_eq_iff: "a = b \<longleftrightarrow> unat (u24 a) = unat (u24 b)"
  by (cases a; cases b) (simp add: word_unat_eq_iff)

lemma unat_u24_new_of_nat: "k < 2 ^ 24 \<Longrightarrow> unat (u24 (u24_new (of_nat k))) = k"
  by (simp add: unat_u24_new unsigned_of_nat take_bit_eq_mod)

lemma u24_new_eqI: "u24_ok v \<Longrightarrow> unat (u24 v) = k \<Longrightarrow> u24_new (of_nat k) = v"
  by (auto simp: u24_eq_iff u24_ok_iff_unat unat_u24_new_of_nat)

text \<open>
  The counter run \<open>k\<close> times from \<open>v\<close>: increments wrap modulo \<open>2 ^ 24\<close>, so fewer than
  \<open>2 ^ 24\<close> of them never repeat a value.
\<close>

definition u24_plus :: "Uint24 \<Rightarrow> nat \<Rightarrow> Uint24" where
  "u24_plus v k = Uint24 (take_bit 24 (u24 v + of_nat k))"

lemma u24_ok_plus [simp]: "u24_ok (u24_plus v k)"
  by (simp add: u24_plus_def)

lemma u24_plus_0 [simp]: "u24_ok v \<Longrightarrow> u24_plus v 0 = v"
  by (simp add: u24_plus_def)

lemma u24_plus_inc: "u24_plus (snd (u24_inc v)) k = u24_plus v (Suc k)"
proof -
  have "take_bit 24 (take_bit 24 (u24 v + 1) + of_nat k)
      = take_bit 24 (u24 v + 1 + of_nat k)"
    by (rule word_unat_eq_iff [THEN iffD2])
      (simp add: unat_take_bit unat_word_ariths mod_mod_cancel mod_simps)
  then show ?thesis
    by (simp add: u24_plus_def u24_inc_def and_u24_mask algebra_simps)
qed

section \<open>Indices with a successor\<close>

text \<open>The numbers whose successor does not wrap.\<close>

definition u24_inner :: "Uint24 \<Rightarrow> bool" where
  "u24_inner i \<longleftrightarrow> u24 i < 0xFFFFFF"

lemma u24_inner_ok: "u24_inner i \<Longrightarrow> u24_ok i"
  by (simp add: u24_inner_def u24_ok_def word_less_nat_alt)

lemma u24_inner_succ:
  "u24_inner i \<Longrightarrow> unat (u24 i + 1) = unat (u24 i) + 1 \<and> u24 (u24_new (u24 i + 1)) = u24 i + 1"
proof -
  assume v: "u24_inner i"
  then have u: "unat (u24 i + 1) = unat (u24 i) + 1" by (intro unat_suc_u24 u24_inner_ok)
  moreover have "unat (u24 i + 1) < 2 ^ 24" using v u by (simp add: u24_inner_def word_less_nat_alt)
  ultimately show ?thesis by (simp add: u24_new_small)
qed

section \<open>Round trips\<close>

lemma word_byte_decompose:
  "ucast (ucast (w :: u32) :: u8) OR push_bit 8 (ucast (ucast (drop_bit 8 w) :: u8))
     OR push_bit 16 (ucast (ucast (drop_bit 16 w) :: u8)) = take_bit 24 w"
proof (rule bit_eqI)
  fix n
  assume "possible_bit TYPE(u32) n"
  consider "n < 8" | "8 \<le> n \<and> n < 16" | "16 \<le> n \<and> n < 24" | "24 \<le> n" by linarith
  then show "bit (ucast (ucast w :: u8) OR push_bit 8 (ucast (ucast (drop_bit 8 w) :: u8))
      OR push_bit 16 (ucast (ucast (drop_bit 16 w) :: u8)) :: u32) n = bit (take_bit 24 w) n"
    by cases (auto simp: bit_simps)
qed

lemma length_write_uint24 [simp]: "length (write_uint24 buf v) = length buf + 3"
  by (simp add: write_uint24_def)

lemma length_write_uint16 [simp]: "length (write_uint16 buf v) = length buf + 2"
  by (simp add: write_uint16_def)

lemma length_write_uint32 [simp]: "length (write_uint32 buf v) = length buf + 4"
  by (simp add: write_uint32_def)

lemma write_uint24_append: "write_uint24 buf v = buf @ write_uint24 [] v"
  by (simp add: write_uint24_def)

lemma write_uint16_to_be: "write_uint16 buf v = buf @ to_be 2 v"
  by (simp add: write_uint16_def numeral_2_eq_2)

lemma write_uint32_to_be: "write_uint32 buf v = buf @ to_be 4 v"
  by (simp add: write_uint32_def eval_nat_numeral)

lemma load_uint24_write [simp]:
  "u24_ok v \<Longrightarrow> load_uint24 (write_uint24 [] v @ rest) = Ok v"
  by (simp add: load_uint24_def write_uint24_def word_byte_decompose)

lemma load_uint24_eq:
  assumes "3 \<le> length b"
  shows "load_uint24 b = Ok (Uint24 (ucast (b ! 0) OR push_bit 8 (ucast (b ! 1))
                                      OR push_bit 16 (ucast (b ! 2))))"
proof -
  from assms have "0 < length b" "1 < length b" "2 < length b" by linarith+
  then show ?thesis unfolding load_uint24_def by (simp only: idx_Ok and_then.simps)
qed

lemma load_uint24_no_panic: "3 \<le> length b \<Longrightarrow> \<exists>v. load_uint24 b = Ok v \<and> u24_ok v"
proof -
  assume len: "3 \<le> length b"
  have "take_bit 24 (ucast (x :: u8) OR push_bit 8 (ucast (y :: u8)) OR push_bit 16 (ucast (z :: u8)) :: u32)
      = ucast x OR push_bit 8 (ucast y) OR push_bit 16 (ucast z)" for x y z
    by (rule bit_eqI) (auto simp: bit_simps dest: bit_u8_less)
  with len show ?thesis by (simp add: load_uint24_eq u24_ok_iff_take_bit)
qed

lemma load_uint24_Ok_length: "load_uint24 b = Ok v \<Longrightarrow> 3 \<le> length b"
  by (auto simp: load_uint24_def idx_def and_then_eq_Ok split: if_splits)

lemma load_uint24_ok: "load_uint24 b = Ok v \<Longrightarrow> u24_ok v"
  using load_uint24_no_panic [of b] load_uint24_Ok_length [of b v] by auto

lemma load_uint24_neq_Err [simp]: "load_uint24 b \<noteq> Err e"
  by (cases "3 \<le> length b")
    (auto dest: load_uint24_no_panic simp: load_uint24_def idx_def)

lemma read_uint24_load:
  "read_uint24 b =
     (if length b < 3 then (Err UnexpectedEof, b) else (load_uint24 b, drop 3 b))"
  by (simp add: read_uint24_def load_uint24_eq)

end
