(* ===== verification/Packet.thy ===== *)
theory Packet
  imports Binary
begin

text \<open>
  Packet encapsulation, \<open>src/packet.rs\<close>: the header flags, the \<open>Packet\<close> struct, its writer
  and reader, the reliability predicates and the function that splits a content buffer into
  fragments that fit the MTU.
\<close>

unbundle bit_operations_syntax

section \<open>Constants\<close>

definition BIT_FLAG_DATAGRAM :: u8 where "BIT_FLAG_DATAGRAM = 0x80"
definition BIT_FLAG_ACK :: u8 where "BIT_FLAG_ACK = 0x40"
definition BIT_FLAG_NACK :: u8 where "BIT_FLAG_NACK = 0x20"
definition BIT_FLAG_NEEDS_B_AND_AS :: u8 where "BIT_FLAG_NEEDS_B_AND_AS = 0x04"

definition RELIABILITY_UNRELIABLE :: u8 where "RELIABILITY_UNRELIABLE = 0"
definition RELIABILITY_UNRELIABLE_SEQUENCED :: u8 where "RELIABILITY_UNRELIABLE_SEQUENCED = 1"
definition RELIABILITY_RELIABLE :: u8 where "RELIABILITY_RELIABLE = 2"
definition RELIABILITY_RELIABLE_ORDERED :: u8 where "RELIABILITY_RELIABLE_ORDERED = 3"
definition RELIABILITY_RELIABLE_SEQUENCED :: u8 where "RELIABILITY_RELIABLE_SEQUENCED = 4"

definition SPLIT_FLAG :: u8 where "SPLIT_FLAG = 0x10"

definition PACKET_ADDITIONAL_SIZE :: u16 where
  "PACKET_ADDITIONAL_SIZE = 1 + 3 + 1 + 2 + 3 + 3 + 1"

definition SPLIT_ADDITIONAL_SIZE :: u16 where
  "SPLIT_ADDITIONAL_SIZE = 4 + 2 + 4"

lemmas reliability_defs =
  RELIABILITY_UNRELIABLE_def RELIABILITY_UNRELIABLE_SEQUENCED_def RELIABILITY_RELIABLE_def
  RELIABILITY_RELIABLE_ORDERED_def RELIABILITY_RELIABLE_SEQUENCED_def

lemmas flag_defs =
  BIT_FLAG_DATAGRAM_def BIT_FLAG_ACK_def BIT_FLAG_NACK_def BIT_FLAG_NEEDS_B_AND_AS_def

section \<open>The packet\<close>

record Packet =
  reliability :: u8
  message_index :: Uint24
  sequence_index :: Uint24
  order_index :: Uint24
  content :: bytes
  split_flag :: bool
  split_count :: u32
  split_index :: u32
  split_id :: u16

definition packet_new :: Packet where
  "packet_new =
     \<lparr>reliability = RELIABILITY_RELIABLE_ORDERED, message_index = Uint24 0,
      sequence_index = Uint24 0, order_index = Uint24 0, content = [], split_flag = False,
      split_count = 0, split_index = 0, split_id = 0\<rparr>"

definition is_reliable :: "Packet \<Rightarrow> bool" where
  "is_reliable pk \<longleftrightarrow>
     reliability pk \<in> {RELIABILITY_RELIABLE, RELIABILITY_RELIABLE_ORDERED,
                        RELIABILITY_RELIABLE_SEQUENCED}"

definition is_sequenced_or_ordered :: "Packet \<Rightarrow> bool" where
  "is_sequenced_or_ordered pk \<longleftrightarrow>
     reliability pk \<in> {RELIABILITY_UNRELIABLE_SEQUENCED, RELIABILITY_RELIABLE_ORDERED,
                        RELIABILITY_RELIABLE_SEQUENCED}"

definition is_sequenced :: "Packet \<Rightarrow> bool" where
  "is_sequenced pk \<longleftrightarrow>
     reliability pk \<in> {RELIABILITY_UNRELIABLE_SEQUENCED, RELIABILITY_RELIABLE_SEQUENCED}"

definition packet_reset :: "Packet \<Rightarrow> Packet" where
  "packet_reset pk =
     pk\<lparr>reliability := RELIABILITY_RELIABLE_ORDERED, message_index := Uint24 0,
        sequence_index := Uint24 0, order_index := Uint24 0, content := [], split_flag := False,
        split_count := 0, split_index := 0, split_id := 0\<rparr>"

section \<open>Writing\<close>

text \<open>\<open>write\<close> appends to the buffer. The length field is \<open>(len as u16) << 3\<close>.\<close>

definition packet_write :: "Packet \<Rightarrow> bytes \<Rightarrow> bytes" where
  "packet_write pk buf =
     (let header = push_bit 5 (reliability pk);
          header = (if split_flag pk then header OR SPLIT_FLAG else header);
          buf = buf @ [header];
          buf = write_uint16 buf (push_bit 3 (of_nat (length (content pk))));
          buf = (if is_reliable pk then write_uint24 buf (message_index pk) else buf);
          buf = (if is_sequenced pk then write_uint24 buf (sequence_index pk) else buf);
          buf = (if is_sequenced_or_ordered pk
                 then write_uint24 buf (order_index pk) @ [0] else buf);
          buf = (if split_flag pk
                 then write_uint32 (write_uint16 (write_uint32 buf (split_count pk))
                                     (split_id pk)) (split_index pk)
                 else buf)
      in buf @ content pk)"

section \<open>Reading\<close>

text \<open>
  \<open>read\<close> fills the packet it is called on as it goes and returns the number of bytes consumed.
  Each optional part of the header tests the space left, stores its fields and advances the
  offset; a failed test leaves the fields stored so far.
\<close>

definition read_message_index :: "bytes \<Rightarrow> Packet \<Rightarrow> nat \<Rightarrow> Packet \<times> nat outcome" where
  "read_message_index b pk offset =
     (if is_reliable pk then
        if length b - offset < 3 then (pk, Err UnexpectedEof)
        else (case load_uint24 (drop offset b) of
                Ok v \<Rightarrow> (pk\<lparr>message_index := v\<rparr>, Ok (offset + 3))
              | Err e \<Rightarrow> (pk, Err e) | Panic \<Rightarrow> (pk, Panic))
      else (pk, Ok offset))"

definition read_sequence_index :: "bytes \<Rightarrow> Packet \<Rightarrow> nat \<Rightarrow> Packet \<times> nat outcome" where
  "read_sequence_index b pk offset =
     (if is_sequenced pk then
        if length b - offset < 3 then (pk, Err UnexpectedEof)
        else (case load_uint24 (drop offset b) of
                Ok v \<Rightarrow> (pk\<lparr>sequence_index := v\<rparr>, Ok (offset + 3))
              | Err e \<Rightarrow> (pk, Err e) | Panic \<Rightarrow> (pk, Panic))
      else (pk, Ok offset))"

definition read_order_index :: "bytes \<Rightarrow> Packet \<Rightarrow> nat \<Rightarrow> Packet \<times> nat outcome" where
  "read_order_index b pk offset =
     (if is_sequenced_or_ordered pk then
        if length b - offset < 4 then (pk, Err UnexpectedEof)
        else (case load_uint24 (drop offset b) of
                Ok v \<Rightarrow> (pk\<lparr>order_index := v\<rparr>, Ok (offset + 4))
              | Err e \<Rightarrow> (pk, Err e) | Panic \<Rightarrow> (pk, Panic))
      else (pk, Ok offset))"

definition read_split :: "bytes \<Rightarrow> Packet \<Rightarrow> nat \<Rightarrow> Packet \<times> nat outcome" where
  "read_split b pk offset =
     (if split_flag pk then
        if length b - offset < 10 then (pk, Err UnexpectedEof)
        else (case (get_be 4 b offset, get_be 2 b (offset + 4), get_be 4 b (offset + 6)) of
                (Ok count, Ok i, Ok index) \<Rightarrow>
                  (pk\<lparr>split_count := count, split_id := i, split_index := index\<rparr>,
                   Ok (offset + 10))
              | _ \<Rightarrow> (pk, Panic))
      else (pk, Ok offset))"

definition read_content :: "bytes \<Rightarrow> nat \<Rightarrow> Packet \<Rightarrow> nat \<Rightarrow> Packet \<times> nat outcome" where
  "read_content b n pk offset =
     (if length b - offset < n then (pk, Err UnexpectedEof)
      else (case slice b offset (offset + n) of
              Ok c \<Rightarrow> (pk\<lparr>content := c\<rparr>, Ok (offset + n))
            | Err e \<Rightarrow> (pk, Err e) | Panic \<Rightarrow> (pk, Panic)))"

definition packet_read :: "Packet \<Rightarrow> bytes \<Rightarrow> Packet \<times> nat outcome" where
  "packet_read pk b =
     (if length b < 3 then (pk, Err UnexpectedEof)
      else
        let header = b ! 0;
            pk = pk\<lparr>split_flag := header AND SPLIT_FLAG \<noteq> 0\<rparr>;
            pk = pk\<lparr>reliability := drop_bit 5 (header AND 224)\<rparr>;
            n = unat (drop_bit 3 (from_be [b ! 1, b ! 2] :: u16))
        in if n = 0 then (pk, Err (InvalidPacketLength ''cannot be 0''))
           else and_then_st (read_message_index b pk 3) (\<lambda>pk offset.
                and_then_st (read_sequence_index b pk offset) (\<lambda>pk offset.
                and_then_st (read_order_index b pk offset) (\<lambda>pk offset.
                and_then_st (read_split b pk offset) (\<lambda>pk offset.
                read_content b n pk offset)))))"

section \<open>Splitting\<close>

text \<open>
  \<open>split\<close> borrows slices of its argument. \<open>n.div_ceil(max_size)\<close> panics for a zero divisor;
  \<open>mtu - ADDITIONAL\<close> and \<open>fragment_count - 1\<close> underflow according to the profile, the latter to
  \<open>2 ^ 64 - 1\<close> iterations of the slicing loop in the release profile (a \<open>usize\<close> has 64 bits).
\<close>

definition div_ceil :: "nat \<Rightarrow> nat \<Rightarrow> nat" where
  "div_ceil n m = (if n mod m = 0 then n div m else n div m + 1)"

text \<open>The loop: \<open>k\<close> iterations, each of which slices \<open>max_size\<close> bytes off \<open>remaining\<close>.\<close>

fun split_loop :: "nat \<Rightarrow> nat \<Rightarrow> bytes \<Rightarrow> bytes list \<Rightarrow> (bytes list \<times> bytes) outcome" where
  "split_loop 0 max_size remaining fragments = Ok (fragments, remaining)"
| "split_loop (Suc k) max_size remaining fragments =
     (if length remaining < max_size then Panic
      else split_loop k max_size (drop max_size remaining)
             (fragments @ [take max_size remaining]))"

definition split_max_size :: "profile \<Rightarrow> nat \<Rightarrow> u16 \<Rightarrow> nat outcome" where
  "split_max_size prof n mtu =
     and_then (sub_ovf prof mtu PACKET_ADDITIONAL_SIZE) (\<lambda>m.
       if unat m < n
       then and_then (sub_ovf prof m SPLIT_ADDITIONAL_SIZE) (\<lambda>m'. Ok (unat m'))
       else Ok (unat m))"

definition split :: "profile \<Rightarrow> bytes \<Rightarrow> u16 \<Rightarrow> bytes list outcome" where
  "split prof b mtu =
     and_then (split_max_size prof (length b) mtu) (\<lambda>max_size.
       if max_size = 0 then Panic
       else
         let fragment_count = div_ceil (length b) max_size in
         and_then (sub_ovf prof (of_nat fragment_count :: u64) 1) (\<lambda>iterations.
         and_then (split_loop (unat iterations) max_size b []) (\<lambda>(fragments, remaining).
           Ok (fragments @ [remaining]))))"

section \<open>The wire layout\<close>

text \<open>
  The parts of an encoded packet, in order. \<open>packet_write\<close> is their concatenation, and each
  step of the reader is characterised on its own part.
\<close>

definition header_byte :: "Packet \<Rightarrow> u8" where
  "header_byte pk = (if split_flag pk then push_bit 5 (reliability pk) OR SPLIT_FLAG
                     else push_bit 5 (reliability pk))"

definition length_field :: "Packet \<Rightarrow> u16" where
  "length_field pk = push_bit 3 (of_nat (length (content pk)))"

definition message_part :: "Packet \<Rightarrow> bytes" where
  "message_part pk = (if is_reliable pk then write_uint24 [] (message_index pk) else [])"

definition sequence_part :: "Packet \<Rightarrow> bytes" where
  "sequence_part pk = (if is_sequenced pk then write_uint24 [] (sequence_index pk) else [])"

definition order_part :: "Packet \<Rightarrow> bytes" where
  "order_part pk =
     (if is_sequenced_or_ordered pk then write_uint24 [] (order_index pk) @ [0] else [])"

definition split_part :: "Packet \<Rightarrow> bytes" where
  "split_part pk =
     (if split_flag pk
      then to_be 4 (split_count pk) @ to_be 2 (split_id pk) @ to_be 4 (split_index pk)
      else [])"

lemma packet_write_parts:
  "packet_write pk buf =
     buf @ [header_byte pk] @ to_be 2 (length_field pk) @ message_part pk @ sequence_part pk
       @ order_part pk @ split_part pk @ content pk"
  by (simp add: packet_write_def Let_def header_byte_def length_field_def message_part_def
      sequence_part_def order_part_def split_part_def write_uint16_to_be write_uint32_to_be
      write_uint24_def)

lemma packet_write_append: "packet_write pk buf = buf @ packet_write pk []"
  by (simp add: packet_write_parts)

lemma header_byte_split: "header_byte pk AND SPLIT_FLAG \<noteq> 0 \<longleftrightarrow> split_flag pk"
proof -
  have "x AND SPLIT_FLAG = 0 \<longleftrightarrow> \<not> bit x 4" for x
    using and_exp_eq_0_iff_not_bit [of x 4] by (simp add: SPLIT_FLAG_def)
  moreover have "bit (header_byte pk) 4 \<longleftrightarrow> split_flag pk"
    by (auto simp: header_byte_def SPLIT_FLAG_def bit_simps)
  ultimately show ?thesis by simp
qed

lemma header_byte_reliability:
  "unat (reliability pk) < 8 \<Longrightarrow> drop_bit 5 (header_byte pk AND 224) = reliability pk"
proof -
  assume "unat (reliability pk) < 8"
  then have "take_bit 3 (reliability pk) = reliability pk"
    by (simp add: take_bit_self_iff_unat)
  moreover have "drop_bit 5 (header_byte pk AND 224) = take_bit 3 (reliability pk)"
  proof (rule bit_eqI)
    fix n
    assume "possible_bit TYPE(u8) n"
    then have "n < 8" by simp
    then consider "n = 0" | "n = 1" | "n = 2" | "n = 3" | "n = 4" | "n = 5" | "n = 6" | "n = 7"
      by linarith
    then show "bit (drop_bit 5 (header_byte pk AND 224)) n = bit (take_bit 3 (reliability pk)) n"
      by cases (auto simp: header_byte_def SPLIT_FLAG_def bit_simps)
  qed
  ultimately show ?thesis by simp
qed

lemma length_field_read:
  "length (content pk) < 8192 \<Longrightarrow> unat (drop_bit 3 (length_field pk)) = length (content pk)"
proof -
  assume "length (content pk) < 8192"
  then have "unat (length_field pk) = length (content pk) * 8"
    by (simp add: length_field_def push_bit_eq_mult unat_word_ariths unsigned_of_nat take_bit_eq_mod)
  then show ?thesis by (simp add: drop_bit_eq_div unat_div_distrib)
qed

section \<open>The reader on the writer's output\<close>

lemma read_message_index_part:
  assumes "is_reliable pk = is_reliable q" and "u24_ok (message_index q)"
  shows "read_message_index (pre @ message_part q @ rest) pk (length pre) =
    (if is_reliable q then pk\<lparr>message_index := message_index q\<rparr> else pk,
     Ok (length pre + length (message_part q)))"
  using assms by (simp add: read_message_index_def message_part_def)

lemma read_sequence_index_part:
  assumes "is_sequenced pk = is_sequenced q" and "u24_ok (sequence_index q)"
  shows "read_sequence_index (pre @ sequence_part q @ rest) pk (length pre) =
    (if is_sequenced q then pk\<lparr>sequence_index := sequence_index q\<rparr> else pk,
     Ok (length pre + length (sequence_part q)))"
  using assms by (simp add: read_sequence_index_def sequence_part_def)

lemma read_order_index_part:
  assumes "is_sequenced_or_ordered pk = is_sequenced_or_ordered q" and "u24_ok (order_index q)"
  shows "read_order_index (pre @ order_part q @ rest) pk (length pre) =
    (if is_sequenced_or_ordered q then pk\<lparr>order_index := order_index q\<rparr> else pk,
     Ok (length pre + length (order_part q)))"
  using assms by (simp add: read_order_index_def order_part_def)

lemma read_split_part:
  assumes "split_flag pk = split_flag q"
  shows "read_split (pre @ split_part q @ rest) pk (length pre) =
    (if split_flag q
     then pk\<lparr>split_count := split_count q, split_id := split_id q, split_index := split_index q\<rparr>
     else pk,
     Ok (length pre + length (split_part q)))"
proof (cases "split_flag q")
  case True
  have "take 2 (drop 4 (to_be 4 (split_count q) @ to_be 2 (split_id q) @ to_be 4 (split_index q) @ rest))
      = to_be 2 (split_id q)"
    by simp
  with True assms show ?thesis
    by (simp add: read_split_def split_part_def)
next
  case False
  with assms show ?thesis by (simp add: read_split_def split_part_def)
qed

lemma read_content_part:
  "read_content (pre @ content q @ rest) (length (content q)) pk (length pre) =
    (pk\<lparr>content := content q\<rparr>, Ok (length pre + length (content q)))"
  by (simp add: read_content_def)

section \<open>Round trip, progress and absence of panics\<close>

definition packet_wf :: "Packet \<Rightarrow> bool" where
  "packet_wf pk \<longleftrightarrow>
     unat (reliability pk) < 8 \<and> u24_ok (message_index pk) \<and> u24_ok (sequence_index pk)
     \<and> u24_ok (order_index pk) \<and> content pk \<noteq> [] \<and> length (content pk) < 8192"

text \<open>
  What reading \<open>q\<close> leaves in the packet \<open>pk\<close> the reader is called on: the fields the header of
  \<open>q\<close> carries, and the old ones elsewhere.
\<close>

definition packet_decoded :: "Packet \<Rightarrow> Packet \<Rightarrow> Packet" where
  "packet_decoded pk q =
     \<lparr>reliability = reliability q,
      message_index = (if is_reliable q then message_index q else message_index pk),
      sequence_index = (if is_sequenced q then sequence_index q else sequence_index pk),
      order_index = (if is_sequenced_or_ordered q then order_index q else order_index pk),
      content = content q, split_flag = split_flag q,
      split_count = (if split_flag q then split_count q else split_count pk),
      split_index = (if split_flag q then split_index q else split_index pk),
      split_id = (if split_flag q then split_id q else split_id pk)\<rparr>"

lemma length_packet_write:
  "length (packet_write pk []) =
     3 + length (message_part pk) + length (sequence_part pk) + length (order_part pk)
       + length (split_part pk) + length (content pk)"
  by (simp add: packet_write_parts)

lemma packet_read_write:
  assumes wf: "packet_wf q"
  shows "packet_read p (packet_write q [] @ rest)
           = (packet_decoded p q, Ok (length (packet_write q [])))"
proof -
  let ?b = "packet_write q [] @ rest"
  let ?h = "[header_byte q] @ to_be 2 (length_field q)"
  have two: "to_be 2 w = [ucast (drop_bit 8 w), ucast w]" for w :: u16
    by (simp add: numeral_2_eq_2)
  have b: "?b = ?h @ message_part q @ sequence_part q @ order_part q @ split_part q
                 @ content q @ rest"
    by (simp add: packet_write_parts)
  have len: "\<not> length ?b < 3" by (simp add: b)
  have n: "unat (drop_bit 3 (from_be [?b ! 1, ?b ! 2] :: u16)) = length (content q)"
  proof -
    have "[?b ! 1, ?b ! 2] = to_be 2 (length_field q)" by (simp add: b two)
    then have "(from_be [?b ! 1, ?b ! 2] :: u16) = length_field q" by (simp only: from_be_to_be_full) simp
    with wf show ?thesis by (simp add: length_field_read packet_wf_def)
  qed
  have h0: "?b ! 0 = header_byte q" by (simp add: b)
  define p1 where "p1 = p\<lparr>split_flag := split_flag q, reliability := reliability q\<rparr>"
  have p1: "(p\<lparr>split_flag := ?b ! 0 AND SPLIT_FLAG \<noteq> 0\<rparr>)
              \<lparr>reliability := drop_bit 5 (?b ! 0 AND 224)\<rparr> = p1"
  proof -
    have "(header_byte q AND SPLIT_FLAG \<noteq> 0) = split_flag q" by (rule header_byte_split)
    moreover have "drop_bit 5 (header_byte q AND 224) = reliability q"
      using wf header_byte_reliability by (simp only: packet_wf_def)
    ultimately show ?thesis unfolding p1_def h0 by (simp only:)
  qed
  define p2 where "p2 = (if is_reliable q then p1\<lparr>message_index := message_index q\<rparr> else p1)"
  define p3 where "p3 = (if is_sequenced q then p2\<lparr>sequence_index := sequence_index q\<rparr> else p2)"
  define p4 where "p4 = (if is_sequenced_or_ordered q then p3\<lparr>order_index := order_index q\<rparr> else p3)"
  define p5 where "p5 = (if split_flag q
     then p4\<lparr>split_count := split_count q, split_id := split_id q, split_index := split_index q\<rparr>
     else p4)"
  have kinds: "is_reliable p1 = is_reliable q" "is_sequenced p2 = is_sequenced q"
    "is_sequenced_or_ordered p3 = is_sequenced_or_ordered q" "split_flag p4 = split_flag q"
    by (simp_all add: p1_def p2_def p3_def p4_def is_reliable_def is_sequenced_def
        is_sequenced_or_ordered_def)
  have oks: "u24_ok (message_index q)" "u24_ok (sequence_index q)" "u24_ok (order_index q)"
    using wf by (simp_all add: packet_wf_def)
  let ?k2 = "3 + length (message_part q)"
  let ?k3 = "?k2 + length (sequence_part q)"
  let ?k4 = "?k3 + length (order_part q)"
  let ?k5 = "?k4 + length (split_part q)"
  have s1: "read_message_index ?b p1 3 = (p2, Ok ?k2)"
    using read_message_index_part [OF kinds(1) oks(1), of ?h] by (simp add: b p2_def)
  have s2: "read_sequence_index ?b p2 ?k2 = (p3, Ok ?k3)"
    using read_sequence_index_part [OF kinds(2) oks(2), of "?h @ message_part q"]
    by (simp add: b p3_def numeral_3_eq_3)
  have s3: "read_order_index ?b p3 ?k3 = (p4, Ok ?k4)"
    using read_order_index_part [OF kinds(3) oks(3), of "?h @ message_part q @ sequence_part q"]
    by (simp add: b p4_def add.assoc numeral_3_eq_3)
  have s4: "read_split ?b p4 ?k4 = (p5, Ok ?k5)"
    using read_split_part [OF kinds(4), of "?h @ message_part q @ sequence_part q @ order_part q"]
    by (simp add: b p5_def add.assoc numeral_3_eq_3)
  have s5: "read_content ?b (length (content q)) p5 ?k5
      = (p5\<lparr>content := content q\<rparr>, Ok (?k5 + length (content q)))"
    using read_content_part
      [of "?h @ message_part q @ sequence_part q @ order_part q @ split_part q" q rest p5]
    by (simp add: b add.assoc numeral_3_eq_3)
  have final: "p5\<lparr>content := content q\<rparr> = packet_decoded p q"
    by (simp add: p1_def p2_def p3_def p4_def p5_def packet_decoded_def)
  have "length (content q) \<noteq> 0" using wf by (simp add: packet_wf_def)
  then show ?thesis
    unfolding packet_read_def Let_def n p1 using len
    by (simp only: if_False s1 s2 s3 s4 s5 and_then_st_simps final length_packet_write)
qed

text \<open>Whatever the bytes: no panic, and what is consumed is at least one byte and in range.\<close>

lemma read_message_index_result:
  "offset \<le> length b \<Longrightarrow> \<exists>pk'. split_flag pk' = split_flag pk \<and>
     (read_message_index b pk offset = (pk', Err UnexpectedEof)
      \<or> (\<exists>k. read_message_index b pk offset = (pk', Ok k) \<and> offset \<le> k \<and> k \<le> length b))"
  using load_uint24_no_panic [of "drop offset b"]
  by (cases "length b - offset < 3") (auto simp: read_message_index_def)

lemma read_sequence_index_result:
  "offset \<le> length b \<Longrightarrow> \<exists>pk'. split_flag pk' = split_flag pk \<and>
     (read_sequence_index b pk offset = (pk', Err UnexpectedEof)
      \<or> (\<exists>k. read_sequence_index b pk offset = (pk', Ok k) \<and> offset \<le> k \<and> k \<le> length b))"
  using load_uint24_no_panic [of "drop offset b"]
  by (cases "length b - offset < 3") (auto simp: read_sequence_index_def)

lemma read_order_index_result:
  "offset \<le> length b \<Longrightarrow> \<exists>pk'. split_flag pk' = split_flag pk \<and>
     (read_order_index b pk offset = (pk', Err UnexpectedEof)
      \<or> (\<exists>k. read_order_index b pk offset = (pk', Ok k) \<and> offset \<le> k \<and> k \<le> length b))"
  using load_uint24_no_panic [of "drop offset b"]
  by (cases "length b - offset < 4") (auto simp: read_order_index_def)

lemma read_split_result:
  "offset \<le> length b \<Longrightarrow> \<exists>pk'. split_flag pk' = split_flag pk \<and>
     (read_split b pk offset = (pk', Err UnexpectedEof)
      \<or> (\<exists>k. read_split b pk offset = (pk', Ok k) \<and> offset \<le> k \<and> k \<le> length b))"
  by (cases "length b - offset < 10") (auto simp: read_split_def)

lemma read_content_result:
  "offset \<le> length b \<Longrightarrow>
     read_content b n pk offset = (pk, Err UnexpectedEof)
     \<or> (\<exists>c. read_content b n pk offset = (pk\<lparr>content := c\<rparr>, Ok (offset + n))
           \<and> length c = n \<and> offset + n \<le> length b)"
  by (cases "length b - offset < n") (auto simp: read_content_def)

definition read_fine :: "bytes \<Rightarrow> Packet \<times> nat outcome \<Rightarrow> bool" where
  "read_fine b r \<longleftrightarrow>
     (case snd r of
        Ok k \<Rightarrow> 4 \<le> k \<and> k \<le> length b \<and> content (fst r) \<noteq> [] \<and> length (content (fst r)) < 8192
      | Err e \<Rightarrow> e \<in> {UnexpectedEof, InvalidPacketLength ''cannot be 0''}
      | Panic \<Rightarrow> False)"

lemma read_fine_EOF [simp]: "read_fine b (pk, Err UnexpectedEof)"
  by (simp add: read_fine_def)

lemma unat_shifted_length: "unat (drop_bit 3 (w :: u16)) < 8192"
proof -
  have "unat w < 2 ^ 16" using unsigned_less [of w] by simp
  then have "unat w div 8 < 8192" by (simp add: less_mult_imp_div_less)
  then show ?thesis by (simp add: drop_bit_eq_div unat_div_distrib)
qed

lemma packet_read_fine: "read_fine b (packet_read p b)"
proof -
  let ?n = "unat (drop_bit 3 (from_be [b ! 1, b ! 2] :: u16))"
  have content: "read_fine b (read_content b ?n pk k)" if "3 \<le> k" "k \<le> length b" "?n \<noteq> 0" for pk k
    using that read_content_result [of k b ?n pk] unat_shifted_length [of "from_be [b ! 1, b ! 2]"]
    by (auto simp: read_fine_def)
  have split: "read_fine b (and_then_st (read_split b pk k) (read_content b ?n))"
    if "3 \<le> k" "k \<le> length b" "?n \<noteq> 0" for pk k
    using that read_split_result [of k b pk] content by force
  have order: "read_fine b (and_then_st (read_order_index b pk k) (\<lambda>pk k.
      and_then_st (read_split b pk k) (read_content b ?n)))"
    if "3 \<le> k" "k \<le> length b" "?n \<noteq> 0" for pk k
    using that read_order_index_result [of k b pk] split by force
  have sequence: "read_fine b (and_then_st (read_sequence_index b pk k) (\<lambda>pk k.
      and_then_st (read_order_index b pk k) (\<lambda>pk k.
      and_then_st (read_split b pk k) (read_content b ?n))))"
    if "3 \<le> k" "k \<le> length b" "?n \<noteq> 0" for pk k
    using that read_sequence_index_result [of k b pk] order by force
  have message: "read_fine b (and_then_st (read_message_index b pk k) (\<lambda>pk k.
      and_then_st (read_sequence_index b pk k) (\<lambda>pk k.
      and_then_st (read_order_index b pk k) (\<lambda>pk k.
      and_then_st (read_split b pk k) (read_content b ?n)))))"
    if "3 \<le> k" "k \<le> length b" "?n \<noteq> 0" for pk k
    using that read_message_index_result [of k b pk] sequence by force
  show ?thesis
  proof (cases "length b < 3")
    case True
    then show ?thesis by (simp add: packet_read_def)
  next
    case long: False
    show ?thesis
    proof (cases "?n = 0")
      case True
      with long show ?thesis by (simp only: packet_read_def Let_def) (simp add: read_fine_def)
    next
      case False
      from long have "3 \<le> length b" by simp
      note fine = message [OF order_refl this False]
      show ?thesis
        unfolding packet_read_def Let_def using long False fine by (simp only: if_False)
    qed
  qed
qed

text \<open>
  What a successful step leaves: its own field, and an offset advanced by the part of the wire
  layout it read. Nothing else of the packet changes.
\<close>

lemma read_message_index_Ok:
  assumes "read_message_index b pk k = (pk', Ok k')"
  shows "pk' = pk\<lparr>message_index := message_index pk'\<rparr>" and "k' = k + length (message_part pk')"
    and "if is_reliable pk then u24_ok (message_index pk') else message_index pk' = message_index pk"
  using assms load_uint24_ok
  by (auto simp: read_message_index_def message_part_def is_reliable_def split: if_splits outcome.splits)

lemma read_sequence_index_Ok:
  assumes "read_sequence_index b pk k = (pk', Ok k')"
  shows "pk' = pk\<lparr>sequence_index := sequence_index pk'\<rparr>" and "k' = k + length (sequence_part pk')"
    and "if is_sequenced pk then u24_ok (sequence_index pk') else sequence_index pk' = sequence_index pk"
  using assms load_uint24_ok
  by (auto simp: read_sequence_index_def sequence_part_def is_sequenced_def split: if_splits outcome.splits)

lemma read_order_index_Ok:
  assumes "read_order_index b pk k = (pk', Ok k')"
  shows "pk' = pk\<lparr>order_index := order_index pk'\<rparr>" and "k' = k + length (order_part pk')"
    and "if is_sequenced_or_ordered pk then u24_ok (order_index pk') else order_index pk' = order_index pk"
  using assms load_uint24_ok
  by (auto simp: read_order_index_def order_part_def is_sequenced_or_ordered_def split: if_splits outcome.splits)

lemma read_split_Ok:
  assumes "read_split b pk k = (pk', Ok k')"
  shows "pk' = pk\<lparr>split_count := split_count pk', split_id := split_id pk', split_index := split_index pk'\<rparr>"
    and "k' = k + length (split_part pk')"
  using assms by (auto simp: read_split_def split_part_def split: if_splits outcome.splits)

lemma read_content_Ok:
  assumes "read_content b n pk k = (pk', Ok k')" and "k \<le> length b"
  shows "pk' = pk\<lparr>content := content pk'\<rparr>" and "k' = k + n" and "length (content pk') = n"
    and "content pk' = drop k (take k' b)"
  using assms by (auto simp: read_content_def slice_def drop_take split: if_splits)

text \<open>An index is either carried by the header, and then has 24 bits, or that of the old packet.\<close>

definition indices_read :: "Packet \<Rightarrow> Packet \<Rightarrow> bool" where
  "indices_read old pk \<longleftrightarrow>
     (if is_reliable pk then u24_ok (message_index pk) else message_index pk = message_index old)
     \<and> (if is_sequenced pk then u24_ok (sequence_index pk) else sequence_index pk = sequence_index old)
     \<and> (if is_sequenced_or_ordered pk then u24_ok (order_index pk) else order_index pk = order_index old)"

lemma and_then_st_Ok:
  "and_then_st m f = (s', Ok a) \<longleftrightarrow> (\<exists>s x. m = (s, Ok x) \<and> f s x = (s', Ok a))"
  by (cases m; cases "snd m") (auto simp: and_then_st_def)

lemma packet_read_steps:
  assumes "packet_read p b = (pk, Ok n)"
  obtains q p1 k1 p2 k2 p3 k3 p4 k4 where
    "message_index q = message_index p" "sequence_index q = sequence_index p" "order_index q = order_index p"
    and "read_message_index b q 3 = (p1, Ok k1)" and "read_sequence_index b p1 k1 = (p2, Ok k2)"
    and "read_order_index b p2 k2 = (p3, Ok k3)" and "read_split b p3 k3 = (p4, Ok k4)"
    and "read_content b (length (content pk)) p4 k4 = (pk, Ok n)" and "k4 \<le> length b"
proof -
  let ?n = "unat (drop_bit 3 (from_be [b ! 1, b ! 2] :: u16))"
  define q where "q = p\<lparr>split_flag := b ! 0 AND SPLIT_FLAG \<noteq> 0, reliability := drop_bit 5 (b ! 0 AND 224)\<rparr>"
  have q: "message_index q = message_index p" "sequence_index q = sequence_index p" "order_index q = order_index p"
    by (simp_all add: q_def)
  have "3 \<le> length b" using assms by (auto simp: packet_read_def split: if_splits)
  obtain p1 k1 p2 k2 p3 k3 p4 k4 where
    r1: "read_message_index b q 3 = (p1, Ok k1)" and r2: "read_sequence_index b p1 k1 = (p2, Ok k2)"
    and r3: "read_order_index b p2 k2 = (p3, Ok k3)" and r4: "read_split b p3 k3 = (p4, Ok k4)"
    and r5: "read_content b ?n p4 k4 = (pk, Ok n)"
    using assms unfolding packet_read_def Let_def q_def
    by (simp only: and_then_st_Ok split: if_splits) (auto simp: and_then_st_Ok)
  have k1: "k1 \<le> length b" using read_message_index_result [OF \<open>3 \<le> length b\<close>, of q] r1 by auto
  have k2: "k2 \<le> length b" using read_sequence_index_result [OF k1, of p1] r2 by auto
  have k3: "k3 \<le> length b" using read_order_index_result [OF k2, of p2] r3 by auto
  have k4: "k4 \<le> length b" using read_split_result [OF k3, of p3] r4 by auto
  from that [OF q r1 r2 r3 r4 _ k4] r5 read_content_Ok(3) [OF r5 k4] show thesis by simp
qed

lemma packet_read_Ok:
  assumes "packet_read p b = (pk, Ok n)"
  shows "n = length (packet_write pk [])" and "content pk = drop (n - length (content pk)) (take n b)"
    and "indices_read p pk"
proof -
  obtain q p1 k1 p2 k2 p3 k3 p4 k4 where
    q: "message_index q = message_index p" "sequence_index q = sequence_index p" "order_index q = order_index p"
    and r1: "read_message_index b q 3 = (p1, Ok k1)" and r2: "read_sequence_index b p1 k1 = (p2, Ok k2)"
    and r3: "read_order_index b p2 k2 = (p3, Ok k3)" and r4: "read_split b p3 k3 = (p4, Ok k4)"
    and r5: "read_content b (length (content pk)) p4 k4 = (pk, Ok n)" and k4: "k4 \<le> length b"
    by (rule packet_read_steps [OF assms])
  note offset = read_message_index_Ok(2) [OF r1] read_sequence_index_Ok(2) [OF r2]
    read_order_index_Ok(2) [OF r3] read_split_Ok(2) [OF r4] read_content_Ok(2) [OF r5 k4]
  note index = read_message_index_Ok(3) [OF r1] read_sequence_index_Ok(3) [OF r2] read_order_index_Ok(3) [OF r3]
  show "content pk = drop (n - length (content pk)) (take n b)"
    using read_content_Ok(4) [OF r5 k4] offset(5) by simp
  obtain m1 m2 m3 c s i c' where
    p1: "p1 = q\<lparr>message_index := m1\<rparr>" and p2: "p2 = p1\<lparr>sequence_index := m2\<rparr>"
    and p3: "p3 = p2\<lparr>order_index := m3\<rparr>" and p4: "p4 = p3\<lparr>split_count := c, split_id := s, split_index := i\<rparr>"
    and pk: "pk = p4\<lparr>content := c'\<rparr>"
    using read_message_index_Ok(1) [OF r1] read_sequence_index_Ok(1) [OF r2]
      read_order_index_Ok(1) [OF r3] read_split_Ok(1) [OF r4] read_content_Ok(1) [OF r5 k4] by blast
  have kinds: "is_reliable r = is_reliable q \<and> is_sequenced r = is_sequenced q
      \<and> is_sequenced_or_ordered r = is_sequenced_or_ordered q" if "reliability r = reliability q" for r
    using that by (simp add: is_reliable_def is_sequenced_def is_sequenced_or_ordered_def)
  have rel: "reliability p1 = reliability q" "reliability p2 = reliability q" "reliability p3 = reliability q"
    "reliability pk = reliability q"
    by (simp_all add: p1 p2 p3 p4 pk)
  note kinds = kinds [OF rel(1)] kinds [OF rel(2)] kinds [OF rel(3)] kinds [OF rel(4)]
  show "n = length (packet_write pk [])"
    using offset kinds
    by (simp add: length_packet_write message_part_def sequence_part_def order_part_def split_part_def pk p4 p3)
  show "indices_read p pk"
    using index kinds q by (simp add: indices_read_def pk p4 p3 p2 p1 cong: if_cong)
qed

section \<open>Facts about splitting\<close>

lemma additional_sizes [simp]:
  "PACKET_ADDITIONAL_SIZE = 14" "SPLIT_ADDITIONAL_SIZE = 10"
  by (simp_all add: PACKET_ADDITIONAL_SIZE_def SPLIT_ADDITIONAL_SIZE_def)

lemma unat_mtu_minus:
  "unat (k :: u16) \<le> unat mtu \<Longrightarrow> unat (mtu - k) = unat mtu - unat k"
  by (simp add: unat_sub word_le_nat_alt)

text \<open>The largest fragment of a message of \<open>n\<close> bytes.\<close>

definition fragment_limit :: "nat \<Rightarrow> nat \<Rightarrow> nat" where
  "fragment_limit n mtu = (if mtu - 14 < n then mtu - 24 else mtu - 14)"

lemma split_max_size_ok:
  assumes "24 < unat mtu"
  shows "split_max_size prof n mtu = Ok (fragment_limit n (unat mtu))"
proof -
  have m: "unat (mtu - 14) = unat mtu - 14" using assms unat_mtu_minus [of 14 mtu] by simp
  have m': "unat (mtu - 14 - 10) = unat mtu - 24"
    using assms m unat_mtu_minus [of 10 "mtu - 14"] by simp
  have le: "14 \<le> mtu" "10 \<le> mtu - 14" using assms m by (simp_all add: word_le_nat_alt)
  show ?thesis
    using m m' le
    by (simp only: split_max_size_def additional_sizes sub_ovf_le and_then.simps fragment_limit_def)
      simp
qed

lemma div_ceil_bounds:
  assumes "0 < m" and "0 < n"
  shows "0 < div_ceil n m" and "(div_ceil n m - 1) * m < n" and "n \<le> div_ceil n m * m"
proof -
  define q r where "q = n div m" and "r = n mod m"
  have n: "n = q * m + r" and r: "r < m" using assms by (simp_all add: q_def r_def)
  have d: "div_ceil n m = (if r = 0 then q else q + 1)" by (simp add: div_ceil_def q_def r_def)
  have q: "r = 0 \<Longrightarrow> 0 < q" using n assms(2) by (cases q) auto
  then show "0 < div_ceil n m" by (simp add: d)
  show "(div_ceil n m - 1) * m < n"
  proof (cases "r = 0")
    case True
    with q obtain p where "q = Suc p" by (cases q) auto
    with True n assms(1) show ?thesis unfolding d by simp
  next
    case False
    with n show ?thesis unfolding d by simp
  qed
  show "n \<le> div_ceil n m * m"
    unfolding d using n r by simp
qed

lemma split_loop_ok:
  "k * m \<le> length b \<Longrightarrow>
   split_loop k m b fs =
     Ok (fs @ map (\<lambda>i. take m (drop (i * m) b)) [0..<k], drop (k * m) b)"
proof (induction k arbitrary: b fs)
  case 0
  show ?case by simp
next
  case (Suc k)
  have "k * m \<le> length (drop m b)" using Suc.prems by simp
  moreover have "map (\<lambda>i. take m (drop (i * m) b)) [0..<Suc k]
      = take m b # map (\<lambda>i. take m (drop (i * m) (drop m b))) [0..<k]"
    by (simp add: upt_conv_Cons map_Suc_upt [symmetric] comp_def add.commute del: upt_Suc map_Suc_upt)
  ultimately show ?case
    using Suc.prems by (simp add: Suc.IH add.commute del: upt_Suc)
qed

lemma split_loop_empty: "0 < m \<Longrightarrow> 0 < k \<Longrightarrow> split_loop k m [] fs = Panic"
  by (cases k) simp_all

lemma concat_chunks:
  "k * m \<le> length b \<Longrightarrow>
   concat (map (\<lambda>i. take m (drop (i * m) b)) [0..<k]) = take (k * m) b"
proof (induction k)
  case 0
  show ?case by simp
next
  case (Suc k)
  then show ?case by (simp add: take_add [symmetric] add.commute)
qed

text \<open>The value of \<open>split\<close> on a non-empty message, in closed form.\<close>

definition fragments_of :: "bytes \<Rightarrow> nat \<Rightarrow> bytes list" where
  "fragments_of b m =
     map (\<lambda>i. take m (drop (i * m) b)) [0..<div_ceil (length b) m - 1]
       @ [drop ((div_ceil (length b) m - 1) * m) b]"

lemma split_eq_fragments_of:
  assumes mtu: "24 < unat mtu" and b: "b \<noteq> []" and len: "length b < 2 ^ 64"
  shows "split prof b mtu = Ok (fragments_of b (fragment_limit (length b) (unat mtu)))"
proof -
  let ?m = "fragment_limit (length b) (unat mtu)"
  let ?k = "div_ceil (length b) ?m"
  have m: "0 < ?m" using mtu by (auto simp: fragment_limit_def)
  have k: "0 < ?k" "(?k - 1) * ?m < length b"
    using div_ceil_bounds [OF m, of "length b"] b by simp_all
  have "?k - 1 \<le> (?k - 1) * ?m" using m by simp
  with k len have small: "?k < 2 ^ 64 + 1" by linarith
  have "?k \<noteq> 2 ^ 64" 
  proof
    assume "?k = 2 ^ 64"
    with \<open>?k - 1 \<le> (?k - 1) * ?m\<close> k len m show False
      by (cases "?m = 1") (auto simp: div_ceil_def)
  qed
  with small have k64: "?k < 2 ^ 64" by linarith
  then have uk: "unat (of_nat ?k :: u64) = ?k"
    by (simp add: unsigned_of_nat take_bit_nat_eq_self)
  then have one: "(1 :: u64) \<le> of_nat ?k" using k by (simp add: word_le_nat_alt)
  then have it: "unat ((of_nat ?k :: u64) - 1) = ?k - 1"
    using uk by (simp add: unat_sub)
  have loop: "split_loop (?k - 1) ?m b [] =
      Ok (map (\<lambda>i. take ?m (drop (i * ?m) b)) [0..<?k - 1], drop ((?k - 1) * ?m) b)"
    using split_loop_ok [of "?k - 1" ?m b "[]"] k by simp
  show ?thesis
    using m by (simp add: split_def split_max_size_ok [OF mtu] Let_def sub_ovf_le [OF one] it
        fragments_of_def del: sub_ovf_le) (simp add: loop [simplified])
qed

lemma fragments_of_facts:
  assumes "0 < m" and "b \<noteq> []"
  shows "concat (fragments_of b m) = b"
    and "length (fragments_of b m) = div_ceil (length b) m"
    and "f \<in> set (fragments_of b m) \<Longrightarrow> f \<noteq> [] \<and> length f \<le> m"
proof -
  let ?k = "div_ceil (length b) m"
  have k: "0 < ?k" "(?k - 1) * m < length b" "length b \<le> ?k * m"
    using div_ceil_bounds [OF assms(1), of "length b"] assms(2) by simp_all
  show "concat (fragments_of b m) = b"
    using k concat_chunks [of "?k - 1" m b] by (simp add: fragments_of_def)
  show "length (fragments_of b m) = ?k" using k by (simp add: fragments_of_def)
  assume "f \<in> set (fragments_of b m)"
  then consider i where "i < ?k - 1" "f = take m (drop (i * m) b)" | "f = drop ((?k - 1) * m) b"
    by (auto simp: fragments_of_def)
  then show "f \<noteq> [] \<and> length f \<le> m"
  proof cases
    case 1
    then have "i * m \<le> (?k - 1) * m" by (intro mult_le_mono1) simp
    with k(2) have "i * m < length b" by linarith
    with 1 assms(1) show ?thesis by simp
  next
    case 2
    have "?k * m = (?k - 1) * m + m" using k(1) by (cases ?k) simp_all
    with 2 k show ?thesis by simp
  qed
qed

lemma length_parts_ordered:
  assumes "reliability pk = RELIABILITY_RELIABLE_ORDERED"
  shows "length (packet_write pk []) =
           (if split_flag pk then 20 else 10) + length (content pk)"
  using assms
  by (simp add: length_packet_write message_part_def sequence_part_def order_part_def
      split_part_def is_reliable_def is_sequenced_def is_sequenced_or_ordered_def reliability_defs)

lemma single_fragment_iff:
  assumes "24 < mtu" and "b \<noteq> []"
  shows "length (fragments_of b (fragment_limit (length b) mtu)) = 1 \<longleftrightarrow> length b \<le> mtu - 14"
proof -
  let ?m = "fragment_limit (length b) mtu"
  have m: "0 < ?m" using assms by (simp add: fragment_limit_def)
  note bounds = div_ceil_bounds [OF m, of "length b"] fragments_of_facts(2) [OF m assms(2)]
  show ?thesis
  proof (cases "length b \<le> mtu - 14")
    case True
    with assms m have "div_ceil (length b) ?m = 1"
      by (auto simp: fragment_limit_def div_ceil_def le_less div_eq_0_iff)
    with True bounds show ?thesis by simp
  next
    case False
    with assms have "div_ceil (length b) ?m \<noteq> 1"
      using bounds by (auto simp: fragment_limit_def)
    with False bounds show ?thesis by simp
  qed
qed

text \<open>All fragments but the last are full, and no other cut into pieces of that size has fewer.\<close>

lemma fragments_of_full:
  assumes "0 < m" and "b \<noteq> []" and "f \<in> set (butlast (fragments_of b m))"
  shows "length f = m"
proof -
  let ?k = "div_ceil (length b) m"
  obtain i where i: "i < ?k - 1" "f = take m (drop (i * m) b)"
    using assms(3) by (auto simp: fragments_of_def)
  then have "Suc i * m \<le> (?k - 1) * m" by (intro mult_le_mono1) simp
  also have "\<dots> < length b" using div_ceil_bounds(2) [OF assms(1), of "length b"] assms(2) by simp
  finally show ?thesis using i(2) by simp
qed

lemma fragments_of_fewest:
  assumes "0 < m" and "b \<noteq> []" and "concat gs = b" and "\<And>g. g \<in> set gs \<Longrightarrow> length g \<le> m"
  shows "length (fragments_of b m) \<le> length gs"
proof -
  let ?k = "div_ceil (length b) m"
  have "length (concat gs) \<le> length gs * m" using assms(4)
  proof (induction gs)
    case (Cons g gs)
    then show ?case by (simp add: add_mono)
  qed simp
  then have "length b \<le> length gs * m" by (simp only: assms(3))
  moreover have "(?k - 1) * m < length b"
    using div_ceil_bounds(2) [OF assms(1)] assms(2) by blast
  ultimately have "(?k - 1) * m < length gs * m" by linarith
  then have "?k - 1 < length gs" by (rule mult_less_cancel2 [THEN iffD1, THEN conjunct2])
  then show ?thesis using fragments_of_facts(2) [OF assms(1,2)] by simp
qed

text \<open>The datagram that carries a fragment: a header of four bytes and the encoded packet.\<close>

definition datagram_size :: "bytes list \<Rightarrow> bytes \<Rightarrow> nat" where
  "datagram_size fs f = 4 + length (packet_write (packet_new\<lparr>content := f, split_flag := length fs > 1\<rparr>) [])"

lemma datagram_size_eq: "datagram_size fs f = (if length fs > 1 then 24 else 14) + length f"
  by (simp add: datagram_size_def length_parts_ordered packet_new_def)

lemma split_fits:
  assumes "24 < mtu" and "b \<noteq> []"
  defines "fs \<equiv> fragments_of b (fragment_limit (length b) mtu)"
  shows "f \<in> set fs \<Longrightarrow> datagram_size fs f \<le> mtu" and "f \<in> set (butlast fs) \<Longrightarrow> datagram_size fs f = mtu"
proof -
  let ?m = "fragment_limit (length b) mtu"
  have m: "0 < ?m" using assms(1) by (simp add: fragment_limit_def)
  have single: "length fs = 1 \<longleftrightarrow> length b \<le> mtu - 14" unfolding fs_def by (rule single_fragment_iff [OF assms(1,2)])
  have "fs \<noteq> []" using fragments_of_facts(1) [OF m assms(2)] assms(2) by (auto simp: fs_def)
  have limit: "?m = mtu - 24" if "length fs > 1" using single that by (simp add: fragment_limit_def)
  have limit: "datagram_size fs g = (mtu - ?m) + length g" for g
    using single limit assms(1) \<open>fs \<noteq> []\<close>
    by (cases "length fs > 1") (auto simp: datagram_size_eq fragment_limit_def Suc_lessI)
  have "?m \<le> mtu" by (simp add: fragment_limit_def)
  show "datagram_size fs f \<le> mtu" if "f \<in> set fs"
    using fragments_of_facts(3) [OF m assms(2) that [unfolded fs_def]] \<open>?m \<le> mtu\<close> by (simp only: limit) linarith
  show "datagram_size fs f = mtu" if "f \<in> set (butlast fs)"
    using fragments_of_full [OF m assms(2) that [unfolded fs_def]] \<open>?m \<le> mtu\<close> by (simp only: limit)
qed

lemma split_fewest:
  assumes "24 < mtu" and "b \<noteq> []" and "concat gs = b" and "list_all (\<lambda>g. datagram_size gs g \<le> mtu) gs"
  shows "length (fragments_of b (fragment_limit (length b) mtu)) \<le> length gs"
proof (cases "length gs > 1")
  case False
  then obtain g where "gs = [g]" using assms(2,3) by (cases gs) auto
  then have "length b \<le> mtu - 14" using assms(1,3,4) by (simp add: datagram_size_eq)
  then show ?thesis using single_fragment_iff [OF assms(1,2)] \<open>gs = [g]\<close> by simp
next
  case True
  let ?m = "fragment_limit (length b) mtu"
  have "0 < ?m" using assms(1) by (simp add: fragment_limit_def)
  moreover have "length g \<le> ?m" if "g \<in> set gs" for g
    using assms(1,4) that True by (force simp: list_all_iff datagram_size_eq fragment_limit_def)
  ultimately show ?thesis using fragments_of_fewest assms(2,3) by blast
qed

section \<open>Properties\<close>

text \<open>
  C26. Round trip of the packet codec: reading an encoded packet, whatever follows it in the
  datagram and whatever packet the reader is called on, consumes exactly the encoding and
  leaves every field the header carries equal to the field written.
\<close>

theorem packet_roundtrip:
  assumes "packet_wf q"
  shows "packet_read p (packet_write q [] @ rest)
           = (packet_decoded p q, Ok (length (packet_write q [])))"
  by (rule packet_read_write) (rule assms)

theorem packet_roundtrip_witness:
  "packet_read packet_new (packet_write (packet_new\<lparr>content := [1, 2, 3], order_index := Uint24 7\<rparr>) [] @ [9])
     = (packet_decoded packet_new (packet_new\<lparr>content := [1, 2, 3], order_index := Uint24 7\<rparr>), Ok 13)"
  using packet_roundtrip [of "packet_new\<lparr>content := [1, 2, 3], order_index := Uint24 7\<rparr>" packet_new "[9]"]
    length_parts_ordered [of "packet_new\<lparr>content := [1, 2, 3], order_index := Uint24 7\<rparr>"]
  by (simp add: packet_wf_def packet_new_def reliability_defs u24_ok_def)

text \<open>
  C37. The packet reader is total on untrusted bytes: it never panics, and its only errors are a
  truncated packet and a zero length. A success consumes exactly as many bytes as the packet it
  leaves is encoded in, at least four and no more than there are, so the loop over a datagram makes
  progress; the content is the non-empty end of what was consumed, of fewer than 8192 bytes; and
  the indices the header carries have 24 bits, the others being those of the packet the reader was
  called on.
\<close>

theorem packet_read_total:
  "case packet_read p b of
     (pk, Ok n) \<Rightarrow> 4 \<le> n \<and> n \<le> length b \<and> n = length (packet_write pk [])
       \<and> content pk \<noteq> [] \<and> length (content pk) < 8192 \<and> content pk = drop (n - length (content pk)) (take n b)
       \<and> (if is_reliable pk then u24_ok (message_index pk) else message_index pk = message_index p)
       \<and> (if is_sequenced pk then u24_ok (sequence_index pk) else sequence_index pk = sequence_index p)
       \<and> (if is_sequenced_or_ordered pk then u24_ok (order_index pk) else order_index pk = order_index p)
   | (pk, Err e) \<Rightarrow> e = UnexpectedEof \<or> e = InvalidPacketLength ''cannot be 0''
   | (pk, Panic) \<Rightarrow> False"
proof (cases "packet_read p b")
  case (Pair pk r)
  then show ?thesis
    using packet_read_fine [of b p] packet_read_Ok [of p b pk]
    by (cases r) (simp_all add: read_fine_def indices_read_def)
qed

text \<open>
  C25. Splitting a non-empty message: the fragments concatenate to it, none is empty, there is
  one exactly when the message fits an unsplit packet, the datagram that carries a fragment
  (its four-byte header and the encoded packet) never exceeds the MTU given to \<open>split\<close> and has
  exactly that size for every fragment but the last, and no other way to cut the message into
  pieces whose datagrams fit takes fewer of them.
\<close>

theorem split_correct:
  assumes "24 < unat mtu" and "b \<noteq> []" and "length b < 2 ^ 64"
  shows "\<exists>fs. split prof b mtu = Ok fs \<and> concat fs = b \<and> [] \<notin> set fs
    \<and> (length fs = 1 \<longleftrightarrow> length b \<le> unat mtu - 14)
    \<and> list_all (\<lambda>f. datagram_size fs f \<le> unat mtu) fs
    \<and> list_all (\<lambda>f. datagram_size fs f = unat mtu) (butlast fs)
    \<and> (\<forall>gs. concat gs = b \<and> list_all (\<lambda>g. datagram_size gs g \<le> unat mtu) gs \<longrightarrow> length fs \<le> length gs)"
proof -
  let ?m = "fragment_limit (length b) (unat mtu)"
  have "0 < ?m" using assms(1) by (simp add: fragment_limit_def)
  note facts = fragments_of_facts [OF this assms(2)]
  have "[] \<notin> set (fragments_of b ?m)" using facts(3) by blast
  then show ?thesis
    using split_eq_fragments_of [OF assms] facts(1) single_fragment_iff [OF assms(1,2)]
      split_fits [OF assms(1,2)] split_fewest [OF assms(1,2)]
    by (intro exI [of _ "fragments_of b ?m"]) (simp add: list_all_iff)
qed

theorem split_correct_witness:
  "\<exists>fs. split Debug (replicate 1000 7) 400 = Ok fs \<and> concat fs = replicate 1000 7 \<and> length fs \<le> 3
     \<and> length fs \<noteq> 1"
proof -
  let ?b = "replicate 1000 (7 :: u8)"
  obtain fs where fs: "split Debug ?b 400 = Ok fs" "concat fs = ?b" "length fs = 1 \<longleftrightarrow> length ?b \<le> 386"
    and fewest: "\<And>gs. concat gs = ?b \<Longrightarrow> list_all (\<lambda>g. datagram_size gs g \<le> 400) gs \<Longrightarrow> length fs \<le> length gs"
    using split_correct [of 400 ?b Debug] by auto
  have "concat [replicate 350 7, replicate 350 7, replicate 300 7] = ?b"
    by (simp flip: replicate_add)
  from fewest [OF this] fs show ?thesis by (simp add: datagram_size_eq)
qed

text \<open>
  Splitting an empty message panics in both profiles: \<open>fragment_count - 1\<close> underflows,
  which panics under overflow checks and otherwise starts \<open>2 ^ 64 - 1\<close> iterations, the first of
  which slices past the end.
\<close>

theorem split_empty_panics:
  assumes "24 < unat mtu"
  shows "split prof [] mtu = Panic"
proof -
  have m: "0 < fragment_limit 0 (unat mtu)" using assms by (simp add: fragment_limit_def)
  have "0 < unat (- 1 :: u64)" by (simp add: unsigned_minus_1_eq_mask mask_eq_exp_minus_1)
  then show ?thesis
    using m by (cases prof)
      (simp_all add: split_loop_empty split_def split_max_size_ok [OF assms] Let_def div_ceil_def sub_ovf_def)
qed

theorem split_empty_panics_witness: "split Debug [] 400 = Panic \<and> split Release [] 1464 = Panic"
  using split_empty_panics [of 400 Debug] split_empty_panics [of 1464 Release] by simp

end
