(* ===== verification/Acknowledge.thy ===== *)
theory Acknowledge
  imports Packet "HOL-Library.Multiset"
begin

text \<open>
  Acknowledgement packets, \<open>src/acknowledge.rs\<close>: the writer, which sorts a copy of the sequence
  numbers and compresses runs into range records until the MTU is reached, and the reader. The
  struct has one field, so an \<open>Acknowledgement\<close> is its list of sequence numbers.
\<close>

unbundle bit_operations_syntax

definition PACKET_RANGE :: u8 where "PACKET_RANGE = 0"
definition PACKET_SINGLE :: u8 where "PACKET_SINGLE = 1"
definition MAX_ACKNOWLEDGEMENT_PACKETS :: nat where "MAX_ACKNOWLEDGEMENT_PACKETS = 8192"

section \<open>Writing\<close>

text \<open>One record; the second component is the incremented record count.\<close>

definition write_record ::
  "profile \<Rightarrow> bytes \<Rightarrow> Uint24 \<Rightarrow> Uint24 \<Rightarrow> u16 \<Rightarrow> (bytes \<times> u16) outcome" where
  "write_record prof buf first_pk last_pk cnt =
     (let buf = (if first_pk = last_pk
                 then buf @ [PACKET_SINGLE, ucast (u24 first_pk), ucast (drop_bit 8 (u24 first_pk)),
                             ucast (drop_bit 16 (u24 first_pk))]
                 else buf @ [PACKET_RANGE, ucast (u24 first_pk), ucast (drop_bit 8 (u24 first_pk)),
                             ucast (drop_bit 16 (u24 first_pk)), ucast (u24 last_pk),
                             ucast (drop_bit 8 (u24 last_pk)), ucast (drop_bit 16 (u24 last_pk))])
      in and_then (add_ovf prof cnt 1) (\<lambda>cnt. Ok (buf, cnt)))"

text \<open>
  The loop over the sequence numbers after the first. Its state is the buffer, the bounds of the
  run being collected, the record count and the number of packets taken; \<open>break\<close> returns it.
\<close>

fun write_loop ::
  "profile \<Rightarrow> nat \<Rightarrow> u16 \<Rightarrow> Uint24 list \<Rightarrow> bytes \<Rightarrow> Uint24 \<Rightarrow> Uint24 \<Rightarrow> u16 \<Rightarrow> nat
     \<Rightarrow> (bytes \<times> Uint24 \<times> Uint24 \<times> u16 \<times> nat) outcome" where
  "write_loop prof start_len mtu [] buf first_pk last_pk records n = Ok (buf, first_pk, last_pk, records, n)"
| "write_loop prof start_len mtu (pk # iter) buf first_pk last_pk records n =
     and_then (sub_ovf prof mtu 7) (\<lambda>limit.
       if length buf - start_len \<ge> unat limit then Ok (buf, first_pk, last_pk, records, n)
       else if u24 pk = u24 last_pk + 1
       then write_loop prof start_len mtu iter buf first_pk pk records (n + 1)
       else and_then (write_record prof buf first_pk last_pk records) (\<lambda>(buf, records).
              write_loop prof start_len mtu iter buf pk pk records (n + 1)))"

definition write_to_buf :: "profile \<Rightarrow> Uint24 list \<Rightarrow> bytes \<Rightarrow> u16 \<Rightarrow> (bytes \<times> nat) outcome" where
  "write_to_buf prof ack buf mtu =
     (let start_len = length buf in
      case sort ack of
        [] \<Rightarrow> Ok (buf @ [0, 0], 0)
      | first_pk # iter \<Rightarrow>
          let record_count_pos = length buf;
              buf = buf @ [0, 0]
          in and_then (write_loop prof start_len mtu iter buf first_pk first_pk 0 1)
               (\<lambda>(buf, first_pk, last_pk, records, n).
             and_then (write_record prof buf first_pk last_pk records) (\<lambda>(buf, records).
               Ok (buf[record_count_pos := ucast (drop_bit 8 records),
                       record_count_pos + 1 := ucast records], n))))"

definition write_to_vec :: "profile \<Rightarrow> Uint24 list \<Rightarrow> u16 \<Rightarrow> (bytes \<times> nat) outcome" where
  "write_to_vec prof ack mtu = write_to_buf prof ack [] mtu"

section \<open>Reading\<close>

text \<open>\<open>for pk in start..=end\<close>, each number wrapped by \<open>Uint24::new\<close>.\<close>

definition inclusive_range :: "Uint24 \<Rightarrow> Uint24 \<Rightarrow> Uint24 list" where
  "inclusive_range start end' =
     map (\<lambda>i. u24_new (of_nat i)) [unat (u24 start) ..< Suc (unat (u24 end'))]"

text \<open>
  The loop over the records: the packets pushed so far are the struct's state, which keeps
  them when a later record is in error. The size test adds \<open>len as u32\<close> and \<open>end\<close> and subtracts
  \<open>start\<close> in 32 bits, so a record with \<open>end < start\<close> underflows according to the profile.
\<close>

fun ack_read_loop ::
  "profile \<Rightarrow> nat \<Rightarrow> bytes \<Rightarrow> nat \<Rightarrow> Uint24 list \<Rightarrow> Uint24 list \<times> unit outcome" where
  "ack_read_loop prof 0 b offset packets = (packets, Ok ())"
| "ack_read_loop prof (Suc k) b offset packets =
     (if length b - offset < 4 then (packets, Err UnexpectedEof)
      else case idx b offset of
        Panic \<Rightarrow> (packets, Panic)
      | Err e \<Rightarrow> (packets, Err e)
      | Ok kind \<Rightarrow>
          if kind = PACKET_RANGE then
            if length b - offset < 7 then (packets, Err UnexpectedEof)
            else case (load_uint24 (drop (offset + 1) b), load_uint24 (drop (offset + 4) b)) of
              (Ok start, Ok end') \<Rightarrow>
                (case and_then (add_ovf prof (of_nat (length packets)) (u24 end'))
                        (\<lambda>sum. sub_ovf prof sum (u24 start)) of
                   Ok tot \<Rightarrow>
                     if tot > of_nat MAX_ACKNOWLEDGEMENT_PACKETS
                     then (packets, Err MaxAcknowledgement)
                     else ack_read_loop prof k b (offset + 7)
                            (packets @ inclusive_range start end')
                 | Err e \<Rightarrow> (packets, Err e)
                 | Panic \<Rightarrow> (packets, Panic))
            | _ \<Rightarrow> (packets, Panic)
          else if kind = PACKET_SINGLE then
            if length packets + 1 > MAX_ACKNOWLEDGEMENT_PACKETS
            then (packets, Err MaxAcknowledgement)
            else (case load_uint24 (drop (offset + 1) b) of
                    Ok v \<Rightarrow> ack_read_loop prof k b (offset + 4) (packets @ [v])
                  | Err e \<Rightarrow> (packets, Err e) | Panic \<Rightarrow> (packets, Panic))
          else ack_read_loop prof k b (offset + 4) packets)"

definition ack_read :: "profile \<Rightarrow> Uint24 list \<Rightarrow> bytes \<Rightarrow> Uint24 list \<times> unit outcome" where
  "ack_read prof packets b =
     (if length b < 2 then (packets, Err UnexpectedEof)
      else ack_read_loop prof (unat (from_be [b ! 0, b ! 1] :: u16)) b 2 packets)"

section \<open>The records\<close>

text \<open>A record is a run of sequence numbers; \<open>enc_record\<close> is its encoding.\<close>

definition enc_record :: "Uint24 \<times> Uint24 \<Rightarrow> bytes" where
  "enc_record r =
     (if fst r = snd r then PACKET_SINGLE # write_uint24 [] (fst r)
      else PACKET_RANGE # write_uint24 [] (fst r) @ write_uint24 [] (snd r))"

definition run_ok :: "Uint24 \<times> Uint24 \<Rightarrow> bool" where
  "run_ok r \<longleftrightarrow> u24_ok (fst r) \<and> u24_ok (snd r) \<and> fst r \<le> snd r"

definition run_list :: "Uint24 \<times> Uint24 \<Rightarrow> Uint24 list" where
  "run_list r = inclusive_range (fst r) (snd r)"

lemma write_record_eq:
  "write_record prof buf first_pk last_pk cnt =
     and_then (add_ovf prof cnt 1) (\<lambda>c. Ok (buf @ enc_record (first_pk, last_pk), c))"
  by (simp add: write_record_def enc_record_def write_uint24_def Let_def)

lemma enc_record_single: "fst r = snd r \<Longrightarrow> enc_record r = PACKET_SINGLE # write_uint24 [] (fst r)"
  by (simp add: enc_record_def)

lemma enc_record_range:
  "fst r \<noteq> snd r \<Longrightarrow>
   enc_record r = PACKET_RANGE # write_uint24 [] (fst r) @ write_uint24 [] (snd r)"
  by (simp add: enc_record_def)

lemma length_enc_record: "4 \<le> length (enc_record r) \<and> length (enc_record r) \<le> 7"
  by (simp add: enc_record_def)

lemma run_list_single [simp]: "u24_ok v \<Longrightarrow> run_list (v, v) = [v]"
  by (simp add: run_list_def inclusive_range_def)

lemma run_list_snoc:
  assumes "u24_ok last_pk" and "u24_ok pk" and "first_pk \<le> last_pk" and "u24 pk = u24 last_pk + 1"
  shows "run_list (first_pk, pk) = run_list (first_pk, last_pk) @ [pk]"
proof -
  have "unat (u24 pk) = Suc (unat (u24 last_pk))"
    using assms unat_suc_u24 [of last_pk] by simp
  moreover have "u24_new (of_nat (Suc (unat (u24 last_pk)))) = pk"
    using assms(2) calculation by (intro u24_new_eqI) simp_all
  ultimately show ?thesis
    using assms(3) by (simp add: run_list_def inclusive_range_def u24_le_iff)
qed

lemma length_run_list:
  "run_ok r \<Longrightarrow> length (run_list r) = unat (u24 (snd r)) - unat (u24 (fst r)) + 1"
  by (simp add: run_list_def inclusive_range_def run_ok_def u24_le_iff)

section \<open>What the writer writes\<close>

abbreviation enc_records :: "(Uint24 \<times> Uint24) list \<Rightarrow> bytes" where
  "enc_records rs \<equiv> concat (map enc_record rs)"

abbreviation run_lists :: "(Uint24 \<times> Uint24) list \<Rightarrow> Uint24 list" where
  "run_lists rs \<equiv> concat (map run_list rs)"

lemma length_enc_records_ge: "4 * length rs \<le> length (enc_records rs)"
proof (induction rs)
  case (Cons r rs)
  then show ?case using length_enc_record [of r] by simp
qed simp

text \<open>
  The state of the loop: the buffer holds the count and the records written so far and is still
  below the MTU, so the count fits 16 bits.
\<close>

definition loop_ok :: "u16 \<Rightarrow> nat \<Rightarrow> bytes \<Rightarrow> u16 \<Rightarrow> bool" where
  "loop_ok mtu start_len buf records \<longleftrightarrow>
     start_len + 2 + 4 * unat records \<le> length buf \<and> length buf < start_len + unat mtu"

lemma loop_ok_write:
  assumes "loop_ok mtu start_len buf records" and "length buf - start_len < unat mtu - 7"
  shows "write_record prof buf f l records = Ok (buf @ enc_record (f, l), records + 1)"
    and "loop_ok mtu start_len (buf @ enc_record (f, l)) (records + 1)"
    and "unat (records + 1) = unat records + 1"
proof -
  have "unat mtu < 2 ^ 16" using unsigned_less [of mtu] by simp
  with assms(1) have r: "unat records + 1 < 2 ^ 16" by (simp add: loop_ok_def)
  then show "write_record prof buf f l records = Ok (buf @ enc_record (f, l), records + 1)"
    by (simp add: write_record_eq add_ovf_fits)
  show u: "unat (records + 1) = unat records + 1" using r by (simp add: unat_word_ariths)
  show "loop_ok mtu start_len (buf @ enc_record (f, l)) (records + 1)"
    using assms u length_enc_record [of "(f, l)"] by (auto simp: loop_ok_def)
qed

lemma write_loop_ok:
  assumes "7 \<le> mtu" and "run_ok (f, l)" and "list_all u24_ok iter"
    and "loop_ok mtu start_len buf records"
  shows "\<exists>rs f' l' j.
    write_loop prof start_len mtu iter buf f l records n
      = Ok (buf @ enc_records rs, f', l', records + of_nat (length rs), n + j)
    \<and> j \<le> length iter \<and> run_ok (f', l') \<and> list_all run_ok rs
    \<and> run_list (f, l) @ take j iter = run_lists rs @ run_list (f', l')
    \<and> loop_ok mtu start_len (buf @ enc_records rs) (records + of_nat (length rs))"
  using assms(2-)
proof (induction iter arbitrary: buf f l records n)
  case Nil
  then show ?case by (intro exI [of _ "[]"]) auto
next
  case (Cons pk iter)
  have mtu: "unat (mtu - 7) = unat mtu - 7"
    using assms(1) by (simp add: unat_sub)
  note sub = sub_ovf_le [OF assms(1)]
  show ?case
  proof (cases "length buf - start_len \<ge> unat (mtu - 7)")
    case True
    with Cons.prems show ?thesis by (intro exI [of _ "[]"]) (auto simp: sub intro: exI [of _ 0])
  next
    case room: False
    have pk: "u24_ok pk" and iter: "list_all u24_ok iter" using Cons.prems by simp_all
    show ?thesis
    proof (cases "u24 pk = u24 l + 1")
      case True
      have l: "u24_ok l" "f \<le> l" using Cons.prems by (simp_all add: run_ok_def)
      from True l pk have run: "run_list (f, pk) = run_list (f, l) @ [pk]"
        by (intro run_list_snoc)
      from True l Cons.prems pk have "run_ok (f, pk)"
        using unat_suc_u24 [of l] by (simp add: run_ok_def u24_le_iff)
      from Cons.IH [OF this iter Cons.prems(3), where n = "n + 1"] obtain rs f' l' j where
        *: "write_loop prof start_len mtu iter buf f pk records (n + 1)
              = Ok (buf @ enc_records rs, f', l', records + of_nat (length rs), n + 1 + j)"
          "j \<le> length iter" "run_ok (f', l')" "list_all run_ok rs"
          "run_list (f, pk) @ take j iter = run_lists rs @ run_list (f', l')"
          "loop_ok mtu start_len (buf @ enc_records rs) (records + of_nat (length rs))"
        by blast
      with run room True show ?thesis
        by (intro exI [of _ rs] exI [of _ f'] exI [of _ l'] exI [of _ "Suc j"]) (simp add: sub)
    next
      case False
      note w = loop_ok_write [OF Cons.prems(3)]
      have lt: "length buf - start_len < unat mtu - 7" using room mtu by simp
      have "run_ok (pk, pk)" using pk by (simp add: run_ok_def)
      from Cons.IH [OF this iter w(2) [OF lt], where n = "n + 1"] obtain rs f' l' j where
        *: "write_loop prof start_len mtu iter (buf @ enc_record (f, l)) pk pk (records + 1) (n + 1)
              = Ok ((buf @ enc_record (f, l)) @ enc_records rs, f', l',
                    records + 1 + of_nat (length rs), n + 1 + j)"
          "j \<le> length iter" "run_ok (f', l')" "list_all run_ok rs"
          "run_list (pk, pk) @ take j iter = run_lists rs @ run_list (f', l')"
          "loop_ok mtu start_len ((buf @ enc_record (f, l)) @ enc_records rs)
             (records + 1 + of_nat (length rs))"
        by blast
      with room False pk w(1) [OF lt] Cons.prems(1) show ?thesis
        by (intro exI [of _ "(f, l) # rs"] exI [of _ f'] exI [of _ l'] exI [of _ "Suc j"])
          (simp add: sub algebra_simps)
    qed
  qed
qed

text \<open>
  The writer as a whole: a record count, then records that expand to the first \<open>n\<close> of the
  sorted sequence numbers. At least one number is taken, and the overshoot past the MTU is
  bounded.
\<close>

lemma write_to_buf_ok:
  assumes mtu: "7 \<le> mtu" and ok: "list_all u24_ok ack" and ne: "ack \<noteq> []"
  shows "\<exists>rs n.
    write_to_buf prof ack buf mtu = Ok (buf @ to_be 2 (of_nat (length rs) :: u16) @ enc_records rs, n)
    \<and> list_all run_ok rs \<and> run_lists rs = take n (sort ack) \<and> 1 \<le> n \<and> n \<le> length ack
    \<and> length rs < 2 ^ 16 \<and> length (enc_records rs) < unat mtu + 5"
proof -
  obtain f iter where sorted: "sort ack = f # iter"
    using ne by (metis length_sort list.exhaust length_0_conv)
  have all: "u24_ok f" "list_all u24_ok iter"
    using ok sorted by (metis list_all_iff list.set_intros(1) set_sort, metis list_all_iff list.set_intros(2) set_sort)
  have len: "length ack = Suc (length iter)" using sorted by (metis length_Cons length_sort)
  have "7 \<le> unat mtu" using mtu by (simp add: word_le_nat_alt)
  then have start: "loop_ok mtu (length buf) (buf @ [0, 0]) 0" by (simp add: loop_ok_def)
  have run: "run_ok (f, f)" using all by (simp add: run_ok_def)
  obtain rs f' l' j where
    loop: "write_loop prof (length buf) mtu iter (buf @ [0, 0]) f f 0 1
       = Ok ((buf @ [0, 0]) @ enc_records rs, f', l', of_nat (length rs), 1 + j)"
    and j: "j \<le> length iter" and runs: "run_ok (f', l')" "list_all run_ok rs"
    and lists: "run_list (f, f) @ take j iter = run_lists rs @ run_list (f', l')"
    and lok: "loop_ok mtu (length buf) ((buf @ [0, 0]) @ enc_records rs) (of_nat (length rs))"
    using write_loop_ok [OF mtu run all(2) start, of prof 1] by auto
  have small: "length (enc_records rs) + 2 < unat mtu" using lok by (simp add: loop_ok_def)
  have "unat mtu < 2 ^ 16" using unsigned_less [of mtu] by simp
  with small length_enc_records_ge [of rs] have cnt: "length rs + 1 < 2 ^ 16" by simp
  let ?rs = "rs @ [(f', l')]"
  have rec: "write_record prof ((buf @ [0, 0]) @ enc_records rs) f' l' (of_nat (length rs))
      = Ok ((buf @ [0, 0]) @ enc_records ?rs, of_nat (length ?rs))"
    using cnt by (simp add: write_record_eq add_ovf_fits unsigned_of_nat take_bit_nat_eq_self)
  have "write_to_buf prof ack buf mtu = Ok (buf @ to_be 2 (of_nat (length ?rs) :: u16) @ enc_records ?rs, 1 + j)"
    unfolding write_to_buf_def Let_def sorted
    by (simp only: list.case loop and_then.simps prod.case rec)
      (simp add: numeral_2_eq_2 list_update_append)
  moreover have "run_lists ?rs = take (1 + j) (sort ack)"
    using lists all by (simp add: sorted)
  moreover have "length (enc_records ?rs) < unat mtu + 5"
    using small length_enc_record [of "(f', l')"] by simp
  ultimately show ?thesis
    using runs j len cnt by (intro exI [of _ ?rs] exI [of _ "1 + j"]) simp
qed

section \<open>What the reader reads\<close>

lemma size_test_value:
  assumes "run_ok r" and "k \<le> 8193"
  shows "\<exists>tot. and_then (add_ovf prof (of_nat k) (u24 (snd r))) (\<lambda>sum. sub_ovf prof sum (u24 (fst r)))
                = Ok tot \<and> Suc (unat tot) = k + length (run_list r)"
proof -
  have e: "unat (u24 (snd r)) < 2 ^ 24" and le: "unat (u24 (fst r)) \<le> unat (u24 (snd r))"
    using assms(1) by (simp_all add: run_ok_def u24_ok_iff_unat u24_le_iff)
  have k: "unat (of_nat k :: u32) = k"
    using assms(2) by (simp add: unsigned_of_nat take_bit_nat_eq_self)
  have sum: "unat (of_nat k + u24 (snd r)) = k + unat (u24 (snd r))"
    using e k assms(2) by (simp add: unat_word_ariths)
  have no_add: "add_ovf prof (of_nat k) (u24 (snd r)) = Ok (of_nat k + u24 (snd r))"
    using e k assms(2) by (intro add_ovf_fits) simp
  have no_sub: "u24 (fst r) \<le> of_nat k + u24 (snd r)"
    using sum le by (simp add: word_le_nat_alt)
  have "unat (of_nat k + u24 (snd r) - u24 (fst r)) = k + unat (u24 (snd r)) - unat (u24 (fst r))"
    using sum le by (simp add: unat_sub [OF no_sub])
  then show ?thesis
    using length_run_list [OF assms(1)] le by (simp add: no_add sub_ovf_le [OF no_sub])
qed

lemma size_test_ok:
  assumes "run_ok r" and "k + length (run_list r) \<le> 8192"
  shows "\<exists>tot. and_then (add_ovf prof (of_nat k) (u24 (snd r))) (\<lambda>sum. sub_ovf prof sum (u24 (fst r)))
                = Ok tot \<and> \<not> of_nat MAX_ACKNOWLEDGEMENT_PACKETS < tot"
  using size_test_value [OF assms(1), of k prof] assms(2)
  by (auto simp: MAX_ACKNOWLEDGEMENT_PACKETS_def word_less_nat_alt)

lemma ack_read_loop_records:
  assumes "list_all run_ok rs" and "length acc + length (run_lists rs) \<le> 8192"
  shows "ack_read_loop prof (length rs) (pre @ enc_records rs @ post) (length pre) acc
           = (acc @ run_lists rs, Ok ())"
  using assms
proof (induction rs arbitrary: pre acc)
  case Nil
  then show ?case by simp
next
  case (Cons r rs)
  have r: "run_ok r" "u24_ok (fst r)" "u24_ok (snd r)"
    using Cons.prems by (simp_all add: run_ok_def)
  have rest: "ack_read_loop prof (length rs) ((pre @ enc_record r) @ enc_records rs @ post)
      (length (pre @ enc_record r)) (acc @ run_list r)
      = ((acc @ run_list r) @ run_lists rs, Ok ())"
    using Cons.prems by (intro Cons.IH) simp_all
  show ?case
  proof (cases "fst r = snd r")
    case True
    then have list: "run_list r = [fst r]" using r run_list_single [of "fst r"] by (cases r) simp
    with Cons.prems have "length acc + 1 \<le> 8192" by simp
    with True list r rest show ?thesis
      by (simp add: enc_record_single [OF True] PACKET_RANGE_def PACKET_SINGLE_def MAX_ACKNOWLEDGEMENT_PACKETS_def)
  next
    case False
    have "length acc + length (run_list r) \<le> 8192" using Cons.prems(2) by simp
    moreover have "run_list r = inclusive_range (fst r) (snd r)" by (simp add: run_list_def)
    ultimately show ?thesis using size_test_ok [OF r(1), of "length acc" prof] False r rest
      by (auto simp: enc_record_range [OF False] PACKET_RANGE_def)
  qed
qed

text \<open>The record count in front.\<close>

lemma ack_read_count:
  assumes "k < 2 ^ 16"
  shows "ack_read prof packets (to_be 2 (of_nat k :: u16) @ b) =
    ack_read_loop prof k (to_be 2 (of_nat k :: u16) @ b) 2 packets"
proof -
  let ?n = "of_nat k :: u16"
  have two: "to_be 2 ?n = [ucast (drop_bit 8 ?n), ucast ?n]" by (simp add: numeral_2_eq_2)
  have "(from_be (to_be 2 ?n) :: u16) = ?n" by (rule from_be_to_be_full) simp
  moreover have "unat ?n = k" using assms by (simp add: unsigned_of_nat take_bit_nat_eq_self)
  ultimately show ?thesis by (simp add: ack_read_def two numeral_2_eq_2)
qed

lemma ack_read_records:
  assumes "list_all run_ok rs" and "length (run_lists rs) \<le> 8192" and "length rs < 2 ^ 16"
  shows "ack_read prof [] (to_be 2 (of_nat (length rs) :: u16) @ enc_records rs @ post)
           = (run_lists rs, Ok ())"
  using ack_read_loop_records [OF assms(1), of "[]" prof "to_be 2 (of_nat (length rs) :: u16)" post] assms(2)
  by (simp add: ack_read_count [OF assms(3)])

text \<open>
  Records of more than 8193 numbers in all are refused, the maximum of an acknowledgement being
  8192: a record that would exceed it is, and until then no more have been read.
\<close>

lemma ack_read_loop_refused:
  assumes "list_all run_ok rs" and "length acc \<le> 8193" and "8193 < length acc + length (run_lists rs)"
  shows "snd (ack_read_loop prof (length rs) (pre @ enc_records rs @ post) (length pre) acc) = Err MaxAcknowledgement"
  using assms
proof (induction rs arbitrary: pre acc)
  case Nil
  then show ?case by simp
next
  case (Cons r rs)
  have r: "run_ok r" "u24_ok (fst r)" "u24_ok (snd r)"
    using Cons.prems by (simp_all add: run_ok_def)
  have rest: "snd (ack_read_loop prof (length rs) ((pre @ enc_record r) @ enc_records rs @ post)
      (length (pre @ enc_record r)) (acc @ run_list r)) = Err MaxAcknowledgement"
    if "length acc + length (run_list r) \<le> 8193"
    using Cons.prems that by (intro Cons.IH) simp_all
  show ?case
  proof (cases "fst r = snd r")
    case True
    then have list: "run_list r = [fst r]" using r run_list_single [of "fst r"] by (cases r) simp
    with True r rest show ?thesis
      by (simp add: enc_record_single [OF True] PACKET_RANGE_def PACKET_SINGLE_def MAX_ACKNOWLEDGEMENT_PACKETS_def)
  next
    case False
    obtain tot where tot: "and_then (add_ovf prof (of_nat (length acc)) (u24 (snd r)))
        (\<lambda>sum. sub_ovf prof sum (u24 (fst r))) = Ok tot" "Suc (unat tot) = length acc + length (run_list r)"
      using size_test_value [OF r(1) Cons.prems(2)] by blast
    have "run_list r = inclusive_range (fst r) (snd r)" by (simp add: run_list_def)
    moreover have "8192 < tot \<or> length acc + length (run_list r) \<le> 8193"
      using tot(2) by (simp add: word_less_nat_alt) linarith
    ultimately show ?thesis using tot(1) False r rest
      by (auto simp: enc_record_range [OF False] PACKET_RANGE_def MAX_ACKNOWLEDGEMENT_PACKETS_def)
  qed
qed

lemma ack_read_refused:
  assumes "list_all run_ok rs" and "8193 < length (run_lists rs)" and "length rs < 2 ^ 16"
  shows "snd (ack_read prof [] (to_be 2 (of_nat (length rs) :: u16) @ enc_records rs)) = Err MaxAcknowledgement"
  using ack_read_loop_refused [OF assms(1), of "[]" prof "to_be 2 (of_nat (length rs) :: u16)" "[]"] assms(2)
  by (simp add: ack_read_count [OF assms(3)])

text \<open>
  On arbitrary bytes: the list the reader leaves has at most one element more than the maximum,
  in both profiles, and only a reversed range can make it panic.
\<close>

lemma length_inclusive_range:
  "length (inclusive_range s e) = Suc (unat (u24 e)) - unat (u24 s)"
  by (auto simp: inclusive_range_def)

lemma size_test_bound:
  assumes "and_then (add_ovf prof (of_nat k) (u24 e)) (\<lambda>sum. sub_ovf prof sum (u24 s)) = Ok tot"
    and "\<not> of_nat MAX_ACKNOWLEDGEMENT_PACKETS < tot" and "k \<le> 8193" and "u24_ok s" and "u24_ok e"
  shows "k + length (inclusive_range s e) \<le> 8193"
proof (cases "unat (u24 e) < unat (u24 s)")
  case True
  with assms(3) show ?thesis by (simp add: length_inclusive_range)
next
  case False
  have tot: "tot = of_nat k + u24 e - u24 s"
    using assms(1) by (auto simp: and_then_eq_Ok add_ovf_def sub_ovf_def split: if_splits)
  have k: "unat (of_nat k :: u32) = k"
    using assms(3) by (simp add: unsigned_of_nat take_bit_nat_eq_self)
  have sum: "unat (of_nat k + u24 e) = k + unat (u24 e)"
    using assms(3,5) k by (simp add: unat_word_ariths u24_ok_iff_unat)
  have le: "u24 s \<le> of_nat k + u24 e" using sum False by (simp add: word_le_nat_alt)
  have "unat tot = k + unat (u24 e) - unat (u24 s)"
    using sum by (simp add: tot unat_sub [OF le])
  moreover have "unat tot \<le> 8192"
    using assms(2) by (simp add: MAX_ACKNOWLEDGEMENT_PACKETS_def not_less word_le_nat_alt)
  ultimately show ?thesis using False by (simp add: length_inclusive_range)
qed

lemma ack_read_loop_bound:
  "length packets \<le> 8193 \<Longrightarrow> length (fst (ack_read_loop prof k b offset packets)) \<le> 8193"
proof (induction prof k b offset packets rule: ack_read_loop.induct)
  case (1 prof b offset packets)
  then show ?case by simp
next
  case (2 prof k b offset packets)
  show ?case
  proof (cases "length b - offset < 4")
    case True
    with "2.prems" show ?thesis by simp
  next
    case False
    then have idx: "idx b offset = Ok (b ! offset)" by (intro idx_Ok) linarith
    consider "b ! offset = PACKET_RANGE" | "b ! offset = PACKET_SINGLE"
      | "b ! offset \<noteq> PACKET_RANGE" "b ! offset \<noteq> PACKET_SINGLE" by blast
    then show ?thesis
    proof cases
      case 1
      then show ?thesis
        using False idx "2.prems"
        by (auto split: outcome.splits dest: load_uint24_ok intro!: "2.IH"(1) size_test_bound)
    next
      case 2
      then show ?thesis
        using False idx "2.prems"
        by (auto simp: PACKET_SINGLE_def PACKET_RANGE_def MAX_ACKNOWLEDGEMENT_PACKETS_def
            split: outcome.splits intro!: "2.IH"(2))
    next
      case 3
      then show ?thesis using False idx "2.prems" "2.IH"(3) by simp
    qed
  qed
qed

lemma ack_read_loop_no_panic: "snd (ack_read_loop Release k b offset packets) \<noteq> Panic"
proof (induction Release k b offset packets rule: ack_read_loop.induct)
  case (1 b offset packets)
  show ?case by simp
next
  case (2 k b offset packets)
  show ?case
  proof (cases "length b - offset < 4")
    case True
    then show ?thesis by simp
  next
    case False
    then have idx: "idx b offset = Ok (b ! offset)" by (intro idx_Ok) linarith
    have load: "\<exists>v. load_uint24 (drop i b) = Ok v" if "i + 3 \<le> length b" for i
      using that load_uint24_no_panic [of "drop i b"] by (simp add: le_diff_conv2) blast
    consider "b ! offset = PACKET_RANGE" "length b - offset < 7"
      | "b ! offset = PACKET_RANGE" "\<not> length b - offset < 7"
      | "b ! offset = PACKET_SINGLE"
      | "b ! offset \<noteq> PACKET_RANGE" "b ! offset \<noteq> PACKET_SINGLE" by blast
    then show ?thesis
    proof cases
      case 1
      then show ?thesis using False idx by simp
    next
      case 2
      then have "offset + 1 + 3 \<le> length b" "offset + 4 + 3 \<le> length b" by linarith+
      then obtain s e where
        "load_uint24 (drop (offset + 1) b) = Ok s" "load_uint24 (drop (offset + 4) b) = Ok e"
        using load by blast
      with 2 False idx "2.hyps"(1) show ?thesis by simp
    next
      case 3
      from False have "offset + 1 + 3 \<le> length b" by linarith
      then obtain v where "load_uint24 (drop (offset + 1) b) = Ok v" using load by blast
      with 3 False idx "2.hyps"(2) show ?thesis
        by (simp add: PACKET_SINGLE_def PACKET_RANGE_def)
    next
      case 4
      then show ?thesis using False idx "2.hyps"(3) by simp
    qed
  qed
qed

text \<open>A single range record, the wire form of both corner cases below.\<close>

definition one_range :: "Uint24 \<Rightarrow> Uint24 \<Rightarrow> bytes" where
  "one_range s e = to_be 2 (1 :: u16) @ PACKET_RANGE # write_uint24 [] s @ write_uint24 [] e"

lemma ack_read_one_range:
  assumes "u24_ok s" and "u24_ok e"
  shows "ack_read prof [] (one_range s e) =
    (case sub_ovf prof (u24 e) (u24 s) of
       Ok tot \<Rightarrow> if of_nat MAX_ACKNOWLEDGEMENT_PACKETS < tot then ([], Err MaxAcknowledgement)
                 else (inclusive_range s e, Ok ())
     | Err x \<Rightarrow> ([], Err x) | Panic \<Rightarrow> ([], Panic))"
proof -
  have "add_ovf prof 0 (u24 e) = Ok (u24 e)"
    using assms(2) by (simp add: add_ovf_fits u24_ok_iff_unat)
  moreover have "(from_be [0, 1] :: u16) = 1" by (simp add: from_be_def)
  ultimately show ?thesis
    using assms load_uint24_write [of e "[]"]
    by (simp add: ack_read_def one_range_def numeral_2_eq_2 PACKET_RANGE_def split: outcome.splits)
qed

text \<open>Whatever the profile, only numbers that were written are read.\<close>

lemma ack_read_loop_sound:
  assumes "list_all run_ok rs"
    and "ack_read_loop prof (length rs) (pre @ enc_records rs @ post) (length pre) acc = (ps, Ok ())"
  shows "set ps \<subseteq> set acc \<union> set (run_lists rs)"
  using assms
proof (induction rs arbitrary: pre acc)
  case Nil
  then show ?case by simp
next
  case (Cons r rs)
  have r: "run_ok r" "u24_ok (fst r)" "u24_ok (snd r)"
    using Cons.prems by (simp_all add: run_ok_def)
  note IH = Cons.IH [of "pre @ enc_record r" "acc @ run_list r"]
  show ?case
  proof (cases "fst r = snd r")
    case True
    then have list: "run_list r = [fst r]" using r run_list_single [of "fst r"] by (cases r) simp
    with True r Cons.prems IH show ?thesis
      by (auto simp: enc_record_single [OF True] PACKET_RANGE_def PACKET_SINGLE_def split: if_splits)
  next
    case False
    have "run_list r = inclusive_range (fst r) (snd r)" by (simp add: run_list_def)
    with False r Cons.prems IH show ?thesis
      by (auto simp: enc_record_range [OF False] PACKET_RANGE_def split: if_splits outcome.splits)
  qed
qed

lemma ack_read_sound:
  assumes "list_all run_ok rs" and "length rs < 2 ^ 16"
    and "ack_read prof [] (to_be 2 (of_nat (length rs) :: u16) @ enc_records rs) = (ps, Ok ())"
  shows "set ps \<subseteq> set (run_lists rs)"
  using ack_read_loop_sound [OF assms(1), of prof "to_be 2 (of_nat (length rs) :: u16)" "[]" "[]"] assms(3)
  by (simp add: ack_read_count [OF assms(2)])

section \<open>Properties\<close>

text \<open>
  C27. Round trip of acknowledgements: the writer takes \<open>n \<ge> 1\<close> numbers, and reading what it
  wrote yields, under either profile and without an error, exactly the \<open>n\<close> smallest of the
  numbers in ascending order, duplicates kept. The buffer exceeds the MTU by six bytes at most.
\<close>

theorem ack_roundtrip:
  assumes "7 \<le> mtu" and "list_all u24_ok ack" and "ack \<noteq> []" and "length ack \<le> 8192"
  shows "\<exists>buf n. write_to_vec prof ack mtu = Ok (buf, n) \<and> 1 \<le> n \<and> n \<le> length ack
    \<and> ack_read prof' [] buf = (take n (sort ack), Ok ()) \<and> length buf \<le> unat mtu + 6"
proof -
  obtain rs n where
    w: "write_to_buf prof ack [] mtu = Ok ([] @ to_be 2 (of_nat (length rs) :: u16) @ enc_records rs, n)"
    and rs: "list_all run_ok rs" "run_lists rs = take n (sort ack)" "length rs < 2 ^ 16"
    and n: "1 \<le> n" "n \<le> length ack" and len: "length (enc_records rs) < unat mtu + 5"
    using write_to_buf_ok [OF assms(1-3), of prof "[]"] by blast
  have "length (run_lists rs) \<le> 8192" using rs n assms(4) by simp
  from ack_read_records [OF rs(1) this rs(3), of prof' "[]"] w rs n len show ?thesis
    by (intro exI [of _ "to_be 2 (of_nat (length rs) :: u16) @ enc_records rs"] exI [of _ n])
      (simp add: write_to_vec_def)
qed

theorem ack_roundtrip_witness:
  "\<exists>buf n. write_to_vec Debug [Uint24 9, Uint24 3, Uint24 4] 372 = Ok (buf, n)
     \<and> ack_read Release [] buf = (take n [Uint24 3, Uint24 4, Uint24 9], Ok ())"
  using ack_roundtrip [of 372 "[Uint24 9, Uint24 3, Uint24 4]" Debug Release]
  by (auto simp: u24_ok_def less_eq_Uint24_def)

text \<open>
  The acknowledgement reader on arbitrary bytes: without overflow checks it never panics,
  and under either profile it never holds more than 8193 numbers, whatever ranges it is sent.
\<close>

theorem ack_read_bounded:
  "snd (ack_read Release [] b) \<noteq> Panic \<and> length (fst (ack_read prof [] b)) \<le> 8193"
  using ack_read_loop_no_panic ack_read_loop_bound [of "[]"] by (simp add: ack_read_def)

text \<open>
  The maximum is exceeded by one: a single range of 8193 numbers passes the size test,
  which counts the difference of the bounds, and is accepted.
\<close>

theorem ack_read_limit_plus_one:
  "ack_read prof [] (one_range (Uint24 0) (Uint24 8192)) =
     (inclusive_range (Uint24 0) (Uint24 8192), Ok ())
   \<and> length (inclusive_range (Uint24 0) (Uint24 8192)) = MAX_ACKNOWLEDGEMENT_PACKETS + 1"
  by (simp add: ack_read_one_range u24_ok_def MAX_ACKNOWLEDGEMENT_PACKETS_def
      length_inclusive_range)

text \<open>
  A range record whose end is below its start makes the reader panic when overflow checks
  are on; without them the wrapped size is rejected as too large.
\<close>

theorem ack_reversed_range:
  assumes "u24_ok s" and "u24_ok e" and "e < s"
  shows "ack_read Debug [] (one_range s e) = ([], Panic)
    \<and> ack_read Release [] (one_range s e) = ([], Err MaxAcknowledgement)"
proof -
  have lt: "u24 e < u24 s" using assms(3) by (simp add: less_Uint24_def)
  have s: "unat (u24 s) < 2 ^ 24" using assms(1) by (simp add: u24_ok_iff_unat)
  have "unat (u24 e - u24 s) = 2 ^ 32 + unat (u24 e) - unat (u24 s)"
    using lt by (simp add: unat_sub_if' word_less_nat_alt)
  with s have "8192 < u24 e - u24 s" by (simp add: word_less_nat_alt)
  with lt assms show ?thesis
    by (simp add: ack_read_one_range sub_ovf_Debug_less MAX_ACKNOWLEDGEMENT_PACKETS_def)
qed

theorem ack_reversed_range_witness:
  "ack_read Debug [] (one_range (Uint24 2) (Uint24 1)) = ([], Panic)"
  using ack_reversed_range [of "Uint24 2" "Uint24 1"] by (simp add: u24_ok_def less_Uint24_def)

end
