(* ===== verification/Sequence_Filter.thy ===== *)
theory Sequence_Filter
  imports Prelude
begin

text \<open>
  The contract the two receive-side containers share. A sequence filter is offered indices,
  each with a payload, and accepts an index only when it has not seen it before; between offers it may be tidied
  (the datagram window is shifted and reports what is missing, the packet queue is drained).
  The laws speak about \<open>seen\<close>; the lemmas are about whole runs and are proved here once: no
  index is ever accepted twice and, where tidying forgets nothing and invents nothing, the first
  offer of every index is accepted.
\<close>

datatype ('a, 'i, 'm) filter_op = Offer 'a 'i | Tidy 'm

locale sequence_filter =
  fixes inv :: "'s \<Rightarrow> bool"
    and valid :: "'i \<Rightarrow> bool"
    and seen :: "'s \<Rightarrow> 'i \<Rightarrow> bool"
    and offer :: "'a \<Rightarrow> 'i \<Rightarrow> 's \<Rightarrow> 's \<times> bool"
    and tidy :: "'m \<Rightarrow> 's \<Rightarrow> 's"
  assumes inv_offer: "inv s \<Longrightarrow> valid i \<Longrightarrow> inv (fst (offer a i s))"
    and inv_tidy: "inv s \<Longrightarrow> inv (tidy m s)"
    and accepted_iff: "inv s \<Longrightarrow> valid i \<Longrightarrow> snd (offer a i s) \<longleftrightarrow> \<not> seen s i"
    and seen_offer: "inv s \<Longrightarrow> valid i \<Longrightarrow> valid j \<Longrightarrow> seen (fst (offer a i s)) j \<longleftrightarrow> seen s j \<or> j = i"
    and seen_tidy_mono: "inv s \<Longrightarrow> valid j \<Longrightarrow> seen s j \<Longrightarrow> seen (tidy m s) j"
begin

text \<open>A run, with the indices it accepted in order.\<close>

fun run :: "('a, 'i, 'm) filter_op list \<Rightarrow> 's \<Rightarrow> 's \<times> 'i list" where
  "run [] s = (s, [])"
| "run (Offer a i # ops) s =
     (let (s', ok) = offer a i s; (s'', acc) = run ops s'
      in (s'', if ok then i # acc else acc))"
| "run (Tidy m # ops) s = run ops (tidy m s)"

fun valid_op :: "('a, 'i, 'm) filter_op \<Rightarrow> bool" where
  "valid_op (Offer a i) = valid i"
| "valid_op (Tidy m) = True"

lemma run_inv: "inv s \<Longrightarrow> list_all valid_op ops \<Longrightarrow> inv (fst (run ops s))"
proof (induction ops s rule: run.induct)
  case (2 a i ops s)
  then show ?case
    by (cases "offer a i s"; cases "run ops (fst (offer a i s))") (use inv_offer [of s i a] in auto)
qed (auto simp: inv_tidy)

lemma run_mono:
  "inv s \<Longrightarrow> list_all valid_op ops \<Longrightarrow> valid j \<Longrightarrow> seen s j \<Longrightarrow> seen (fst (run ops s)) j"
proof (induction ops s rule: run.induct)
  case (2 a i ops s)
  then show ?case
    by (cases "offer a i s"; cases "run ops (fst (offer a i s))")
      (use inv_offer [of s i a] seen_offer [of s i j a] in auto)
qed (auto simp: inv_tidy seen_tidy_mono)

text \<open>What a run accepts: pairwise distinct indices, none of them seen before the run.\<close>

lemma run_accepts_once:
  "inv s \<Longrightarrow> list_all valid_op ops \<Longrightarrow>
   distinct (snd (run ops s)) \<and> (\<forall>j \<in> set (snd (run ops s)). valid j \<and> \<not> seen s j)"
proof (induction ops s rule: run.induct)
  case (1 s)
  then show ?case by simp
next
  case (2 a i ops s)
  obtain s' ok where o: "offer a i s = (s', ok)" by (cases "offer a i s")
  obtain s'' acc where r: "run ops s' = (s'', acc)" by (cases "run ops s'")
  have i: "valid i" and inv': "inv s'" using "2.prems" inv_offer [of s i a] o by auto
  have IH: "distinct acc" "\<forall>j \<in> set acc. valid j \<and> \<not> seen s' j"
    using "2.IH" [OF o [symmetric]] "2.prems" inv' o r by auto
  have "\<not> seen s j \<and> j \<noteq> i" if "j \<in> set acc" for j
    using IH(2) that seen_offer [OF "2.prems"(1) i, of j a] o by auto
  moreover have "ok \<longleftrightarrow> \<not> seen s i" using accepted_iff [OF "2.prems"(1) i, of a] o by simp
  ultimately show ?case using IH i o r by auto
next
  case (3 m ops s)
  then have "inv (tidy m s)" by (simp add: inv_tidy)
  with 3 show ?case using seen_tidy_mono [of s] by auto
qed

end

text \<open>A filter whose tidying changes nothing about what was seen accepts every first offer.\<close>

locale exact_sequence_filter = sequence_filter inv valid seen offer tidy
  for inv :: "'s \<Rightarrow> bool"
    and valid :: "'i \<Rightarrow> bool"
    and seen :: "'s \<Rightarrow> 'i \<Rightarrow> bool"
    and offer :: "'a \<Rightarrow> 'i \<Rightarrow> 's \<Rightarrow> 's \<times> bool"
    and tidy :: "'m \<Rightarrow> 's \<Rightarrow> 's" +
  assumes seen_tidy: "inv s \<Longrightarrow> valid j \<Longrightarrow> seen (tidy m s) j \<longleftrightarrow> seen s j"
begin

fun offered :: "('a, 'i, 'm) filter_op list \<Rightarrow> 'i set" where
  "offered [] = {}"
| "offered (Offer a i # ops) = insert i (offered ops)"
| "offered (Tidy m # ops) = offered ops"

lemma run_accepts_exactly:
  "inv s \<Longrightarrow> list_all valid_op ops \<Longrightarrow>
   set (snd (run ops s)) = {j \<in> offered ops. \<not> seen s j}"
proof (induction ops s rule: run.induct)
  case (1 s)
  then show ?case by simp
next
  case (2 a i ops s)
  obtain s' ok where o: "offer a i s = (s', ok)" by (cases "offer a i s")
  obtain s'' acc where r: "run ops s' = (s'', acc)" by (cases "run ops s'")
  have i: "valid i" and inv': "inv s'" using "2.prems" inv_offer [of s i a] o by auto
  have IH: "set acc = {j \<in> offered ops. \<not> seen s' j}"
    using "2.IH" [OF o [symmetric]] "2.prems" inv' o r by auto
  have valid: "valid j" if "j \<in> offered ops" for j
    using that "2.prems"(2) by (induction ops rule: offered.induct) auto
  have "seen s' j \<longleftrightarrow> seen s j \<or> j = i" if "j \<in> offered ops" for j
    using seen_offer [OF "2.prems"(1) i valid [OF that], of a] o by simp
  then have "set acc = {j \<in> offered ops. \<not> seen s j \<and> j \<noteq> i}" using IH by auto
  moreover have "ok \<longleftrightarrow> \<not> seen s i" using accepted_iff [OF "2.prems"(1) i, of a] o by simp
  ultimately show ?case using o r by auto
next
  case (3 m ops s)
  have valid: "valid j" if "j \<in> offered ops" for j
    using that "3.prems"(2) by (induction ops rule: offered.induct) auto
  have "inv (tidy m s)" using "3.prems" by (simp add: inv_tidy)
  with 3 valid show ?case using seen_tidy [of s] by auto
qed

end

end
