(* ===== verification/Datagram_Window.thy ===== *)
theory Datagram_Window
  imports Binary Sequence_Filter
begin

text \<open>
  The receive window over datagram sequence numbers, \<open>src/datagram_window.rs\<close>. The
  \<open>HashMap<u32, Instant>\<close> is a map; readings of the clock are arguments: \<open>now\<close> for the reading
  at the start of a call, \<open>clk i\<close> for the one made while index \<open>i\<close> is processed.
\<close>

unbundle bit_operations_syntax

record DatagramWindow =
  dw_lowest :: Uint24
  dw_highest :: Uint24
  dw_queue :: "u32 \<rightharpoonup> instant"

definition dw_new :: DatagramWindow where
  "dw_new = \<lparr>dw_lowest = u24_new 0, dw_highest = u24_new 0, dw_queue = Map.empty\<rparr>"

definition dw_seen :: "DatagramWindow \<Rightarrow> Uint24 \<Rightarrow> bool" where
  "dw_seen self index =
     (if u24 index < u24 (dw_lowest self) then True
      else dw_queue self (u24 index) \<noteq> None)"

definition dw_add :: "instant \<Rightarrow> Uint24 \<Rightarrow> DatagramWindow \<Rightarrow> DatagramWindow \<times> bool" where
  "dw_add now index self =
     (if dw_seen self index then (self, False)
      else
        let self = (if u24 (dw_highest self) < u24 index + 1
                    then self\<lparr>dw_highest := u24_new (u24 index + 1)\<rparr> else self)
        in (self\<lparr>dw_queue := (dw_queue self)(u24 index \<mapsto> now)\<rparr>, True))"

text \<open>The loop of \<open>shift\<close>: its state is the index, the map and the count.\<close>

function shift_loop ::
  "u32 \<Rightarrow> u32 \<Rightarrow> (u32 \<rightharpoonup> instant) \<Rightarrow> nat \<Rightarrow> u32 \<times> (u32 \<rightharpoonup> instant) \<times> nat" where
  "shift_loop highest index queue n =
     (if index < highest then
        if queue index = None then (index, queue, n)
        else shift_loop highest (index + 1) (queue(index := None)) (n + 1)
      else (index, queue, n))"
  by pat_completeness auto
termination
proof (relation "measure (\<lambda>(highest, index, queue, n). unat highest - unat index)")
  fix highest index :: u32 and queue :: "u32 \<rightharpoonup> instant" and n :: nat
  assume less: "index < highest"
  then have "unat (index + 1) = unat index + 1"
    by (rule unat_succ_less)
  with less show "((highest, index + 1, queue(index := None), n + 1), highest, index, queue, n)
      \<in> measure (\<lambda>(highest, index, queue, n). unat highest - unat index)"
    by (simp add: word_less_nat_alt)
qed simp

declare shift_loop.simps [simp del]

definition dw_shift :: "DatagramWindow \<Rightarrow> DatagramWindow \<times> nat" where
  "dw_shift self =
     (case shift_loop (u24 (dw_highest self)) (u24 (dw_lowest self)) (dw_queue self) 0 of
        (index, queue, n) \<Rightarrow> (self\<lparr>dw_queue := queue, dw_lowest := u24_new index\<rparr>, n))"

text \<open>The loop of \<open>missing\<close>, over the indices from the highest down.\<close>

fun missing_loop ::
  "instant \<Rightarrow> (u32 \<Rightarrow> instant) \<Rightarrow> duration \<Rightarrow> u32 list \<Rightarrow> (u32 \<rightharpoonup> instant) \<Rightarrow> bool \<Rightarrow> Uint24 list
     \<Rightarrow> (u32 \<rightharpoonup> instant) \<times> Uint24 list" where
  "missing_loop now clk since [] queue missing indices = (queue, indices)"
| "missing_loop now clk since (index # rest) queue missing indices =
     (case queue index of
        Some time \<Rightarrow>
          missing_loop now clk since rest queue
            (if duration_since now time \<ge> since then True else missing) indices
      | None \<Rightarrow>
          if missing
          then missing_loop now clk since rest
                 (queue(index \<mapsto> clk index - int (from_secs 3600))) missing
                 (indices @ [u24_new index])
          else missing_loop now clk since rest queue missing indices)"

definition range_rev :: "Uint24 \<Rightarrow> Uint24 \<Rightarrow> u32 list" where
  "range_rev lo hi = rev (map of_nat [unat (u24 lo) ..< unat (u24 hi)])"

definition dw_missing ::
  "instant \<Rightarrow> (u32 \<Rightarrow> instant) \<Rightarrow> duration \<Rightarrow> DatagramWindow \<Rightarrow> DatagramWindow \<times> Uint24 list" where
  "dw_missing now clk since self =
     (case missing_loop now clk since (range_rev (dw_lowest self) (dw_highest self))
             (dw_queue self) False [] of
        (queue, indices) \<Rightarrow> (fst (dw_shift (self\<lparr>dw_queue := queue\<rparr>)), indices))"

definition dw_size :: "profile \<Rightarrow> DatagramWindow \<Rightarrow> u32 outcome" where
  "dw_size prof self = sub_ovf prof (u24 (dw_highest self)) (u24 (dw_lowest self))"

section \<open>The invariant\<close>

text \<open>
  The bounds are ordered and every held index lies between them. Adding keeps this for every
  index but \<open>2 ^ 24 - 1\<close>, whose successor wraps.
\<close>

definition dw_inv :: "DatagramWindow \<Rightarrow> bool" where
  "dw_inv dw \<longleftrightarrow> u24_ok (dw_lowest dw) \<and> u24_ok (dw_highest dw) \<and> dw_lowest dw \<le> dw_highest dw
     \<and> (\<forall>i \<in> dom (dw_queue dw). u24 (dw_lowest dw) \<le> i \<and> i < u24 (dw_highest dw))"

lemma dw_inv_new: "dw_inv dw_new"
  by (simp add: dw_inv_def dw_new_def)

section \<open>Adding\<close>

lemma dw_add_result: "snd (dw_add now i dw) \<longleftrightarrow> \<not> dw_seen dw i"
  by (simp add: dw_add_def Let_def)

lemma dw_add_seen:
  "dw_seen (fst (dw_add now i dw)) j \<longleftrightarrow> dw_seen dw j \<or> j = i"
  by (auto simp: dw_add_def dw_seen_def Let_def Uint24.expand split: if_splits)

lemma dw_add_lowest [simp]: "dw_lowest (fst (dw_add now i dw)) = dw_lowest dw"
  by (simp add: dw_add_def Let_def)

lemma dw_inv_add:
  assumes inv: "dw_inv dw" and v: "u24_inner i"
  shows "dw_inv (fst (dw_add now i dw))"
proof (cases "dw_seen dw i")
  case True
  with inv show ?thesis by (simp add: dw_add_def)
next
  case False
  then have lo: "u24 (dw_lowest dw) \<le> u24 i" by (auto simp: dw_seen_def split: if_splits)
  have succ: "unat (u24 i + 1) = unat (u24 i) + 1" "u24 (u24_new (u24 i + 1)) = u24 i + 1"
    using u24_inner_succ [OF v] by simp_all
  show ?thesis
  proof (cases "u24 (dw_highest dw) < u24 i + 1")
    case grow: True
    have "unat j < Suc (unat (u24 i))" if "dw_queue dw j = Some t" for j t
    proof -
      have "j < u24 (dw_highest dw)" using inv that by (auto simp: dw_inv_def)
      with grow have "j < u24 i + 1" by simp
      with succ show ?thesis by (simp add: word_less_nat_alt)
    qed
    with inv lo succ False grow show ?thesis
      by (auto simp: dw_inv_def dw_add_def Let_def u24_le_iff word_less_nat_alt word_le_nat_alt)
  next
    case False
    with inv lo succ \<open>\<not> dw_seen dw i\<close> show ?thesis
      by (auto simp: dw_inv_def dw_add_def Let_def u24_le_iff word_less_nat_alt word_le_nat_alt)
  qed
qed

section \<open>Shifting\<close>

lemma shift_loop_spec:
  "i \<le> h \<Longrightarrow> shift_loop h i q n = (k, q', n') \<Longrightarrow>
     i \<le> k \<and> k \<le> h \<and> n' = n + (unat k - unat i)
     \<and> (\<forall>j. i \<le> j \<and> j < k \<longrightarrow> q j \<noteq> None) \<and> (k < h \<longrightarrow> q k = None)
     \<and> q' = (\<lambda>j. if i \<le> j \<and> j < k then None else q j)"
proof (induction h i q n rule: shift_loop.induct)
  case (1 h i q n)
  show ?case
  proof (cases "i < h \<and> q i \<noteq> None")
    case False
    with "1.prems" have "(k, q', n') = (i, q, n)"
      by (subst (asm) shift_loop.simps) (auto split: if_splits)
    with "1.prems"(1) False show ?thesis by (auto simp: fun_eq_iff)
  next
    case True
    then have step: "shift_loop h (i + 1) (q(i := None)) (n + 1) = (k, q', n')"
      using "1.prems"(2) by (subst (asm) shift_loop.simps) auto
    have le: "i + 1 \<le> h" using True succ_le_of_less [of i h] by simp
    have u: "unat (i + 1) = unat i + 1" using True unat_succ_less [of i h] by simp
    have lt: "j < i + 1 \<longleftrightarrow> j \<le> i" "i + 1 \<le> j \<longleftrightarrow> i < j" for j
      using u by (auto simp: word_less_nat_alt word_le_nat_alt)
    have IH: "i + 1 \<le> k" "k \<le> h" "n' = n + 1 + (unat k - unat (i + 1))"
      "\<forall>j. i + 1 \<le> j \<and> j < k \<longrightarrow> (q(i := None)) j \<noteq> None" "k < h \<longrightarrow> (q(i := None)) k = None"
      "q' = (\<lambda>j. if i + 1 \<le> j \<and> j < k then None else (q(i := None)) j)"
      using "1.IH" [OF _ _ le step] True by auto
    have "i < k" using IH(1) lt by simp
    moreover have "n' = n + (unat k - unat i)"
      using IH(3) u \<open>i < k\<close> by (simp add: word_less_nat_alt)
    moreover have "q j \<noteq> None" if "i \<le> j" "j < k" for j
    proof (cases "j = i")
      case False
      with that have "i + 1 \<le> j" using lt by simp
      with IH(4) that have "(q(i := None)) j \<noteq> None" by blast
      with False show ?thesis by simp
    qed (use True in simp)
    moreover have "q k = None" if "k < h" using IH(5) that \<open>i < k\<close> by (auto split: if_splits)
    moreover have "q' = (\<lambda>j. if i \<le> j \<and> j < k then None else q j)"
      using IH(6) lt \<open>i < k\<close> by (auto simp: fun_eq_iff)
    ultimately show ?thesis using IH(2) by (auto simp: less_imp_le)
  qed
qed

text \<open>
  The lowest index after a shift is the first one not held, or the highest bound; exactly the
  held run below it is removed, and what counts as seen does not change.
\<close>

lemma dw_shift_spec:
  assumes inv: "dw_inv dw" and shift: "dw_shift dw = (dw', n)"
  shows "dw_inv dw'" and "dw_highest dw' = dw_highest dw"
    and "dw_lowest dw \<le> dw_lowest dw'"
    and "n = unat (u24 (dw_lowest dw')) - unat (u24 (dw_lowest dw))"
    and "u24 (dw_lowest dw') < u24 (dw_highest dw) \<Longrightarrow> dw_queue dw (u24 (dw_lowest dw')) = None"
    and "u24 (dw_lowest dw) \<le> j \<Longrightarrow> j < u24 (dw_lowest dw') \<Longrightarrow> dw_queue dw j \<noteq> None"
    and "dw_seen dw' i \<longleftrightarrow> dw_seen dw i"
proof -
  obtain k q' where loop: "shift_loop (u24 (dw_highest dw)) (u24 (dw_lowest dw)) (dw_queue dw) 0 = (k, q', n)"
    and dw': "dw' = dw\<lparr>dw_queue := q', dw_lowest := u24_new k\<rparr>"
    using shift by (auto simp: dw_shift_def split: prod.splits)
  have le: "u24 (dw_lowest dw) \<le> u24 (dw_highest dw)"
    using inv by (simp add: dw_inv_def less_eq_Uint24_def)
  note spec = shift_loop_spec [OF le loop]
  have "unat k < 2 ^ 24"
    using spec inv by (auto simp: dw_inv_def u24_ok_iff_unat word_le_nat_alt)
  then have k: "u24 (u24_new k) = k" by (rule u24_new_small)
  show "dw_inv dw'" and "dw_highest dw' = dw_highest dw" and "dw_lowest dw \<le> dw_lowest dw'"
    and "n = unat (u24 (dw_lowest dw')) - unat (u24 (dw_lowest dw))"
    using spec inv k by (auto simp: dw' dw_inv_def less_eq_Uint24_def dom_def not_less split: if_splits)
  show "u24 (dw_lowest dw') < u24 (dw_highest dw) \<Longrightarrow> dw_queue dw (u24 (dw_lowest dw')) = None"
    and "u24 (dw_lowest dw) \<le> j \<Longrightarrow> j < u24 (dw_lowest dw') \<Longrightarrow> dw_queue dw j \<noteq> None"
    using spec k by (auto simp: dw')
  show "dw_seen dw' i \<longleftrightarrow> dw_seen dw i"
    using spec k by (auto simp: dw' dw_seen_def not_less split: if_splits)
qed

section \<open>Reporting what is missing\<close>

definition overdue :: "instant \<Rightarrow> duration \<Rightarrow> (u32 \<rightharpoonup> instant) \<Rightarrow> u32 \<Rightarrow> bool" where
  "overdue now since q i = (case q i of Some t \<Rightarrow> since \<le> duration_since now t | None \<Rightarrow> False)"

text \<open>
  Below the first overdue index of the traversal every index without an entry is reported, in
  the order of the traversal, and given an entry one hour old.
\<close>

lemma missing_loop_flagged:
  "distinct xs \<Longrightarrow>
   missing_loop now clk since xs q True acc =
     (\<lambda>i. if i \<in> set xs \<and> q i = None then Some (clk i - int (from_secs 3600)) else q i,
      acc @ map u24_new (filter (\<lambda>i. q i = None) xs))"
proof (induction xs arbitrary: q acc)
  case Nil
  then show ?case by simp
next
  case (Cons x xs)
  show ?case
  proof (cases "q x")
    case None
    have "filter (\<lambda>i. (q(x \<mapsto> clk x - int (from_secs 3600))) i = None) xs = filter (\<lambda>i. q i = None) xs"
      using Cons.prems by (intro filter_cong) auto
    with None Cons show ?thesis by (auto simp: fun_eq_iff)
  next
    case (Some t)
    with Cons show ?thesis by (auto simp: fun_eq_iff)
  qed
qed

lemma missing_loop_spec:
  "distinct xs \<Longrightarrow>
   missing_loop now clk since xs q False acc =
     (let gaps = filter (\<lambda>i. q i = None) (dropWhile (\<lambda>i. \<not> overdue now since q i) xs)
      in (\<lambda>i. if i \<in> set gaps then Some (clk i - int (from_secs 3600)) else q i,
          acc @ map u24_new gaps))"
proof (induction xs)
  case Nil
  then show ?case by simp
next
  case (Cons x xs)
  show ?case
  proof (cases "overdue now since q x")
    case True
    then obtain t where t: "q x = Some t" "since \<le> duration_since now t"
      by (auto simp: overdue_def split: option.splits)
    with Cons.prems True show ?thesis
      by (auto simp: missing_loop_flagged Let_def fun_eq_iff)
  next
    case False
    with Cons show ?thesis by (auto simp: overdue_def Let_def split: option.splits)
  qed
qed

lemma range_rev_facts:
  "distinct (range_rev lo hi)"
  "set (range_rev lo hi) = {i. u24 lo \<le> i \<and> i < u24 hi}"
  "sorted (rev (range_rev lo hi))"
proof -
  have small: "unat (of_nat n :: u32) = n" if "n < unat (u24 hi)" for n
  proof -
    have "unat (u24 hi) < 2 ^ LENGTH(32)" by (rule unsigned_less)
    with that show ?thesis by (simp add: unsigned_of_nat take_bit_nat_eq_self)
  qed
  then show "distinct (range_rev lo hi)"
    by (auto simp: range_rev_def distinct_map inj_on_def dest!: arg_cong [where f = unat])
  show "set (range_rev lo hi) = {i. u24 lo \<le> i \<and> i < u24 hi}"
  proof (intro set_eqI iffI)
    fix i :: u32
    assume "i \<in> set (range_rev lo hi)"
    then show "i \<in> {i. u24 lo \<le> i \<and> i < u24 hi}"
      using small by (auto simp: range_rev_def word_le_nat_alt word_less_nat_alt)
  next
    fix i :: u32
    assume "i \<in> {i. u24 lo \<le> i \<and> i < u24 hi}"
    then have "unat i \<in> {unat (u24 lo)..<unat (u24 hi)}" "i = of_nat (unat i)"
      by (auto simp: word_le_nat_alt word_less_nat_alt)
    then show "i \<in> set (range_rev lo hi)" 
      unfolding range_rev_def set_rev set_map set_upt by (intro image_eqI [of i of_nat "unat i"])
  qed
  show "sorted (rev (range_rev lo hi))"
    unfolding range_rev_def rev_rev_ident
    by (rule sorted_wrt_mono_rel [of _ "\<lambda>x y. x \<le> y", rotated])
      (use small in \<open>auto simp: sorted_wrt_map word_le_nat_alt intro!: sorted_wrt_mono_rel [OF _ sorted_upt]\<close>)
qed

lemma set_dropWhile_descending:
  "sorted (rev xs) \<Longrightarrow> distinct xs \<Longrightarrow>
   set (dropWhile (\<lambda>x. \<not> P x) xs) = {x \<in> set xs. \<exists>y \<in> set xs. P y \<and> x \<le> y}"
proof (induction xs)
  case Nil
  then show ?case by simp
next
  case (Cons x xs)
  have le: "y \<le> x" if "y \<in> set xs" for y using Cons.prems(1) that by (simp add: sorted_append)
  show ?case
  proof (cases "P x")
    case True
    with le show ?thesis by auto
  next
    case False
    have "\<not> x \<le> y" if "y \<in> set xs" for y using le [OF that] that Cons.prems(2) by auto
    with False Cons show ?thesis by (auto simp: sorted_append)
  qed
qed

text \<open>The indices \<open>missing\<close> reports: absent, in the window, below an overdue one.\<close>

definition dw_gap :: "instant \<Rightarrow> duration \<Rightarrow> DatagramWindow \<Rightarrow> u32 \<Rightarrow> bool" where
  "dw_gap now since dw i \<longleftrightarrow>
     u24 (dw_lowest dw) \<le> i \<and> dw_queue dw i = None
     \<and> (\<exists>j. overdue now since (dw_queue dw) j \<and> i < j)"

lemma overdue_held: "overdue now since q j \<Longrightarrow> q j \<noteq> None"
  by (auto simp: overdue_def split: option.splits)

lemma dw_inv_held:
  "dw_inv dw \<Longrightarrow> dw_queue dw j \<noteq> None \<Longrightarrow> u24 (dw_lowest dw) \<le> j \<and> j < u24 (dw_highest dw)"
  by (auto simp: dw_inv_def)

definition dw_gaps :: "instant \<Rightarrow> duration \<Rightarrow> DatagramWindow \<Rightarrow> u32 list" where
  "dw_gaps now since dw =
     filter (\<lambda>i. dw_queue dw i = None)
       (dropWhile (\<lambda>i. \<not> overdue now since (dw_queue dw) i)
         (range_rev (dw_lowest dw) (dw_highest dw)))"

lemma set_dw_gaps:
  assumes inv: "dw_inv dw"
  shows "i \<in> set (dw_gaps now since dw) \<longleftrightarrow> dw_gap now since dw i"
proof -
  let ?xs = "range_rev (dw_lowest dw) (dw_highest dw)"
  let ?od = "overdue now since (dw_queue dw)"
  note range = range_rev_facts [of "dw_lowest dw" "dw_highest dw"]
  have "i \<in> set (dw_gaps now since dw) \<longleftrightarrow>
      i \<in> set ?xs \<and> (\<exists>j \<in> set ?xs. ?od j \<and> i \<le> j) \<and> dw_queue dw i = None"
    by (simp add: dw_gaps_def set_dropWhile_descending [OF range(3,1)])
  also have "\<dots> \<longleftrightarrow> dw_gap now since dw i"
  proof
    assume *: "i \<in> set ?xs \<and> (\<exists>j \<in> set ?xs. ?od j \<and> i \<le> j) \<and> dw_queue dw i = None"
    then obtain j where j: "?od j" "i \<le> j" by blast
    with * overdue_held [OF j(1)] have "i < j" by (auto simp: order.strict_iff_order)
    with * j(1) show "dw_gap now since dw i" by (auto simp: range(2) dw_gap_def)
  next
    assume g: "dw_gap now since dw i"
    then obtain j where j: "?od j" "i < j" by (auto simp: dw_gap_def)
    have "u24 (dw_lowest dw) \<le> j \<and> j < u24 (dw_highest dw)"
      using dw_inv_held [OF inv overdue_held [OF j(1)]] .
    with g j show "i \<in> set ?xs \<and> (\<exists>j \<in> set ?xs. ?od j \<and> i \<le> j) \<and> dw_queue dw i = None"
      by (auto simp: range(2) dw_gap_def intro!: bexI [of _ j])
  qed
  finally show ?thesis .
qed

lemma dw_gap_bounds:
  assumes "dw_inv dw" and "dw_gap now since dw i"
  shows "u24 (dw_lowest dw) \<le> i" and "i < u24 (dw_highest dw)" and "unat i < 2 ^ 24"
proof -
  from assms(2) obtain j where lo: "u24 (dw_lowest dw) \<le> i" and j: "overdue now since (dw_queue dw) j" "i < j"
    by (auto simp: dw_gap_def)
  have "j < u24 (dw_highest dw)" using dw_inv_held [OF assms(1) overdue_held [OF j(1)]] by simp
  with j have hi: "i < u24 (dw_highest dw)" by simp
  show "u24 (dw_lowest dw) \<le> i" by (rule lo)
  show "i < u24 (dw_highest dw)" by (rule hi)
  show "unat i < 2 ^ 24"
    using hi assms(1) by (simp add: dw_inv_def u24_ok_iff_unat word_less_nat_alt)
qed

lemma sorted_dw_gaps: "sorted (rev (dw_gaps now since dw))" "distinct (dw_gaps now since dw)"
proof -
  note range = range_rev_facts [of "dw_lowest dw" "dw_highest dw"]
  show "distinct (dw_gaps now since dw)" using range(1) by (simp add: dw_gaps_def)
  have "sorted (rev (dropWhile P xs))" if "sorted (rev xs)" for P and xs :: "u32 list"
    using that by (induction xs) (auto simp: sorted_append)
  with range(3) show "sorted (rev (dw_gaps now since dw))"
    by (simp add: dw_gaps_def rev_filter sorted_wrt_filter)
qed

text \<open>The window with the reported indices marked, before the final shift.\<close>

definition dw_marked :: "instant \<Rightarrow> (u32 \<Rightarrow> instant) \<Rightarrow> duration \<Rightarrow> DatagramWindow \<Rightarrow> DatagramWindow" where
  "dw_marked now clk since dw =
     dw\<lparr>dw_queue := (\<lambda>i. if i \<in> set (dw_gaps now since dw) then Some (clk i - int (from_secs 3600))
                         else dw_queue dw i)\<rparr>"

lemma dw_missing_eq:
  "dw_missing now clk since dw =
     (fst (dw_shift (dw_marked now clk since dw)), map u24_new (dw_gaps now since dw))"
  using missing_loop_spec [OF range_rev_facts(1), where q = "dw_queue dw" and acc = "[]"]
  by (simp add: dw_missing_def dw_marked_def dw_gaps_def Let_def)

lemma dw_inv_marked:
  assumes inv: "dw_inv dw"
  shows "dw_inv (dw_marked now clk since dw)"
proof -
  have "u24 (dw_lowest dw) \<le> i \<and> i < u24 (dw_highest dw)"
    if "i \<in> dom (dw_queue (dw_marked now clk since dw))" for i
  proof (cases "dw_gap now since dw i")
    case True
    then show ?thesis using dw_gap_bounds(1,2) [OF inv] by blast
  next
    case False
    then have "dw_queue dw i \<noteq> None"
      using that by (auto simp: dw_marked_def set_dw_gaps [OF inv] split: if_splits)
    then show ?thesis by (rule dw_inv_held [OF inv])
  qed
  with inv show ?thesis by (simp add: dw_inv_def dw_marked_def)
qed

lemma dw_missing_indices:
  assumes inv: "dw_inv dw"
  shows "set (snd (dw_missing now clk since dw)) = {v. u24_ok v \<and> dw_gap now since dw (u24 v)}"
    and "sorted (rev (snd (dw_missing now clk since dw)))"
    and "distinct (snd (dw_missing now clk since dw))"
proof -
  let ?gaps = "dw_gaps now since dw"
  have new: "u24 (u24_new i) = i" if "i \<in> set ?gaps" for i
    using that dw_gap_bounds(3) [OF inv] by (simp add: set_dw_gaps [OF inv] u24_new_small)
  have idx: "snd (dw_missing now clk since dw) = map u24_new ?gaps" by (simp add: dw_missing_eq)
  show "set (snd (dw_missing now clk since dw)) = {v. u24_ok v \<and> dw_gap now since dw (u24 v)}"
  proof (intro set_eqI iffI)
    fix v
    assume "v \<in> set (snd (dw_missing now clk since dw))"
    then show "v \<in> {v. u24_ok v \<and> dw_gap now since dw (u24 v)}"
      using new by (auto simp: idx set_dw_gaps [OF inv])
  next
    fix v
    assume "v \<in> {v. u24_ok v \<and> dw_gap now since dw (u24 v)}"
    then show "v \<in> set (snd (dw_missing now clk since dw))"
      unfolding idx set_map by (intro image_eqI [of _ _ "u24 v"]) (simp_all add: set_dw_gaps [OF inv])
  qed
  have "inj_on u24_new (set ?gaps)" using new by (intro inj_on_inverseI [of _ u24])
  then show "distinct (snd (dw_missing now clk since dw))"
    using sorted_dw_gaps(2) by (simp add: idx distinct_map)
  have "sorted_wrt (\<lambda>x y. u24_new x \<le> u24_new y) (rev ?gaps)"
    using sorted_dw_gaps(1) by (rule sorted_wrt_mono_rel [rotated]) (use new in \<open>simp add: less_eq_Uint24_def\<close>)
  then show "sorted (rev (snd (dw_missing now clk since dw)))" by (simp add: idx rev_map sorted_wrt_map)
qed

lemma dw_missing_window:
  assumes inv: "dw_inv dw" and dw': "dw' = fst (dw_missing now clk since dw)"
  shows "dw_inv dw'" and "dw_highest dw' = dw_highest dw" and "dw_lowest dw \<le> dw_lowest dw'"
    and "u24_ok i \<Longrightarrow>
      dw_seen dw' i \<longleftrightarrow> dw_seen dw i \<or> i \<in> set (snd (dw_missing now clk since dw))"
    and "overdue now since (dw_queue dw) j \<Longrightarrow> j < u24 (dw_lowest dw')"
proof -
  let ?dw1 = "dw_marked now clk since dw"
  have lo1: "dw_lowest ?dw1 = dw_lowest dw" "dw_highest ?dw1 = dw_highest dw"
    by (simp_all add: dw_marked_def)
  have marked: "dw_queue ?dw1 i \<noteq> None \<longleftrightarrow> dw_gap now since dw i \<or> dw_queue dw i \<noteq> None" for i
    by (auto simp: dw_marked_def set_dw_gaps [OF inv])
  obtain n where sh: "dw_shift ?dw1 = (dw', n)"
    using dw' by (cases "dw_shift ?dw1") (simp add: dw_missing_eq)
  note spec = dw_shift_spec [OF dw_inv_marked [OF inv] sh]
  show "dw_inv dw'" by (rule spec(1))
  show "dw_highest dw' = dw_highest dw" "dw_lowest dw \<le> dw_lowest dw'" using spec(2,3) lo1 by simp_all
  show "u24_ok i \<Longrightarrow>
      dw_seen dw' i \<longleftrightarrow> dw_seen dw i \<or> i \<in> set (snd (dw_missing now clk since dw))"
    using spec(7) [of i] marked [of "u24 i"] dw_missing_indices(1) [OF inv, of now clk since] lo1
    by (auto simp: dw_seen_def)
  show "j < u24 (dw_lowest dw')" if od: "overdue now since (dw_queue dw) j"
  proof (rule ccontr)
    let ?lo = "u24 (dw_lowest dw')"
    assume "\<not> j < ?lo"
    then have le: "?lo \<le> j" by simp
    have "j < u24 (dw_highest dw)" using dw_inv_held [OF inv overdue_held [OF od]] by simp
    with le have "dw_queue ?dw1 ?lo = None" using spec(5) lo1 by simp
    with marked have none: "\<not> dw_gap now since dw ?lo" "dw_queue dw ?lo = None" by blast+
    then have "?lo \<noteq> j" using overdue_held [OF od] by auto
    with le od none spec(3) lo1 show False
      by (auto simp: dw_gap_def less_eq_Uint24_def order.strict_iff_order)
  qed
qed

section \<open>The window is a sequence filter\<close>

text \<open>The maintenance the connection performs on the window between two datagrams.\<close>

datatype dw_tidy = Shift | Missing instant "u32 \<Rightarrow> instant" duration

fun dw_tidy_op :: "dw_tidy \<Rightarrow> DatagramWindow \<Rightarrow> DatagramWindow" where
  "dw_tidy_op Shift dw = fst (dw_shift dw)"
| "dw_tidy_op (Missing now clk since) dw = fst (dw_missing now clk since dw)"

lemma dw_shift_inv: "dw_inv dw \<Longrightarrow> dw_inv (fst (dw_shift dw))"
  by (cases "dw_shift dw") (auto dest: dw_shift_spec(1))

lemma dw_shift_seen: "dw_inv dw \<Longrightarrow> dw_seen (fst (dw_shift dw)) i \<longleftrightarrow> dw_seen dw i"
  by (cases "dw_shift dw") (auto dest: dw_shift_spec(7))

interpretation window_filter: sequence_filter dw_inv u24_inner dw_seen dw_add dw_tidy_op
proof
  fix dw m
  assume inv: "dw_inv dw"
  then show "dw_inv (dw_tidy_op m dw)"
    by (cases m) (simp_all add: dw_shift_inv dw_missing_window(1))
  fix j
  assume "u24_inner j" "dw_seen dw j"
  with inv show "dw_seen (dw_tidy_op m dw) j"
    by (cases m) (simp_all add: dw_shift_seen dw_missing_window(4) u24_inner_ok)
qed (simp_all add: dw_inv_add dw_add_result dw_add_seen)

section \<open>In-order reception and the wrap\<close>

text \<open>Receiving a datagram: add, then shift.\<close>

definition dw_receive :: "instant \<Rightarrow> Uint24 \<Rightarrow> DatagramWindow \<Rightarrow> DatagramWindow" where
  "dw_receive now v dw = fst (dw_shift (fst (dw_add now v dw)))"

definition dw_at :: "Uint24 \<Rightarrow> DatagramWindow" where
  "dw_at v = \<lparr>dw_lowest = v, dw_highest = v, dw_queue = Map.empty\<rparr>"

lemma dw_receive_next:
  assumes "u24_inner v"
  shows "dw_receive now v (dw_at v) = dw_at (u24_new (u24 v + 1))"
proof -
  have succ: "unat (u24 v + 1) = unat (u24 v) + 1" "u24 (u24_new (u24 v + 1)) = u24 v + 1"
    using u24_inner_succ [OF assms] by simp_all
  then have lt: "u24 v < u24 v + 1" by (simp add: word_less_nat_alt)
  have "shift_loop (u24 v + 1) (u24 v) [u24 v \<mapsto> now] 0 = (u24 v + 1, Map.empty, 1)"
    using lt by (simp add: shift_loop.simps [of _ "u24 v"] shift_loop.simps [of _ "u24 v + 1"])
  then show ?thesis
    using lt succ by (simp add: dw_receive_def dw_at_def dw_add_def dw_seen_def dw_shift_def Let_def)
qed

text \<open>All datagrams below \<open>n\<close> received in order, at instants \<open>ts\<close>.\<close>

fun dw_in_order :: "(nat \<Rightarrow> instant) \<Rightarrow> nat \<Rightarrow> DatagramWindow" where
  "dw_in_order ts 0 = dw_new"
| "dw_in_order ts (Suc n) = dw_receive (ts n) (Uint24 (of_nat n)) (dw_in_order ts n)"

lemma dw_in_order_eq: "n < 2 ^ 24 \<Longrightarrow> dw_in_order ts n = dw_at (Uint24 (of_nat n))"
proof (induction n)
  case 0
  then show ?case by (simp add: dw_new_def dw_at_def u24_new_def)
next
  case (Suc n)
  have u: "unat (of_nat n :: u32) = n" "unat (of_nat (Suc n) :: u32) = Suc n"
    using Suc.prems unsigned_of_nat [of n, where ?'a = nat and ?'b = 32]
      unsigned_of_nat [of "Suc n", where ?'a = nat and ?'b = 32]
    by (auto simp: take_bit_nat_eq_self simp del: unsigned_of_nat of_nat_Suc)
  then have v: "u24_inner (Uint24 (of_nat n))"
    using Suc.prems by (simp add: u24_inner_def word_less_nat_alt)
  have "u24_new (of_nat n + 1) = Uint24 (of_nat (Suc n))"
    using u24_new_small [of "of_nat (Suc n)"] u Suc.prems by (simp add: Uint24.expand add.commute)
  with Suc v show ?case by (simp add: dw_receive_next)
qed

lemma dw_add_last:
  assumes "\<not> dw_seen dw (Uint24 0xFFFFFF)" and "u24_ok (dw_highest dw)"
  shows "dw_add now (Uint24 0xFFFFFF) dw =
    (dw\<lparr>dw_highest := Uint24 0, dw_queue := (dw_queue dw)(0xFFFFFF \<mapsto> now)\<rparr>, True)"
  using assms by (simp add: dw_add_def Let_def u24_ok_def u24_new_def u24_mask_def)

section \<open>Properties\<close>

text \<open>
  C24. Duplicate suppression: over any sequence of arriving datagrams, shifts and missing-reports
  on a fresh window, no sequence number is accepted twice (for numbers below \<open>2 ^ 24 - 1\<close>).
\<close>

theorem window_accepts_once:
  assumes "list_all window_filter.valid_op ops"
  shows "distinct (snd (window_filter.run ops dw_new))
    \<and> dw_inv (fst (window_filter.run ops dw_new))"
  using window_filter.run_accepts_once [OF dw_inv_new assms]
    window_filter.run_inv [OF dw_inv_new assms] by simp

theorem window_accepts_once_witness:
  "distinct (snd (window_filter.run [Offer 5 (Uint24 0), Tidy Shift, Offer 6 (Uint24 2), Offer 7 (Uint24 0)] dw_new))"
  using window_accepts_once [of "[Offer 5 (Uint24 0), Tidy Shift, Offer 6 (Uint24 2), Offer 7 (Uint24 0)]"]
  by (simp add: u24_inner_def)

text \<open>
  C30. \<open>shift\<close> moves the lower bound to the first index not held, or to the upper bound: the
  indices passed are exactly the held run, the count returned is their number, and which
  indices count as seen is unchanged.
\<close>

theorem shift_correct:
  assumes "dw_inv dw"
  shows "case dw_shift dw of (dw', n) \<Rightarrow>
    dw_inv dw' \<and> dw_highest dw' = dw_highest dw
    \<and> unat (u24 (dw_lowest dw')) = unat (u24 (dw_lowest dw)) + n
    \<and> (\<forall>i. u24 (dw_lowest dw) \<le> i \<and> i < u24 (dw_lowest dw') \<longrightarrow> dw_queue dw i \<noteq> None)
    \<and> (dw_lowest dw' = dw_highest dw \<or> dw_queue dw (u24 (dw_lowest dw')) = None)
    \<and> (\<forall>i. dw_seen dw' i = dw_seen dw i)"
proof -
  obtain dw' n where sh: "dw_shift dw = (dw', n)" by (cases "dw_shift dw")
  note spec = dw_shift_spec [OF assms sh]
  have le: "dw_lowest dw' \<le> dw_highest dw" using spec(1,2) by (simp add: dw_inv_def)
  have "dw_lowest dw' = dw_highest dw \<or> dw_queue dw (u24 (dw_lowest dw')) = None"
    using spec(5) le Uint24.expand [of "dw_lowest dw'" "dw_highest dw"]
    by (cases "u24 (dw_lowest dw') = u24 (dw_highest dw)")
      (auto simp: less_eq_Uint24_def order.strict_iff_order)
  moreover have "unat (u24 (dw_lowest dw')) = unat (u24 (dw_lowest dw)) + n"
    using spec(3,4) by (simp add: u24_le_iff)
  ultimately show ?thesis using spec(1,2,6,7) by (simp add: sh)
qed

theorem shift_correct_witness:
  "dw_seen (fst (dw_shift (dw_at (Uint24 4)))) (Uint24 3) = dw_seen (dw_at (Uint24 4)) (Uint24 3)"
  using shift_correct [of "dw_at (Uint24 4)"]
  by (auto simp: dw_inv_def dw_at_def u24_ok_def split: prod.splits)

text \<open>
  C29. \<open>missing\<close> reports, in descending order and without repetition, exactly the absent indices
  of the window below some overdue one; from then on these count as received, and the window
  starts above every overdue index.
\<close>

theorem missing_correct:
  assumes "dw_inv dw"
  shows "case dw_missing now clk since dw of (dw', indices) \<Rightarrow>
    set indices = {v. u24_ok v \<and> \<not> dw_seen dw v
                      \<and> (\<exists>j. overdue now since (dw_queue dw) j \<and> u24 v < j)}
    \<and> sorted (rev indices) \<and> distinct indices \<and> dw_inv dw'
    \<and> (\<forall>v. u24_ok v \<longrightarrow> dw_seen dw' v = (dw_seen dw v \<or> v \<in> set indices))
    \<and> (\<forall>j. overdue now since (dw_queue dw) j \<longrightarrow> j < u24 (dw_lowest dw'))"
proof -
  obtain dw' indices where m: "dw_missing now clk since dw = (dw', indices)"
    by (cases "dw_missing now clk since dw")
  have gap: "dw_gap now since dw (u24 v) \<longleftrightarrow>
      \<not> dw_seen dw v \<and> (\<exists>j. overdue now since (dw_queue dw) j \<and> u24 v < j)" for v
    by (auto simp: dw_gap_def dw_seen_def not_less)
  have dw': "dw' = fst (dw_missing now clk since dw)" using m by simp
  show ?thesis
    using dw_missing_indices [OF assms, of now clk since] dw_missing_window [OF assms dw'] m gap
    by auto
qed

theorem missing_correct_witness:
  "case dw_missing 100 (\<lambda>i. 0) 10 (dw_new\<lparr>dw_highest := Uint24 3, dw_queue := [2 \<mapsto> 5]\<rparr>) of
     (dw', indices) \<Rightarrow> distinct indices \<and> 2 < u24 (dw_lowest dw')"
  using missing_correct [where dw = "dw_new\<lparr>dw_highest := Uint24 3, dw_queue := [2 \<mapsto> 5]\<rparr>"
      and now = 100 and clk = "\<lambda>i. 0" and since = 10]
  by (auto simp: dw_inv_def dw_new_def u24_ok_def u24_new_def less_eq_Uint24_def overdue_def
      duration_since_def split: prod.splits)

text \<open>
  The window does not survive the wrap of the sequence numbers: after the first
  \<open>2 ^ 24 - 1\<close> datagrams in order, the next one is accepted but can never be shifted past, the
  window size underflows (a panic under overflow checks, a size above any limit otherwise), and
  every later datagram is refused as already seen.
\<close>

theorem window_stuck_after_wrap:
  "let dw = dw_in_order ts 0xFFFFFF;
       (dw', accepted) = dw_add t (Uint24 0xFFFFFF) dw
   in accepted \<and> dw_shift dw' = (dw', 0)
      \<and> dw_size Debug dw' = Panic \<and> dw_size Release dw' = Ok 0xFF000001
      \<and> (\<forall>t v. u24_ok v \<longrightarrow> \<not> snd (dw_add t v dw'))"
proof -
  have dw: "dw_in_order ts 0xFFFFFF = dw_at (Uint24 0xFFFFFF)"
    using dw_in_order_eq [of "0xFFFFFF" ts] by simp
  let ?dw = "\<lparr>dw_lowest = Uint24 0xFFFFFF, dw_highest = Uint24 0, dw_queue = [0xFFFFFF \<mapsto> t]\<rparr>"
  have add: "dw_add t (Uint24 0xFFFFFF) (dw_at (Uint24 0xFFFFFF)) = (?dw, True)"
    by (subst dw_add_last) (simp_all add: dw_at_def dw_seen_def u24_ok_def)
  have shift: "dw_shift ?dw = (?dw, 0)"
    by (simp add: dw_shift_def shift_loop.simps u24_new_def u24_mask_def)
  have "v = 0xFFFFFF" if "\<not> v < 0xFFFFFF" "v < 0x1000000" for v :: u32
    using that by (auto simp: word_less_nat_alt word_unat_eq_iff)
  then have "\<not> snd (dw_add t' v ?dw)" if "u24_ok v" for t' v
    using that by (auto simp: dw_add_result dw_seen_def u24_ok_def)
  then show ?thesis
    by (simp add: dw add shift dw_size_def sub_ovf_def)
qed

theorem window_stuck_after_wrap_witness:
  "let dw' = fst (dw_add 1 (Uint24 0xFFFFFF) (dw_in_order (\<lambda>n. 0) 0xFFFFFF))
   in dw_size Debug dw' = Panic \<and> \<not> snd (dw_add 2 (Uint24 0) dw')"
  using window_stuck_after_wrap [of "\<lambda>n. 0" 1]
  by (auto simp: Let_def u24_ok_def split: prod.splits)

text \<open>
  A peer reaches the same underflow with one datagram: on any window that has shifted past
  zero, the unseen number \<open>2 ^ 24 - 1\<close> resets the upper bound to zero.
\<close>

theorem last_index_underflows_size:
  assumes "dw_inv dw" and "0 < u24 (dw_lowest dw)" and "\<not> dw_seen dw (Uint24 0xFFFFFF)"
  shows "dw_size Debug (fst (dw_add now (Uint24 0xFFFFFF) dw)) = Panic
    \<and> (\<exists>size. dw_size Release (fst (dw_add now (Uint24 0xFFFFFF) dw)) = Ok size \<and> 2048 < size)"
proof -
  have hi: "u24_ok (dw_highest dw)" and lo: "unat (u24 (dw_lowest dw)) < 2 ^ 24"
    using assms(1) by (simp_all add: dw_inv_def u24_ok_iff_unat)
  have "unat (0 - u24 (dw_lowest dw)) = 2 ^ 32 - unat (u24 (dw_lowest dw))"
    using assms(2) unat_sub_if' [of 0 "u24 (dw_lowest dw)"] by (simp add: word_less_nat_alt)
  with lo have "2048 < 0 - u24 (dw_lowest dw)" by (simp add: word_less_nat_alt)
  with assms(2) show ?thesis
    by (simp add: dw_add_last [OF assms(3) hi] dw_size_def sub_ovf_def)
qed

theorem last_index_underflows_size_witness:
  "dw_size Debug (fst (dw_add 7 (Uint24 0xFFFFFF) (dw_at (Uint24 5)))) = Panic"
  using last_index_underflows_size [of "dw_at (Uint24 5)" 7]
  by (simp add: dw_inv_def dw_at_def u24_ok_def dw_seen_def)

end
