(* ===== verification/Packet_Queue.thy ===== *)
theory Packet_Queue
  imports Binary Sequence_Filter
begin

text \<open>
  The queue that puts ordered packets back into order, \<open>src/packet_queue.rs\<close>, and its abstract
  specification: a stream of packets indexed from zero of which a growing prefix has been
  delivered.
\<close>

unbundle bit_operations_syntax

record PacketQueue =
  pq_lowest :: Uint24
  pq_highest :: Uint24
  pq_queue :: "u32 \<rightharpoonup> bytes"

definition pq_new :: PacketQueue where
  "pq_new = \<lparr>pq_lowest = u24_new 0, pq_highest = u24_new 0, pq_queue = Map.empty\<rparr>"

definition pq_put :: "Uint24 \<Rightarrow> bytes \<Rightarrow> PacketQueue \<Rightarrow> PacketQueue \<times> bool" where
  "pq_put index packet self =
     (if u24 index < u24 (pq_lowest self) then (self, False)
      else if pq_queue self (u24 index) \<noteq> None then (self, False)
      else
        let self = (if u24 index \<ge> u24 (pq_highest self)
                    then self\<lparr>pq_highest := u24_new (u24 index + 1)\<rparr> else self)
        in (self\<lparr>pq_queue := (pq_queue self)(u24 index \<mapsto> packet)\<rparr>, True))"

function fetch_loop ::
  "u32 \<Rightarrow> u32 \<Rightarrow> (u32 \<rightharpoonup> bytes) \<Rightarrow> bytes list \<Rightarrow> u32 \<times> (u32 \<rightharpoonup> bytes) \<times> bytes list" where
  "fetch_loop highest index queue packets =
     (if index < highest then
        case queue index of
          Some packet \<Rightarrow> fetch_loop highest (index + 1) (queue(index := None)) (packets @ [packet])
        | None \<Rightarrow> (index, queue, packets)
      else (index, queue, packets))"
  by pat_completeness auto
termination
proof (relation "measure (\<lambda>(highest, index, queue, packets). unat highest - unat index)")
  fix highest index :: u32 and queue :: "u32 \<rightharpoonup> bytes" and packets :: "bytes list" and packet
  assume less: "index < highest"
  then have "unat (index + 1) = unat index + 1" by (rule unat_succ_less)
  with less show "((highest, index + 1, queue(index := None), packets @ [packet]),
      highest, index, queue, packets)
      \<in> measure (\<lambda>(highest, index, queue, packets). unat highest - unat index)"
    by (simp add: word_less_nat_alt)
qed simp

declare fetch_loop.simps [simp del]

definition pq_fetch :: "PacketQueue \<Rightarrow> PacketQueue \<times> bytes list" where
  "pq_fetch self =
     (case fetch_loop (u24 (pq_highest self)) (u24 (pq_lowest self)) (pq_queue self) [] of
        (index, queue, packets) \<Rightarrow>
          (self\<lparr>pq_queue := queue, pq_lowest := u24_new index\<rparr>, packets))"

definition pq_window_size :: "profile \<Rightarrow> PacketQueue \<Rightarrow> u32 outcome" where
  "pq_window_size prof self = sub_ovf prof (u24 (pq_highest self)) (u24 (pq_lowest self))"

section \<open>The invariant\<close>

definition pq_inv :: "PacketQueue \<Rightarrow> bool" where
  "pq_inv q \<longleftrightarrow> u24_ok (pq_lowest q) \<and> u24_ok (pq_highest q) \<and> pq_lowest q \<le> pq_highest q
     \<and> (\<forall>i \<in> dom (pq_queue q). u24 (pq_lowest q) \<le> i \<and> i < u24 (pq_highest q))"

definition pq_seen :: "PacketQueue \<Rightarrow> Uint24 \<Rightarrow> bool" where
  "pq_seen q i \<longleftrightarrow> u24 i < u24 (pq_lowest q) \<or> pq_queue q (u24 i) \<noteq> None"

lemma pq_inv_new: "pq_inv pq_new"
  by (simp add: pq_inv_def pq_new_def)

lemma pq_put_result: "snd (pq_put i c q) \<longleftrightarrow> \<not> pq_seen q i"
  by (simp add: pq_put_def pq_seen_def Let_def)

lemma pq_put_seen: "pq_seen (fst (pq_put i c q)) j \<longleftrightarrow> pq_seen q j \<or> j = i"
  by (auto simp: pq_put_def pq_seen_def Let_def Uint24.expand split: if_splits)

lemma pq_put_lowest [simp]: "pq_lowest (fst (pq_put i c q)) = pq_lowest q"
  by (simp add: pq_put_def Let_def)

lemma pq_put_queue:
  "pq_queue (fst (pq_put i c q)) =
     (if pq_seen q i then pq_queue q else (pq_queue q)(u24 i \<mapsto> c))"
  by (auto simp: pq_put_def pq_seen_def Let_def)

lemma pq_inv_put:
  assumes inv: "pq_inv q" and v: "u24_inner i"
  shows "pq_inv (fst (pq_put i c q))"
proof (cases "pq_seen q i")
  case True
  with inv show ?thesis by (auto simp: pq_put_def pq_seen_def)
next
  case fresh: False
  then have lo: "u24 (pq_lowest q) \<le> u24 i" by (auto simp: pq_seen_def)
  have succ: "unat (u24 i + 1) = unat (u24 i) + 1" "u24 (u24_new (u24 i + 1)) = u24 i + 1"
    using u24_inner_succ [OF v] by simp_all
  have held: "unat j < unat (u24 (pq_highest q))" if "pq_queue q j = Some t" for j t
    using inv that by (auto simp: pq_inv_def word_less_nat_alt)
  show ?thesis
  proof (cases "u24 (pq_highest q) \<le> u24 i")
    case grow: True
    have "unat j < Suc (unat (u24 i))" if "pq_queue q j = Some t" for j t
      using held [OF that] grow by (simp add: word_le_nat_alt)
    with inv lo succ fresh grow show ?thesis
      by (auto simp: pq_inv_def pq_put_def pq_seen_def Let_def u24_le_iff word_less_nat_alt
          word_le_nat_alt)
  next
    case False
    with inv lo fresh show ?thesis
      by (auto simp: pq_inv_def pq_put_def pq_seen_def Let_def)
  qed
qed

section \<open>Fetching\<close>

lemma fetch_loop_spec:
  "i \<le> h \<Longrightarrow> fetch_loop h i q ps = (k, q', ps') \<Longrightarrow>
     i \<le> k \<and> k \<le> h
     \<and> (\<forall>j. i \<le> j \<and> j < k \<longrightarrow> q j \<noteq> None) \<and> (k < h \<longrightarrow> q k = None)
     \<and> ps' = ps @ map (\<lambda>j. the (q (of_nat j))) [unat i ..< unat k]
     \<and> q' = (\<lambda>j. if i \<le> j \<and> j < k then None else q j)"
proof (induction h i q ps rule: fetch_loop.induct)
  case (1 h i q ps)
  show ?case
  proof (cases "i < h \<and> q i \<noteq> None")
    case False
    with "1.prems" have "(k, q', ps') = (i, q, ps)"
      by (subst (asm) fetch_loop.simps) (auto split: if_splits)
    with "1.prems"(1) False show ?thesis by (auto simp: fun_eq_iff)
  next
    case True
    then obtain c where c: "q i = Some c" by blast
    have step: "fetch_loop h (i + 1) (q(i := None)) (ps @ [c]) = (k, q', ps')"
      using "1.prems"(2) True c by (subst (asm) fetch_loop.simps) simp
    have le: "i + 1 \<le> h" using True succ_le_of_less [of i h] by simp
    have u: "unat (i + 1) = unat i + 1" using True unat_succ_less [of i h] by simp
    have lt: "j < i + 1 \<longleftrightarrow> j \<le> i" "i + 1 \<le> j \<longleftrightarrow> i < j" for j
      using u by (auto simp: word_less_nat_alt word_le_nat_alt)
    have IH: "i + 1 \<le> k" "k \<le> h"
      "\<forall>j. i + 1 \<le> j \<and> j < k \<longrightarrow> (q(i := None)) j \<noteq> None" "k < h \<longrightarrow> (q(i := None)) k = None"
      "ps' = (ps @ [c]) @ map (\<lambda>j. the ((q(i := None)) (of_nat j))) [unat (i + 1) ..< unat k]"
      "q' = (\<lambda>j. if i + 1 \<le> j \<and> j < k then None else (q(i := None)) j)"
      using "1.IH" [OF _ c le step] True by auto
    have ik: "i < k" using IH(1) lt by simp
    then have uik: "unat i < unat k" by (simp add: word_less_nat_alt)
    have "the ((q(i := None)) (of_nat j)) = the (q (of_nat j))" if "j \<in> set [unat (i + 1) ..< unat k]" for j
    proof -
      have "unat k < 2 ^ LENGTH(32)" by (rule unsigned_less)
      with that have "j < 2 ^ LENGTH(32)" by simp
      then have "unat (of_nat j :: u32) = j" by (simp add: unsigned_of_nat take_bit_nat_eq_self)
      then have "(of_nat j :: u32) \<noteq> i" using that u by auto
      then show ?thesis by simp
    qed
    then have "ps' = ps @ c # map (\<lambda>j. the (q (of_nat j))) [unat i + 1 ..< unat k]"
      using IH(5) u by simp
    also have "\<dots> = ps @ map (\<lambda>j. the (q (of_nat j))) [unat i ..< unat k]"
      using uik c by (simp add: upt_conv_Cons)
    finally have ps: "ps' = ps @ map (\<lambda>j. the (q (of_nat j))) [unat i ..< unat k]" .
    have held: "q j \<noteq> None" if "i \<le> j" "j < k" for j
    proof (cases "j = i")
      case False
      with that have "i + 1 \<le> j" using lt by simp
      with IH(3) that have "(q(i := None)) j \<noteq> None" by blast
      with False show ?thesis by simp
    qed (use c in simp)
    have gap: "q k = None" if "k < h" using IH(4) that ik by (auto split: if_splits)
    have "q' = (\<lambda>j. if i \<le> j \<and> j < k then None else q j)"
      using IH(6) lt ik by (auto simp: fun_eq_iff)
    with held gap ps IH(2) ik show ?thesis by (auto simp: less_imp_le)
  qed
qed

lemma pq_fetch_spec:
  assumes inv: "pq_inv q" and fetch: "pq_fetch q = (q', ps)"
  shows "pq_inv q'" and "pq_highest q' = pq_highest q" and "pq_lowest q \<le> pq_lowest q'"
    and "ps = map (\<lambda>j. the (pq_queue q (of_nat j))) [unat (u24 (pq_lowest q)) ..< unat (u24 (pq_lowest q'))]"
    and "pq_queue q (u24 (pq_lowest q')) = None"
    and "u24 (pq_lowest q) \<le> j \<Longrightarrow> j < u24 (pq_lowest q') \<Longrightarrow> pq_queue q j \<noteq> None"
    and "pq_queue q' = (\<lambda>j. if j < u24 (pq_lowest q') then None else pq_queue q j)"
    and "pq_seen q' i \<longleftrightarrow> pq_seen q i"
proof -
  obtain k m where loop: "fetch_loop (u24 (pq_highest q)) (u24 (pq_lowest q)) (pq_queue q) [] = (k, m, ps)"
    and q': "q' = q\<lparr>pq_queue := m, pq_lowest := u24_new k\<rparr>"
    using fetch by (auto simp: pq_fetch_def split: prod.splits)
  have le: "u24 (pq_lowest q) \<le> u24 (pq_highest q)"
    using inv by (simp add: pq_inv_def less_eq_Uint24_def)
  note spec = fetch_loop_spec [OF le loop]
  have "unat k < 2 ^ 24"
    using spec inv by (auto simp: pq_inv_def u24_ok_iff_unat word_le_nat_alt)
  then have k: "u24 (u24_new k) = k" by (rule u24_new_small)
  have below: "pq_queue q j = None" if "\<not> (u24 (pq_lowest q) \<le> j \<and> j < u24 (pq_highest q))" for j
    using inv that by (auto simp: pq_inv_def dom_def)
  show "pq_inv q'" and "pq_highest q' = pq_highest q" and "pq_lowest q \<le> pq_lowest q'"
    using spec inv k by (auto simp: q' pq_inv_def less_eq_Uint24_def dom_def not_less split: if_splits)
  show "ps = map (\<lambda>j. the (pq_queue q (of_nat j))) [unat (u24 (pq_lowest q)) ..< unat (u24 (pq_lowest q'))]"
    using spec k by (simp add: q')
  show "pq_queue q (u24 (pq_lowest q')) = None"
    using spec k below [of k] by (cases "k < u24 (pq_highest q)") (auto simp: q')
  show "u24 (pq_lowest q) \<le> j \<Longrightarrow> j < u24 (pq_lowest q') \<Longrightarrow> pq_queue q j \<noteq> None"
    using spec k by (simp add: q')
  show "pq_queue q' = (\<lambda>j. if j < u24 (pq_lowest q') then None else pq_queue q j)"
    using spec k below by (auto simp: q' fun_eq_iff)
  show "pq_seen q' i \<longleftrightarrow> pq_seen q i"
    using spec k by (auto simp: q' pq_seen_def not_less)
qed

lemma pq_fetch_inv: "pq_inv q \<Longrightarrow> pq_inv (fst (pq_fetch q))"
  by (cases "pq_fetch q") (auto dest: pq_fetch_spec(1))

lemma pq_fetch_seen: "pq_inv q \<Longrightarrow> pq_seen (fst (pq_fetch q)) i \<longleftrightarrow> pq_seen q i"
  by (cases "pq_fetch q") (auto dest: pq_fetch_spec(8))

interpretation order_filter: exact_sequence_filter pq_inv u24_inner pq_seen
  "\<lambda>c i q. pq_put i c q" "\<lambda>(_ :: unit) q. fst (pq_fetch q)"
  by unfold_locales
    (simp_all add: pq_inv_put pq_put_result pq_put_seen pq_fetch_inv pq_fetch_seen)

section \<open>The abstract specification\<close>

text \<open>
  The stream of packets accepted so far, by position, and how many of them were delivered. A
  packet is accepted for a position once; a delivery hands over the longest prefix available.
\<close>

record reorder =
  stream :: "nat \<rightharpoonup> bytes"
  delivered :: nat

definition reorder_new :: reorder where
  "reorder_new = \<lparr>stream = Map.empty, delivered = 0\<rparr>"

definition reorder_put :: "nat \<Rightarrow> bytes \<Rightarrow> reorder \<Rightarrow> reorder \<times> bool" where
  "reorder_put i c r =
     (if stream r i = None then (r\<lparr>stream := (stream r)(i \<mapsto> c)\<rparr>, True) else (r, False))"

text \<open>\<open>k\<close> is the next delivery point of \<open>r\<close>.\<close>

definition reorder_stop :: "reorder \<Rightarrow> nat \<Rightarrow> bool" where
  "reorder_stop r k \<longleftrightarrow>
     delivered r \<le> k \<and> (\<forall>i. delivered r \<le> i \<and> i < k \<longrightarrow> stream r i \<noteq> None) \<and> stream r k = None"

definition reorder_out :: "reorder \<Rightarrow> nat \<Rightarrow> bytes list" where
  "reorder_out r k = map (\<lambda>i. the (stream r i)) [delivered r ..< k]"

text \<open>
  The simulation relation: the queue holds the undelivered part of the stream, and everything
  below the lowest index has been delivered.
\<close>

definition simulates :: "PacketQueue \<Rightarrow> reorder \<Rightarrow> bool" where
  "simulates q r \<longleftrightarrow> pq_inv q \<and> delivered r = unat (u24 (pq_lowest q))
     \<and> (\<forall>i < delivered r. stream r i \<noteq> None)
     \<and> (\<forall>i. delivered r \<le> i \<and> i < 2 ^ 24 \<longrightarrow> stream r i = pq_queue q (of_nat i))
     \<and> (\<forall>i \<ge> 2 ^ 24. stream r i = None)"

lemma simulates_new: "simulates pq_new reorder_new"
  by (simp add: simulates_def pq_inv_new) (simp add: pq_new_def reorder_new_def u24_new_def)

lemma simulates_seen:
  assumes "simulates q r" and "u24_ok v"
  shows "pq_seen q v \<longleftrightarrow> stream r (unat (u24 v)) \<noteq> None"
proof (cases "u24 v < u24 (pq_lowest q)")
  case True
  with assms show ?thesis by (auto simp: simulates_def pq_seen_def word_less_nat_alt)
next
  case False
  with assms have "stream r (unat (u24 v)) = pq_queue q (u24 v)"
    by (simp add: simulates_def word_less_nat_alt u24_ok_iff_unat)
  with False show ?thesis by (simp add: pq_seen_def)
qed

lemma put_simulates:
  assumes sim: "simulates q r" and v: "u24_inner v"
  shows "simulates (fst (pq_put v c q)) (fst (reorder_put (unat (u24 v)) c r))"
    and "snd (pq_put v c q) = snd (reorder_put (unat (u24 v)) c r)"
proof -
  have ok: "u24_ok v" using v by (rule u24_inner_ok)
  note seen = simulates_seen [OF sim ok]
  show "snd (pq_put v c q) = snd (reorder_put (unat (u24 v)) c r)"
    using seen by (simp add: pq_put_result reorder_put_def)
  have word: "(of_nat i :: u32) = u24 v \<longleftrightarrow> i = unat (u24 v)" if "i < 2 ^ 24" for i
  proof -
    have "unat (of_nat i :: u32) = i" using that by (simp add: unsigned_of_nat take_bit_nat_eq_self)
    then show ?thesis by (metis word_unat_eq_iff)
  qed
  have lt: "unat (u24 v) < 2 ^ 24" using ok by (simp add: u24_ok_iff_unat)
  show "simulates (fst (pq_put v c q)) (fst (reorder_put (unat (u24 v)) c r))"
  proof (cases "pq_seen q v")
    case True
    then have "fst (pq_put v c q) = q" "fst (reorder_put (unat (u24 v)) c r) = r"
      using seen by (auto simp: pq_put_def pq_seen_def reorder_put_def)
    with sim show ?thesis by simp
  next
    case False
    then have ge: "unat (u24 (pq_lowest q)) \<le> unat (u24 v)"
      by (auto simp: pq_seen_def word_less_nat_alt)
    from False seen have r': "fst (reorder_put (unat (u24 v)) c r)
        = r\<lparr>stream := (stream r)(unat (u24 v) \<mapsto> c)\<rparr>"
      by (simp add: reorder_put_def)
    have "pq_inv (fst (pq_put v c q))" using sim v by (simp add: simulates_def pq_inv_put)
    with sim False ge lt word show ?thesis
      unfolding simulates_def r' pq_put_queue by auto
  qed
qed

lemma fetch_simulates:
  assumes sim: "simulates q r" and fetch: "pq_fetch q = (q', ps)"
  shows "reorder_stop r (unat (u24 (pq_lowest q')))"
    and "ps = reorder_out r (unat (u24 (pq_lowest q')))"
    and "simulates q' (r\<lparr>delivered := unat (u24 (pq_lowest q'))\<rparr>)"
proof -
  let ?k = "unat (u24 (pq_lowest q'))"
  have inv: "pq_inv q" and d: "delivered r = unat (u24 (pq_lowest q))"
    using sim by (simp_all add: simulates_def)
  note spec = pq_fetch_spec [OF inv fetch]
  have k: "?k < 2 ^ 24" using spec(1) by (simp add: pq_inv_def u24_ok_iff_unat)
  have dk: "delivered r \<le> ?k" using spec(3) d by (simp add: u24_le_iff)
  have str: "stream r i = pq_queue q (of_nat i)" if "delivered r \<le> i" "i < 2 ^ 24" for i
    using sim that by (simp add: simulates_def)
  have of: "unat (of_nat i :: u32) = i" if "i < 2 ^ 24" for i
    using that by (simp add: unsigned_of_nat take_bit_nat_eq_self)
  have held: "stream r i \<noteq> None" if "delivered r \<le> i" "i < ?k" for i
    using spec(6) [of "of_nat i"] that str [of i] k d of [of i]
    by (simp add: word_le_nat_alt word_less_nat_alt)
  have stop: "stream r ?k = None" using str [OF dk k] spec(5) by simp
  show "reorder_stop r ?k" using dk held stop by (simp add: reorder_stop_def)
  show "ps = reorder_out r ?k"
    using spec(4) d str k by (auto simp: reorder_out_def)
  have "pq_queue q' (of_nat i) = stream r i" if "?k \<le> i" "i < 2 ^ 24" for i
    using spec(7) that str [of i] dk of [of i] by (simp add: word_less_nat_alt)
  moreover have "stream r i \<noteq> None" if "i < ?k" for i
    using held [of i] that sim by (cases "i < delivered r") (simp_all add: simulates_def)
  ultimately show "simulates q' (r\<lparr>delivered := ?k\<rparr>)"
    using sim spec(1) by (auto simp: simulates_def)
qed

section \<open>Whole runs\<close>

datatype pq_op = Put Uint24 bytes | Fetch

text \<open>A run over the queue, with everything it delivered in order.\<close>

fun pq_run :: "pq_op list \<Rightarrow> PacketQueue \<Rightarrow> PacketQueue \<times> bytes list" where
  "pq_run [] q = (q, [])"
| "pq_run (Put v c # ops) q = pq_run ops (fst (pq_put v c q))"
| "pq_run (Fetch # ops) q =
     (let (q', ps) = pq_fetch q; (q'', ps') = pq_run ops q' in (q'', ps @ ps'))"

fun pq_op_valid :: "pq_op \<Rightarrow> bool" where
  "pq_op_valid (Put v c) = u24_inner v"
| "pq_op_valid Fetch = True"

text \<open>The first packet put at each position.\<close>

fun first_put :: "pq_op list \<Rightarrow> nat \<rightharpoonup> bytes" where
  "first_put [] i = None"
| "first_put (Put v c # ops) i = (if i = unat (u24 v) then Some c else first_put ops i)"
| "first_put (Fetch # ops) i = first_put ops i"

text \<open>The final stream: what was there, and first puts elsewhere.\<close>

definition extended :: "reorder \<Rightarrow> pq_op list \<Rightarrow> nat \<rightharpoonup> bytes" where
  "extended r ops i = (case stream r i of Some c \<Rightarrow> Some c | None \<Rightarrow> first_put ops i)"

lemma extended_put:
  "extended (fst (reorder_put (unat (u24 v)) c r)) ops = extended r (Put v c # ops)"
  by (auto simp: extended_def reorder_put_def fun_eq_iff split: option.splits)

lemma delivered_put [simp]: "delivered (fst (reorder_put i c r)) = delivered r"
  by (simp add: reorder_put_def)

lemma pq_run_simulates:
  "simulates q r \<Longrightarrow> list_all pq_op_valid ops \<Longrightarrow> pq_run ops q = (q', out) \<Longrightarrow>
   simulates q' \<lparr>stream = extended r ops, delivered = unat (u24 (pq_lowest q'))\<rparr>
   \<and> delivered r \<le> unat (u24 (pq_lowest q'))
   \<and> out = map (\<lambda>i. the (extended r ops i)) [delivered r ..< unat (u24 (pq_lowest q'))]"
proof (induction ops q arbitrary: r q' out rule: pq_run.induct)
  case (1 q)
  then have "extended r [] = stream r" by (auto simp: extended_def fun_eq_iff split: option.splits)
  with 1 show ?case by (simp add: simulates_def)
next
  case (2 v c ops q)
  have "simulates (fst (pq_put v c q)) (fst (reorder_put (unat (u24 v)) c r))"
    using "2.prems" by (intro put_simulates(1)) simp_all
  from "2.IH" [OF this] "2.prems" show ?case by (simp add: extended_put)
next
  case (3 ops q)
  obtain q1 ps where fetch: "pq_fetch q = (q1, ps)" by (cases "pq_fetch q")
  obtain ps' where rest: "pq_run ops q1 = (q', ps')" and out: "out = ps @ ps'"
    using "3.prems"(3) fetch by (auto split: prod.splits)
  let ?k = "unat (u24 (pq_lowest q1))" and ?l = "unat (u24 (pq_lowest q'))"
  let ?r1 = "r\<lparr>delivered := ?k\<rparr>"
  note sim = fetch_simulates [OF "3.prems"(1) fetch]
  have ext: "extended ?r1 ops = extended r (Fetch # ops)"
    by (auto simp: extended_def fun_eq_iff split: option.splits)
  have IH: "simulates q' \<lparr>stream = extended ?r1 ops, delivered = ?l\<rparr>" "?k \<le> ?l"
      "ps' = map (\<lambda>i. the (extended ?r1 ops i)) [?k ..< ?l]"
    using "3.IH" [OF fetch [symmetric] refl sim(3) _ rest] "3.prems"(2) by simp_all
  have dk: "delivered r \<le> ?k" using sim(1) by (simp add: reorder_stop_def)
  have "the (extended r (Fetch # ops) i) = the (stream r i)" if "i \<in> set [delivered r ..< ?k]" for i
    using sim(1) that by (auto simp: reorder_stop_def extended_def split: option.splits)
  then have "ps = map (\<lambda>i. the (extended r (Fetch # ops) i)) [delivered r ..< ?k]"
    using sim(2) by (simp add: reorder_out_def)
  moreover have "[delivered r ..< ?l] = [delivered r ..< ?k] @ [?k ..< ?l]"
    using dk IH(2) upt_add_eq_append [OF dk, of "?l - ?k"] by simp
  ultimately show ?case using IH dk ext out by simp
qed

lemma delivered_new [simp]: "delivered reorder_new = 0"
  by (simp add: reorder_new_def)

lemma extended_new [simp]: "extended reorder_new ops = first_put ops"
  by (simp add: extended_def reorder_new_def fun_eq_iff)

lemma pq_run_snoc_fetch:
  "pq_run (ops @ [Fetch]) q =
     (let (q', out) = pq_run ops q; (q'', ps) = pq_fetch q' in (q'', out @ ps))"
  by (induction ops q rule: pq_run.induct) (auto split: prod.splits simp: Let_def)

lemma first_put_snoc_fetch [simp]: "first_put (ops @ [Fetch]) = first_put ops"
proof (rule ext)
  show "first_put (ops @ [Fetch]) i = first_put ops i" for i
    by (induction ops i rule: first_put.induct) auto
qed

section \<open>Properties\<close>

text \<open>
  Ordered exactly-once delivery: whatever the order and repetition in which packets are put
  into a fresh queue and whenever it is fetched, the packets delivered are, in order and without
  gap or repetition, the first ones put at positions 0, 1, 2, ...; and after a fetch nothing
  deliverable is left: the position at which delivery stands has not been put.
\<close>

theorem ordered_delivery:
  assumes "list_all pq_op_valid ops"
  shows "\<exists>k. snd (pq_run (ops @ [Fetch]) pq_new) = map (\<lambda>i. the (first_put ops i)) [0 ..< k]
    \<and> (\<forall>i < k. first_put ops i \<noteq> None) \<and> first_put ops k = None"
proof -
  obtain q out where run: "pq_run ops pq_new = (q, out)" by (cases "pq_run ops pq_new")
  obtain q' ps where fetch: "pq_fetch q = (q', ps)" by (cases "pq_fetch q")
  have all: "pq_run (ops @ [Fetch]) pq_new = (q', out @ ps)"
    by (simp add: pq_run_snoc_fetch run fetch)
  have valid: "list_all pq_op_valid (ops @ [Fetch])" using assms by simp
  let ?k = "unat (u24 (pq_lowest q'))"
  from pq_run_simulates [OF simulates_new valid all]
  have out: "out @ ps = map (\<lambda>i. the (first_put ops i)) [0 ..< ?k]"
    and sim: "simulates q' \<lparr>stream = first_put ops, delivered = ?k\<rparr>"
    by simp_all
  from pq_run_simulates [OF simulates_new assms run]
  have sim0: "simulates q \<lparr>stream = first_put ops, delivered = unat (u24 (pq_lowest q))\<rparr>" by simp
  from fetch_simulates(1) [OF sim0 fetch] have "first_put ops ?k = None"
    by (simp add: reorder_stop_def)
  with out sim all show ?thesis by (intro exI [of _ ?k]) (simp add: simulates_def)
qed

theorem ordered_delivery_witness:
  "\<exists>k. snd (pq_run ([Put (Uint24 1) [4], Fetch, Put (Uint24 0) [3], Put (Uint24 1) [5]] @ [Fetch]) pq_new)
     = map (\<lambda>i. the (first_put [Put (Uint24 1) [4], Fetch, Put (Uint24 0) [3], Put (Uint24 1) [5]] i)) [0 ..< k]"
  using ordered_delivery [of "[Put (Uint24 1) [4], Fetch, Put (Uint24 0) [3], Put (Uint24 1) [5]]"]
  by (auto simp: u24_inner_def)

text \<open>
  The queue accepts exactly the first packet offered for each position: over a run of puts
  and fetches on a fresh queue the accepted indices are pairwise distinct and are all the
  indices offered.
\<close>

theorem queue_accepts_first_offers:
  assumes "list_all order_filter.valid_op ops"
  shows "distinct (snd (order_filter.run ops pq_new))
    \<and> set (snd (order_filter.run ops pq_new)) = order_filter.offered ops"
  using order_filter.run_accepts_once [OF pq_inv_new assms]
    order_filter.run_accepts_exactly [OF pq_inv_new assms]
  by (auto simp: pq_seen_def pq_new_def u24_new_def)

theorem queue_accepts_first_offers_witness:
  "distinct (snd (order_filter.run [Offer [1] (Uint24 2), Tidy (), Offer [2] (Uint24 2)] pq_new))"
  using queue_accepts_first_offers [of "[Offer [1] (Uint24 2), Tidy (), Offer [2] (Uint24 2)]"]
  by (simp add: u24_inner_def)

text \<open>
  C23. The queue refines the abstract reordering specification: each operation simulates the
  abstract one on the stream of accepted packets, with the same result.
\<close>

theorem queue_refines_reorder:
  assumes "simulates q r"
  shows "(u24_inner v \<longrightarrow>
      simulates (fst (pq_put v c q)) (fst (reorder_put (unat (u24 v)) c r))
      \<and> snd (pq_put v c q) = snd (reorder_put (unat (u24 v)) c r))
    \<and> (\<exists>k. reorder_stop r k \<and> snd (pq_fetch q) = reorder_out r k
         \<and> simulates (fst (pq_fetch q)) (r\<lparr>delivered := k\<rparr>))"
  using put_simulates [OF assms, of v c] fetch_simulates [OF assms prod.collapse [symmetric]]
  by blast

theorem queue_refines_reorder_witness:
  "simulates (fst (pq_put (Uint24 1) [7] pq_new)) (fst (reorder_put 1 [7] reorder_new))"
  using queue_refines_reorder [OF simulates_new, of "Uint24 1" "[7]"] by (simp add: u24_inner_def)

end
