(* ===== verification/Resend_Map.thy ===== *)
theory Resend_Map
  imports Packet
begin

text \<open>
  The datagrams awaiting acknowledgement, \<open>src/resend_map.rs\<close>. The two hash maps are iterated
  and counted, so they are association lists with the update and deletion of
  \<open>HOL-Library.AList\<close>; \<open>rm_inv\<close> says that keys are distinct. Readings of the clock are arguments.
  A duration is unbounded here: the multiplication by two and the sum overflow a \<open>Duration\<close> only
  after several hundred billion years.
\<close>

definition RTT_CALCULATION_WINDOW :: duration where
  "RTT_CALCULATION_WINDOW = from_secs 5"

record ResendRecord =
  rr_packet :: Packet
  rr_timestamp :: instant

record ResendMap =
  unacknowledged :: "(u32 \<times> ResendRecord) list"
  delays :: "(instant \<times> duration) list"

definition rm_new :: ResendMap where
  "rm_new = \<lparr>unacknowledged = [], delays = []\<rparr>"

definition rm_add :: "instant \<Rightarrow> Uint24 \<Rightarrow> Packet \<Rightarrow> ResendMap \<Rightarrow> ResendMap" where
  "rm_add now index packet self =
     self\<lparr>unacknowledged :=
       AList.update (u24 index) \<lparr>rr_packet = packet, rr_timestamp = now\<rparr> (unacknowledged self)\<rparr>"

definition rm_remove :: "instant \<Rightarrow> Uint24 \<Rightarrow> nat \<Rightarrow> ResendMap \<Rightarrow> ResendMap \<times> Packet option" where
  "rm_remove now index mul self =
     (case map_of (unacknowledged self) (u24 index) of
        None \<Rightarrow> (self, None)
      | Some record \<Rightarrow>
          let self = self\<lparr>unacknowledged := AList.delete (u24 index) (unacknowledged self)\<rparr>;
              delay = duration_since now (rr_timestamp record) * mul
          in (self\<lparr>delays := AList.update now delay (delays self)\<rparr>, Some (rr_packet record)))"

definition rm_acknowledge :: "instant \<Rightarrow> Uint24 \<Rightarrow> ResendMap \<Rightarrow> ResendMap \<times> Packet option" where
  "rm_acknowledge now index self = rm_remove now index 1 self"

definition rm_retransmit :: "instant \<Rightarrow> Uint24 \<Rightarrow> ResendMap \<Rightarrow> ResendMap \<times> Packet option" where
  "rm_retransmit now index self = rm_remove now index 2 self"

definition rm_rtt :: "instant \<Rightarrow> ResendMap \<Rightarrow> ResendMap \<times> duration" where
  "rm_rtt now self =
     (let self = self\<lparr>delays :=
            filter (\<lambda>(t, _). duration_since now t \<le> RTT_CALCULATION_WINDOW) (delays self)\<rparr>
      in if delays self = [] then (self, from_millis 50)
         else (self, sum_list (map snd (delays self)) div unat (of_nat (length (delays self)) :: u32)))"

section \<open>Facts\<close>

definition rm_inv :: "ResendMap \<Rightarrow> bool" where
  "rm_inv m \<longleftrightarrow> distinct (map fst (unacknowledged m)) \<and> distinct (map fst (delays m))"

text \<open>The packet awaiting acknowledgement under a sequence number.\<close>

definition rm_pending :: "ResendMap \<Rightarrow> u32 \<rightharpoonup> Packet" where
  "rm_pending m i = map_option rr_packet (map_of (unacknowledged m) i)"

lemma rm_inv_new [simp]: "rm_inv rm_new"
  by (simp add: rm_inv_def rm_new_def)

lemma rm_pending_new [simp]: "rm_pending rm_new = Map.empty"
  by (simp add: rm_pending_def rm_new_def fun_eq_iff)

lemma rm_inv_add: "rm_inv m \<Longrightarrow> rm_inv (rm_add now i p m)"
  by (simp add: rm_inv_def rm_add_def distinct_update)

lemma rm_pending_add: "rm_pending (rm_add now i p m) = (rm_pending m)(u24 i \<mapsto> p)"
  by (simp add: rm_pending_def rm_add_def update_conv' fun_eq_iff)

lemma rm_inv_remove: "rm_inv m \<Longrightarrow> rm_inv (fst (rm_remove now i mul m))"
  by (auto simp: rm_inv_def rm_remove_def Let_def distinct_update distinct_delete split: option.splits)

lemma rm_remove_result: "snd (rm_remove now i mul m) = rm_pending m (u24 i)"
  by (simp add: rm_remove_def rm_pending_def Let_def split: option.splits)

lemma rm_pending_remove:
  "rm_pending (fst (rm_remove now i mul m)) = (rm_pending m)(u24 i := None)"
  by (auto simp: rm_remove_def rm_pending_def Let_def delete_conv' fun_eq_iff split: option.splits)

lemma rm_rtt_pending [simp]: "unacknowledged (fst (rm_rtt now m)) = unacknowledged m"
  by (simp add: rm_rtt_def Let_def)

lemma rm_inv_rtt: "rm_inv m \<Longrightarrow> rm_inv (fst (rm_rtt now m))"
  by (auto simp: rm_inv_def rm_rtt_def Let_def intro!: distinct_map_filter)

lemma sum_list_bounds:
  fixes xs :: "nat list"
  assumes "\<And>x. x \<in> set xs \<Longrightarrow> lo \<le> x \<and> x \<le> hi"
  shows "lo * length xs \<le> sum_list xs \<and> sum_list xs \<le> hi * length xs"
  using assms
proof (induction xs)
  case (Cons x xs)
  then have "lo * length xs \<le> sum_list xs \<and> sum_list xs \<le> hi * length xs" "lo \<le> x \<and> x \<le> hi"
    by auto
  then show ?case by (auto intro: add_mono)
qed simp

lemma average_bounds:
  fixes s n :: nat
  assumes "lo * n \<le> s \<and> s \<le> hi * n" and "0 < n"
  shows "lo \<le> s div n \<and> s div n \<le> hi"
  using assms div_le_mono [of s "hi * n" n] by (simp add: less_eq_div_iff_mult_less_eq)

section \<open>Properties\<close>

text \<open>
  The round-trip estimate: only delays measured in the last five seconds count and the
  others are dropped; it is 50 ms when there is none, and otherwise lies between any bounds of
  the delays that count. What awaits acknowledgement is untouched.
\<close>

theorem rtt_average:
  assumes "list_all (\<lambda>(t, d). duration_since now t \<le> from_secs 5 \<longrightarrow> lo \<le> d \<and> d \<le> hi) (delays m)"
    and "length (delays m) < 2 ^ 32"
  shows "case rm_rtt now m of (m', rtt) \<Rightarrow>
    set (delays m') = {(t, d) \<in> set (delays m). duration_since now t \<le> from_secs 5}
    \<and> (if delays m' = [] then rtt = from_millis 50 else lo \<le> rtt \<and> rtt \<le> hi)
    \<and> unacknowledged m' = unacknowledged m"
proof -
  let ?ds = "filter (\<lambda>(t, _). duration_since now t \<le> from_secs 5) (delays m)"
  let ?n = "length ?ds"
  have "?n < 2 ^ 32" using length_filter_le assms(2) by (rule le_less_trans)
  then have n: "unat (of_nat ?n :: u32) = ?n"
    by (simp add: unsigned_of_nat take_bit_nat_eq_self)
  have "lo \<le> x \<and> x \<le> hi" if "x \<in> set (map snd ?ds)" for x
    using assms(1) that by (auto simp: list_all_iff)
  then have "lo * ?n \<le> sum_list (map snd ?ds) \<and> sum_list (map snd ?ds) \<le> hi * ?n"
    using sum_list_bounds [of "map snd ?ds" lo hi] by simp
  then have "lo \<le> sum_list (map snd ?ds) div ?n \<and> sum_list (map snd ?ds) div ?n \<le> hi" if "?ds \<noteq> []"
    using that by (intro average_bounds) simp_all
  with n show ?thesis
    by (auto simp: rm_rtt_def Let_def RTT_CALCULATION_WINDOW_def filter_empty_conv)
qed

theorem rtt_average_witness:
  "case rm_rtt 9000000000 \<lparr>unacknowledged = [], delays = [(1, 70), (8000000000, 30), (9000000000, 50)]\<rparr> of
     (m', rtt) \<Rightarrow> 30 \<le> rtt \<and> rtt \<le> 50 \<and> set (delays m') = {(8000000000, 30), (9000000000, 50)}"
  using rtt_average [where now = 9000000000 and lo = 30 and hi = 50
      and m = "\<lparr>unacknowledged = [], delays = [(1, 70), (8000000000, 30), (9000000000, 50)]\<rparr>"]
  by (auto simp: rm_rtt_def Let_def duration_since_def RTT_CALCULATION_WINDOW_def)

end
