(* ===== verification/Addr.thy ===== *)
theory Addr
  imports Binary
begin

text \<open>
  Socket addresses and their wire format, \<open>src/message/addr.rs\<close>. An address carries its
  octets as one big-endian word; a version 6 address also has the flow information and scope
  identifier of the standard library's type, which the format does not transmit.
\<close>

unbundle bit_operations_syntax

datatype SocketAddr = V4 "32 word" u16 | V6 "128 word" u16 u32 u32

definition SIZEOF_ADDR4 :: nat where "SIZEOF_ADDR4 = 1 + 4 + 2"
definition SIZEOF_ADDR6 :: nat where "SIZEOF_ADDR6 = 1 + 2 + 2 + 4 + 16 + 4"

fun addr_port :: "SocketAddr \<Rightarrow> u16" where
  "addr_port (V4 ip port) = port"
| "addr_port (V6 ip port flow scope) = port"

text \<open>\<open>addr.ip().octets()\<close>.\<close>

fun ip_octets :: "SocketAddr \<Rightarrow> bytes" where
  "ip_octets (V4 ip port) = to_be 4 ip"
| "ip_octets (V6 ip port flow scope) = to_be 16 ip"

definition default_system_addresses :: "SocketAddr list" where
  "default_system_addresses = replicate 20 (V4 0 0)"

fun sizeof_addr :: "SocketAddr \<Rightarrow> nat" where
  "sizeof_addr (V4 ip port) = SIZEOF_ADDR4"
| "sizeof_addr (V6 ip port flow scope) = SIZEOF_ADDR6"

definition sizeof_system_addresses :: "SocketAddr list \<Rightarrow> nat" where
  "sizeof_system_addresses addresses = sum_list (map sizeof_addr addresses)"

text \<open>
  \<open>put_addr\<close> overwrites the front of a buffer and returns the number of bytes written; indexing
  past the buffer panics. In the version 6 branch the stores at 0 to 8 come before the slice
  copy and the rest after it, so a short buffer panics in either case.
\<close>

fun put_addr :: "bytes \<Rightarrow> SocketAddr \<Rightarrow> (bytes \<times> nat) outcome" where
  "put_addr buf (V4 ip port) =
     (if length buf < 7 then Panic
      else
        let address = (if ip = 0 then [4, 255, 255, 255, 255] else 4 # map NOT (to_be 4 ip))
        in Ok (address @ [ucast (drop_bit 8 port), ucast port] @ drop 7 buf, SIZEOF_ADDR4))"
| "put_addr buf (V6 ip port flow scope) =
     (if length buf < 29 then Panic
      else Ok ([6, 23, 0, ucast (drop_bit 8 port), ucast port, 0, 0, 0, 0] @ to_be 16 ip
               @ [0, 0, 0, 0] @ drop 29 buf, SIZEOF_ADDR6))"

text \<open>\<open>(-(b as i16) - 1) as u8\<close>.\<close>

definition octet_of :: "u8 \<Rightarrow> u8" where
  "octet_of b = ucast (- (ucast b :: 16 word) - 1)"

definition read_addr :: "bytes \<Rightarrow> (SocketAddr \<times> nat) outcome" where
  "read_addr buf =
     (if buf = [] \<or> buf ! 0 = 4 \<or> buf ! 0 = 0 then
        and_then (idx buf 1) (\<lambda>b1. and_then (idx buf 2) (\<lambda>b2.
        and_then (idx buf 3) (\<lambda>b3. and_then (idx buf 4) (\<lambda>b4.
        and_then (get_be 2 buf 5) (\<lambda>port.
          Ok (V4 (from_be [octet_of b1, octet_of b2, octet_of b3, octet_of b4]) port,
              SIZEOF_ADDR4))))))
      else
        and_then (get_be 2 buf 3) (\<lambda>port.
        and_then (slice buf 9 25) (\<lambda>octets.
          Ok (V6 (from_be octets) port 0 0, SIZEOF_ADDR6))))"

definition addr_size :: "bytes \<Rightarrow> nat" where
  "addr_size buf = (if buf = [] \<or> buf ! 0 = 4 \<or> buf ! 0 = 0 then SIZEOF_ADDR4 else SIZEOF_ADDR6)"

section \<open>The encoding as a value\<close>

fun addr_bytes :: "SocketAddr \<Rightarrow> bytes" where
  "addr_bytes (V4 ip port) = 4 # map NOT (to_be 4 ip) @ to_be 2 port"
| "addr_bytes (V6 ip port flow scope) =
     [6, 23, 0] @ to_be 2 port @ [0, 0, 0, 0] @ to_be 16 ip @ [0, 0, 0, 0]"

text \<open>What the wire keeps of an address.\<close>

fun addr_wire :: "SocketAddr \<Rightarrow> SocketAddr" where
  "addr_wire (V4 ip port) = V4 ip port"
| "addr_wire (V6 ip port flow scope) = V6 ip port 0 0"

lemma length_addr_bytes [simp]: "length (addr_bytes a) = sizeof_addr a"
  by (cases a) (simp_all add: SIZEOF_ADDR4_def SIZEOF_ADDR6_def)

lemma sizeof_addr_bounds: "7 \<le> sizeof_addr a \<and> sizeof_addr a \<le> 29"
  by (cases a) (simp_all add: SIZEOF_ADDR4_def SIZEOF_ADDR6_def)

lemma to_be_2: "to_be 2 w = [ucast (drop_bit 8 w), ucast w]"
  by (simp add: numeral_2_eq_2)

lemma to_be_4:
  "to_be 4 w = [ucast (drop_bit 24 w), ucast (drop_bit 16 w), ucast (drop_bit 8 w), ucast w]"
  by (simp add: eval_nat_numeral)

lemma put_addr_bytes:
  "29 \<le> length buf \<Longrightarrow> put_addr buf a = Ok (addr_bytes a @ drop (sizeof_addr a) buf, sizeof_addr a)"
  by (cases a) (simp_all add: SIZEOF_ADDR4_def SIZEOF_ADDR6_def to_be_2 to_be_4 Let_def)

lemma octet_of_NOT: "octet_of b = NOT b"
proof -
  have "octet_of b = ucast (NOT (ucast b :: 16 word))"
    by (simp add: octet_of_def not_eq_complement)
  also have "\<dots> = NOT b" by (rule bit_eqI) (auto simp: bit_simps)
  finally show ?thesis .
qed

lemma octet_of_inverse [simp]: "octet_of (NOT b) = b"
  by (simp add: octet_of_NOT)

lemma read_addr_bytes:
  "read_addr (addr_bytes a @ rest) = Ok (addr_wire a, sizeof_addr a)"
proof (cases a)
  case (V4 ip port)
  have "(from_be (to_be 4 ip) :: 32 word) = ip" by (rule from_be_to_be_full) simp
  moreover have "(from_be (to_be 2 port) :: u16) = port" by (rule from_be_to_be_full) simp
  ultimately show ?thesis
    by (simp add: V4 read_addr_def to_be_4 to_be_2 get_be_def SIZEOF_ADDR4_def)
next
  case (V6 ip port flow scope)
  have "(from_be (to_be 16 ip) :: 128 word) = ip" by (rule from_be_to_be_full) simp
  moreover have "(from_be (to_be 2 port) :: u16) = port" by (rule from_be_to_be_full) simp
  ultimately show ?thesis
    by (simp add: V6 read_addr_def to_be_2 get_be_def slice_def SIZEOF_ADDR6_def)
qed

lemma addr_size_bytes [simp]: "addr_size (addr_bytes a @ rest) = sizeof_addr a"
  by (cases a) (simp_all add: addr_size_def)

lemma read_addr_total:
  assumes "addr_size b \<le> length b"
  shows "\<exists>a. read_addr b = Ok (a, addr_size b)"
proof (cases "b = [] \<or> b ! 0 = 4 \<or> b ! 0 = 0")
  case True
  with assms have "7 \<le> length b" by (simp add: addr_size_def SIZEOF_ADDR4_def)
  with True show ?thesis by (simp add: read_addr_def addr_size_def)
next
  case False
  with assms have "29 \<le> length b" by (simp add: addr_size_def SIZEOF_ADDR6_def)
  with False show ?thesis by (simp add: read_addr_def addr_size_def)
qed

lemma addr_size_bounds: "7 \<le> addr_size b \<and> addr_size b \<le> 29"
  by (simp add: addr_size_def SIZEOF_ADDR4_def SIZEOF_ADDR6_def)

section \<open>Properties\<close>

text \<open>
  Addresses survive the wire: \<open>put_addr\<close> on a buffer of the 29 bytes the writers use never
  panics and reports the size of the address, and reading what it wrote, whatever follows,
  yields the address without flow information and scope. \<open>addr_size\<close> agrees with both.
\<close>

theorem addr_roundtrip:
  assumes "29 \<le> length buf"
  shows "\<exists>buf'. put_addr buf a = Ok (buf', sizeof_addr a) \<and> length buf' = length buf
    \<and> read_addr (take (sizeof_addr a) buf' @ rest) = Ok (addr_wire a, sizeof_addr a)
    \<and> addr_size buf' = sizeof_addr a"
  using assms sizeof_addr_bounds [of a]
  by (simp add: put_addr_bytes read_addr_bytes)

theorem addr_roundtrip_witness:
  "\<exists>buf'. put_addr (replicate 29 0) (V4 0xC0A80101 19132) = Ok (buf', 7)
     \<and> read_addr (take 7 buf') = Ok (V4 0xC0A80101 19132, 7)"
  using addr_roundtrip [of "replicate 29 0" "V4 0xC0A80101 19132" "[]"]
  by (simp add: SIZEOF_ADDR4_def)

end
