(* ===== verification/Wire_Codec.thy ===== *)
theory Wire_Codec
  imports Addr
begin

text \<open>
  The message identifiers and the magic sequence of \<open>src/message/mod.rs\<close>, and the contract every
  message type fulfils towards the dispatchers: they look at the first byte of a datagram and
  hand the rest to the reader of the message type it names.
\<close>

definition CONNECTED_PING :: u8 where "CONNECTED_PING = 0x00"
definition UNCONNECTED_PING :: u8 where "UNCONNECTED_PING = 0x01"
definition UNCONNECTED_PING_OPEN_CONNECTIONS :: u8 where "UNCONNECTED_PING_OPEN_CONNECTIONS = 0x02"
definition CONNECTED_PONG :: u8 where "CONNECTED_PONG = 0x03"
definition DETECT_LOST_CONNECTIONS :: u8 where "DETECT_LOST_CONNECTIONS = 0x04"
definition OPEN_CONNECTION_REQUEST_1 :: u8 where "OPEN_CONNECTION_REQUEST_1 = 0x05"
definition OPEN_CONNECTION_REPLY_1 :: u8 where "OPEN_CONNECTION_REPLY_1 = 0x06"
definition OPEN_CONNECTION_REQUEST_2 :: u8 where "OPEN_CONNECTION_REQUEST_2 = 0x07"
definition OPEN_CONNECTION_REPLY_2 :: u8 where "OPEN_CONNECTION_REPLY_2 = 0x08"
definition CONNECTION_REQUEST :: u8 where "CONNECTION_REQUEST = 0x09"
definition CONNECTION_REQUEST_ACCEPTED :: u8 where "CONNECTION_REQUEST_ACCEPTED = 0x10"
definition NEW_INCOMING_CONNECTION :: u8 where "NEW_INCOMING_CONNECTION = 0x13"
definition DISCONNECT_NOTIFICATION :: u8 where "DISCONNECT_NOTIFICATION = 0x15"
definition INCOMPATIBLE_PROTOCOL_VERSION :: u8 where "INCOMPATIBLE_PROTOCOL_VERSION = 0x19"
definition UNCONNECTED_PONG :: u8 where "UNCONNECTED_PONG = 0x1c"

lemmas id_defs =
  CONNECTED_PING_def UNCONNECTED_PING_def UNCONNECTED_PING_OPEN_CONNECTIONS_def
  CONNECTED_PONG_def DETECT_LOST_CONNECTIONS_def OPEN_CONNECTION_REQUEST_1_def
  OPEN_CONNECTION_REPLY_1_def OPEN_CONNECTION_REQUEST_2_def OPEN_CONNECTION_REPLY_2_def
  CONNECTION_REQUEST_def CONNECTION_REQUEST_ACCEPTED_def NEW_INCOMING_CONNECTION_def
  DISCONNECT_NOTIFICATION_def INCOMPATIBLE_PROTOCOL_VERSION_def UNCONNECTED_PONG_def

definition UNCONNECTED_MESSAGE_SEQUENCE :: bytes where
  "UNCONNECTED_MESSAGE_SEQUENCE =
     [0x00, 0xff, 0xff, 0x00, 0xfe, 0xfe, 0xfe, 0xfe,
      0xfd, 0xfd, 0xfd, 0xfd, 0x12, 0x34, 0x56, 0x78]"

lemma length_magic [simp]: "length UNCONNECTED_MESSAGE_SEQUENCE = 16"
  by (simp add: UNCONNECTED_MESSAGE_SEQUENCE_def)

text \<open>
  The contract: on a well-formed message the writer succeeds with the identifier and a body, the
  reader takes the body back to what the wire keeps of the message, and the reader never panics,
  whatever the bytes.
\<close>

locale wire_codec =
  fixes ident :: u8
    and wf :: "'m \<Rightarrow> bool"
    and wire :: "'m \<Rightarrow> 'm"
    and enc :: "'m \<Rightarrow> bytes outcome"
    and dec :: "bytes \<Rightarrow> 'm outcome"
  assumes dec_enc: "wf m \<Longrightarrow> \<exists>body. enc m = Ok (ident # body) \<and> dec body = Ok (wire m)"
    and dec_total: "dec b \<noteq> Panic"
begin

text \<open>What a dispatcher does with a datagram for this message type.\<close>

definition dispatch :: "bytes \<Rightarrow> 'm outcome option" where
  "dispatch data = (case data of [] \<Rightarrow> None | i # body \<Rightarrow> if i = ident then Some (dec body) else None)"

lemma dispatch_enc:
  "wf m \<Longrightarrow> enc m = Ok data \<Longrightarrow> dispatch data = Some (Ok (wire m))"
  using dec_enc [of m] by (auto simp: dispatch_def)

lemma dispatch_total: "dispatch data \<noteq> Some Panic"
  using dec_total by (auto simp: dispatch_def split: list.splits)

lemma enc_total: "wf m \<Longrightarrow> is_ok (enc m)"
  using dec_enc [of m] by auto

lemma enc_inj: "wf m \<Longrightarrow> wf m' \<Longrightarrow> enc m = enc m' \<Longrightarrow> wire m = wire m'"
  using dec_enc [of m] dec_enc [of m'] by auto

end

text \<open>
  Two message types with different identifiers never claim the same datagram.
\<close>

locale codec_pair =
  one: wire_codec ident1 wf1 wire1 enc1 dec1 + two: wire_codec ident2 wf2 wire2 enc2 dec2
  for ident1 :: u8 and wf1 :: "'m \<Rightarrow> bool" and wire1 and enc1 and dec1
    and ident2 :: u8 and wf2 :: "'n \<Rightarrow> bool" and wire2 and enc2 and dec2 +
  assumes ident_neq: "ident1 \<noteq> ident2"
begin

lemma dispatch_disjoint: "wf1 m \<Longrightarrow> enc1 m = Ok data \<Longrightarrow> two.dispatch data = None"
  using one.dec_enc [of m] ident_neq by (auto simp: two.dispatch_def)

end

section \<open>Reading fixed fields\<close>

text \<open>A field read at the offset it was written at.\<close>

lemma get_be_field [simp]:
  "length pre = i \<Longrightarrow> LENGTH('a) = 8 * n \<Longrightarrow> get_be n (pre @ to_be n w @ rest) i = Ok (w :: 'a::len word)"
  by (simp add: get_be_def)

lemma get_be_field_end [simp]:
  "length pre = i \<Longrightarrow> LENGTH('a) = 8 * n \<Longrightarrow> get_be n (pre @ to_be n w) i = Ok (w :: 'a::len word)"
  by (simp add: get_be_def)

lemma get_be_field_start [simp]:
  "LENGTH('a) = 8 * n \<Longrightarrow> get_be n (to_be n w @ rest) 0 = Ok (w :: 'a::len word)"
  by (simp add: get_be_def)

lemma get_be_field_all [simp]:
  "LENGTH('a) = 8 * n \<Longrightarrow> get_be n (to_be n w) 0 = Ok (w :: 'a::len word)"
  by (simp add: get_be_def)

end
