(* ===== verification/Unconnected_Messages.thy ===== *)
theory Unconnected_Messages
  imports Wire_Codec
begin

text \<open>
  The messages exchanged before a connection exists, the files of \<open>src/message/\<close> for the
  unconnected ping and pong, the two open connection requests and replies and the incompatible
  protocol version. Each has its struct, its constructors, its reader, its writer and the
  interpretation of the codec contract. A reader receives the datagram without its identifier.
\<close>

unbundle bit_operations_syntax

section \<open>Writing an address\<close>

text \<open>
  Every writer encodes addresses through a buffer of 29 bytes and appends the part written. The
  buffer keeps its contents between two addresses, so it is threaded.
\<close>

definition append_addr :: "bytes \<Rightarrow> SocketAddr \<Rightarrow> bytes \<Rightarrow> (bytes \<times> bytes) outcome" where
  "append_addr addr_buf addr buf =
     and_then (put_addr addr_buf addr) (\<lambda>(addr_buf, len).
     and_then (slice addr_buf 0 len) (\<lambda>written. Ok (addr_buf, buf @ written)))"

lemma append_addr_Ok:
  assumes "length addr_buf = 29"
  shows "\<exists>addr_buf'. append_addr addr_buf addr buf = Ok (addr_buf', buf @ addr_bytes addr)
    \<and> length addr_buf' = 29"
  using assms sizeof_addr_bounds [of addr]
  by (simp add: append_addr_def put_addr_bytes slice_def)

text \<open>The readers test that an address is complete before they read it.\<close>

lemma read_addr_at:
  "\<not> length data < k + addr_size (drop k data) \<Longrightarrow>
     \<exists>a. read_addr (drop k data) = Ok (a, addr_size (drop k data))"
  by (rule read_addr_total) simp

section \<open>Unconnected ping\<close>

record UnconnectedPing =
  up_ping_time :: i64
  up_client_guid :: i64

definition unconnected_ping_new :: "i64 \<Rightarrow> i64 \<Rightarrow> UnconnectedPing" where
  "unconnected_ping_new ping_time client_guid =
     \<lparr>up_ping_time = ping_time, up_client_guid = client_guid\<rparr>"

definition unconnected_ping_read :: "bytes \<Rightarrow> UnconnectedPing outcome" where
  "unconnected_ping_read data =
     (if length data < 32 then Err UnexpectedEof
      else and_then (get_be 8 data 0) (\<lambda>ping_time.
           and_then (get_be 8 data 24) (\<lambda>client_guid.
             Ok \<lparr>up_ping_time = ping_time, up_client_guid = client_guid\<rparr>)))"

definition unconnected_ping_write :: "UnconnectedPing \<Rightarrow> bytes outcome" where
  "unconnected_ping_write self =
     Ok ([UNCONNECTED_PING] @ to_be 8 (up_ping_time self) @ UNCONNECTED_MESSAGE_SEQUENCE
         @ to_be 8 (up_client_guid self))"

interpretation unconnected_ping: wire_codec
  UNCONNECTED_PING "\<lambda>m. True" "\<lambda>m. m" unconnected_ping_write unconnected_ping_read
  by unfold_locales (simp_all add: unconnected_ping_write_def unconnected_ping_read_def)

section \<open>Unconnected pong\<close>

record UnconnectedPong =
  pong_ping_time :: i64
  pong_server_guid :: i64
  pong_data :: bytes

definition unconnected_pong_new :: "i64 \<Rightarrow> i64 \<Rightarrow> bytes \<Rightarrow> UnconnectedPong" where
  "unconnected_pong_new ping_time server_guid data =
     \<lparr>pong_ping_time = ping_time, pong_server_guid = server_guid, pong_data = data\<rparr>"

definition unconnected_pong_read :: "bytes \<Rightarrow> UnconnectedPong outcome" where
  "unconnected_pong_read data =
     (if length data < 34 then Err UnexpectedEof
      else and_then (get_be 8 data 0) (\<lambda>ping_time.
           and_then (get_be 8 data 8) (\<lambda>server_guid.
           and_then (get_be 2 data 32) (\<lambda>len.
             let data_len = unat (len :: u16) in
             if length data < 34 + data_len then Err UnexpectedEof
             else and_then (slice data 34 (34 + data_len)) (\<lambda>pong_data.
               Ok \<lparr>pong_ping_time = ping_time, pong_server_guid = server_guid,
                    pong_data = pong_data\<rparr>)))))"

definition unconnected_pong_write :: "UnconnectedPong \<Rightarrow> bytes outcome" where
  "unconnected_pong_write self =
     Ok ([UNCONNECTED_PONG] @ to_be 8 (pong_ping_time self) @ to_be 8 (pong_server_guid self)
         @ UNCONNECTED_MESSAGE_SEQUENCE @ to_be 2 (of_nat (length (pong_data self)) :: u16)
         @ pong_data self)"

interpretation unconnected_pong: wire_codec
  UNCONNECTED_PONG "\<lambda>m. length (pong_data m) < 65536" "\<lambda>m. m"
  unconnected_pong_write unconnected_pong_read
proof
  fix m :: UnconnectedPong
  assume "length (pong_data m) < 65536"
  then have "unat (of_nat (length (pong_data m)) :: u16) = length (pong_data m)"
    by (simp add: unsigned_of_nat take_bit_nat_eq_self)
  then show "\<exists>body. unconnected_pong_write m = Ok (UNCONNECTED_PONG # body)
      \<and> unconnected_pong_read body = Ok m"
    by (simp add: unconnected_pong_write_def unconnected_pong_read_def Let_def)
qed (simp add: unconnected_pong_read_def Let_def)

section \<open>Open connection request 1\<close>

record OpenConnectionRequest1 =
  ocr1_client_protocol :: u8
  ocr1_mtu :: u16

definition ocr1_new :: "u8 \<Rightarrow> u16 \<Rightarrow> OpenConnectionRequest1" where
  "ocr1_new client_protocol mtu = \<lparr>ocr1_client_protocol = client_protocol, ocr1_mtu = mtu\<rparr>"

definition ocr1_read :: "bytes \<Rightarrow> OpenConnectionRequest1 outcome" where
  "ocr1_read data =
     (if length data < 17 then Err UnexpectedEof
      else and_then (idx data 16) (\<lambda>client_protocol.
        Ok \<lparr>ocr1_client_protocol = client_protocol,
            ocr1_mtu = of_nat (length data + 20 + 8 + 1)\<rparr>))"

text \<open>
  The request is padded to the MTU; a buffer shorter than the 18 bytes stored into it panics.
\<close>

definition ocr1_write :: "profile \<Rightarrow> OpenConnectionRequest1 \<Rightarrow> bytes outcome" where
  "ocr1_write prof self =
     and_then (sub_ovf prof (ocr1_mtu self) 20) (\<lambda>m.
     and_then (sub_ovf prof m 8) (\<lambda>m.
       let size = unat m; buf = replicate size (0 :: u8) in
       if size < 18 then Panic
       else Ok ([OPEN_CONNECTION_REQUEST_1] @ UNCONNECTED_MESSAGE_SEQUENCE
                @ [ocr1_client_protocol self] @ drop 18 buf)))"

lemma ocr1_write_Ok:
  assumes "46 \<le> unat (ocr1_mtu m)"
  shows "ocr1_write prof m = Ok ([OPEN_CONNECTION_REQUEST_1] @ UNCONNECTED_MESSAGE_SEQUENCE
           @ [ocr1_client_protocol m] @ replicate (unat (ocr1_mtu m) - 46) 0)"
proof -
  have m: "unat (ocr1_mtu m - 20) = unat (ocr1_mtu m) - 20"
    using assms by (simp add: unat_sub word_le_nat_alt)
  then have m': "unat (ocr1_mtu m - 20 - 8) = unat (ocr1_mtu m) - 28"
    using assms by (simp add: unat_sub word_le_nat_alt del: diff_diff_add)
  have le: "20 \<le> ocr1_mtu m" "8 \<le> ocr1_mtu m - 20"
    using assms m by (simp_all add: word_le_nat_alt)
  show ?thesis
    unfolding ocr1_write_def using assms le m'
    by (simp only: sub_ovf_le and_then.simps Let_def) simp
qed

interpretation ocr1: wire_codec
  OPEN_CONNECTION_REQUEST_1 "\<lambda>m. 46 \<le> unat (ocr1_mtu m)" "\<lambda>m. m" "ocr1_write prof" ocr1_read
  for prof
proof
  fix m :: OpenConnectionRequest1
  assume "46 \<le> unat (ocr1_mtu m)"
  then show "\<exists>body. ocr1_write prof m = Ok (OPEN_CONNECTION_REQUEST_1 # body) \<and> ocr1_read body = Ok m"
    by (simp add: ocr1_write_Ok ocr1_read_def nth_append flip: of_nat_add)
qed (simp add: ocr1_read_def)

section \<open>Open connection reply 1\<close>

record OpenConnectionReply1 =
  reply1_server_guid :: i64
  reply1_server_has_security :: bool
  reply1_cookie :: u32
  reply1_mtu :: u16

definition reply1_new :: "i64 \<Rightarrow> u16 \<Rightarrow> OpenConnectionReply1" where
  "reply1_new server_guid mtu =
     \<lparr>reply1_server_guid = server_guid, reply1_server_has_security = False, reply1_cookie = 0,
      reply1_mtu = mtu\<rparr>"

definition reply1_with_security :: "i64 \<Rightarrow> u32 \<Rightarrow> u16 \<Rightarrow> OpenConnectionReply1" where
  "reply1_with_security server_guid cookie mtu =
     \<lparr>reply1_server_guid = server_guid, reply1_server_has_security = True, reply1_cookie = cookie,
      reply1_mtu = mtu\<rparr>"

definition reply1_read :: "bytes \<Rightarrow> OpenConnectionReply1 outcome" where
  "reply1_read data =
     (if length data < 27 then Err UnexpectedEof
      else and_then (get_be 8 data 16) (\<lambda>server_guid.
           and_then (idx data 24) (\<lambda>security.
             let server_has_security = security \<noteq> 0 in
             and_then
               (if server_has_security
                then if length data < 29 then Err UnexpectedEof
                     else and_then (get_be 4 data 25) (\<lambda>cookie. Ok (cookie, 4))
                else Ok (0, 0)) (\<lambda>(cookie, offset).
             if length data < 27 + offset then Err UnexpectedEof
             else and_then (get_be 2 data (25 + offset)) (\<lambda>mtu.
               Ok \<lparr>reply1_server_guid = server_guid,
                    reply1_server_has_security = server_has_security,
                    reply1_cookie = cookie, reply1_mtu = mtu\<rparr>)))))"

definition reply1_write :: "OpenConnectionReply1 \<Rightarrow> bytes outcome" where
  "reply1_write self =
     Ok ([OPEN_CONNECTION_REPLY_1] @ UNCONNECTED_MESSAGE_SEQUENCE @ to_be 8 (reply1_server_guid self)
         @ (if reply1_server_has_security self then [1] @ to_be 4 (reply1_cookie self) else [0])
         @ to_be 2 (reply1_mtu self))"

definition reply1_wire :: "OpenConnectionReply1 \<Rightarrow> OpenConnectionReply1" where
  "reply1_wire m = (if reply1_server_has_security m then m else m\<lparr>reply1_cookie := 0\<rparr>)"

interpretation reply1: wire_codec
  OPEN_CONNECTION_REPLY_1 "\<lambda>m. True" reply1_wire reply1_write reply1_read
proof
  fix m :: OpenConnectionReply1
  show "\<exists>body. reply1_write m = Ok (OPEN_CONNECTION_REPLY_1 # body)
      \<and> reply1_read body = Ok (reply1_wire m)"
    by (cases m) (simp add: reply1_write_def reply1_read_def reply1_wire_def Let_def nth_append)
qed (simp add: reply1_read_def Let_def)

section \<open>Open connection request 2\<close>

text \<open>
  The reader fills the struct it is called on, whose \<open>server_has_security\<close> it consults; fields
  stored before an error stay stored. Only four of the five bytes a secured request carries after
  the magic sequence are the cookie.
\<close>

record OpenConnectionRequest2 =
  ocr2_server_address :: SocketAddr
  ocr2_mtu :: u16
  ocr2_client_guid :: u64
  ocr2_server_has_security :: bool
  ocr2_cookie :: u32

definition ocr2_default :: OpenConnectionRequest2 where
  "ocr2_default =
     \<lparr>ocr2_server_address = V4 0 0, ocr2_mtu = 0, ocr2_client_guid = 0,
      ocr2_server_has_security = False, ocr2_cookie = 0\<rparr>"

definition ocr2_new :: "SocketAddr \<Rightarrow> u16 \<Rightarrow> u64 \<Rightarrow> OpenConnectionRequest2" where
  "ocr2_new server_address mtu client_guid =
     \<lparr>ocr2_server_address = server_address, ocr2_mtu = mtu, ocr2_client_guid = client_guid,
      ocr2_server_has_security = False, ocr2_cookie = 0\<rparr>"

definition ocr2_with_security ::
  "SocketAddr \<Rightarrow> u16 \<Rightarrow> u64 \<Rightarrow> u32 \<Rightarrow> OpenConnectionRequest2" where
  "ocr2_with_security server_address mtu client_guid cookie =
     \<lparr>ocr2_server_address = server_address, ocr2_mtu = mtu, ocr2_client_guid = client_guid,
      ocr2_server_has_security = True, ocr2_cookie = cookie\<rparr>"

text \<open>The part after the cookie, at the given offset.\<close>

definition ocr2_read_rest ::
  "OpenConnectionRequest2 \<Rightarrow> bytes \<Rightarrow> nat \<Rightarrow> OpenConnectionRequest2 \<times> unit outcome" where
  "ocr2_read_rest self data offset =
     (if length data < offset + addr_size (drop offset data) then (self, Err UnexpectedEof)
      else
        and_then_st (self, read_addr (drop offset data)) (\<lambda>self (server_address, n).
          let self = self\<lparr>ocr2_server_address := server_address\<rparr>; offset = offset + n in
          if length data < offset + 10 then (self, Err UnexpectedEof)
          else
            and_then_st (self, get_be 2 data offset) (\<lambda>self mtu.
            and_then_st (self\<lparr>ocr2_mtu := mtu\<rparr>, get_be 8 data (offset + 2)) (\<lambda>self client_guid.
              (self\<lparr>ocr2_client_guid := client_guid\<rparr>, Ok ())))))"

definition ocr2_read ::
  "OpenConnectionRequest2 \<Rightarrow> bytes \<Rightarrow> OpenConnectionRequest2 \<times> unit outcome" where
  "ocr2_read self data =
     (let cookie_offset = (if ocr2_server_has_security self then 5 else 0) in
      if length data < 16 + cookie_offset then (self, Err UnexpectedEof)
      else if ocr2_server_has_security self
      then and_then_st (self, get_be 4 data 16) (\<lambda>self cookie.
             ocr2_read_rest (self\<lparr>ocr2_cookie := cookie\<rparr>) data (16 + cookie_offset))
      else ocr2_read_rest self data 16)"

definition ocr2_write :: "OpenConnectionRequest2 \<Rightarrow> bytes outcome" where
  "ocr2_write self =
     (let buf = [OPEN_CONNECTION_REQUEST_2] @ UNCONNECTED_MESSAGE_SEQUENCE
              @ (if ocr2_server_has_security self then to_be 4 (ocr2_cookie self) @ [0] else []) in
      and_then (append_addr (replicate 29 0) (ocr2_server_address self) buf) (\<lambda>(addr_buf, buf).
        Ok (buf @ to_be 2 (ocr2_mtu self) @ to_be 8 (ocr2_client_guid self))))"

text \<open>What arrives at a reader called on \<open>self\<close>: without security its cookie stays.\<close>

definition ocr2_wire :: "OpenConnectionRequest2 \<Rightarrow> OpenConnectionRequest2 \<Rightarrow> OpenConnectionRequest2" where
  "ocr2_wire self m =
     m\<lparr>ocr2_server_address := addr_wire (ocr2_server_address m),
       ocr2_cookie := if ocr2_server_has_security m then ocr2_cookie m else ocr2_cookie self\<rparr>"

text \<open>The reader as a function of the bytes.\<close>

definition ocr2_decode :: "OpenConnectionRequest2 \<Rightarrow> bytes \<Rightarrow> OpenConnectionRequest2 outcome" where
  "ocr2_decode self data = and_then (snd (ocr2_read self data)) (\<lambda>_. Ok (fst (ocr2_read self data)))"

lemma drop_length_append: "length pre = k \<Longrightarrow> drop k (pre @ xs) = xs"
  by simp

lemma ocr2_read_rest_bytes:
  assumes "length pre = offset"
  shows "ocr2_read_rest self (pre @ addr_bytes a @ to_be 2 mtu @ to_be 8 guid) offset =
    (self\<lparr>ocr2_server_address := addr_wire a, ocr2_mtu := mtu, ocr2_client_guid := guid\<rparr>, Ok ())"
  using assms
  by (simp add: ocr2_read_rest_def read_addr_bytes Let_def)

lemma ocr2_read_rest_no_panic: "snd (ocr2_read_rest self data offset) \<noteq> Panic"
  using read_addr_at [of data offset]
  by (auto simp: ocr2_read_rest_def Let_def split: if_splits)

interpretation ocr2: wire_codec
  OPEN_CONNECTION_REQUEST_2 "\<lambda>m. ocr2_server_has_security m = ocr2_server_has_security self"
  "ocr2_wire self" ocr2_write "ocr2_decode self"
  for self
proof
  fix m :: OpenConnectionRequest2
  assume same: "ocr2_server_has_security m = ocr2_server_has_security self"
  let ?pre = "UNCONNECTED_MESSAGE_SEQUENCE
    @ (if ocr2_server_has_security m then to_be 4 (ocr2_cookie m) @ [0] else [])"
  let ?body = "?pre @ addr_bytes (ocr2_server_address m) @ to_be 2 (ocr2_mtu m)
    @ to_be 8 (ocr2_client_guid m)"
  have "ocr2_write m = Ok (OPEN_CONNECTION_REQUEST_2 # ?body)"
    using append_addr_Ok [of "replicate 29 0" "ocr2_server_address m"
        "[OPEN_CONNECTION_REQUEST_2] @ ?pre"]
    by (auto simp: ocr2_write_def Let_def)
  moreover have "ocr2_decode self ?body = Ok (ocr2_wire self m)"
    using same ocr2_read_rest_bytes [of ?pre 16 self "ocr2_server_address m" "ocr2_mtu m" "ocr2_client_guid m"]
      ocr2_read_rest_bytes [of ?pre 21 "self\<lparr>ocr2_cookie := ocr2_cookie m\<rparr>" "ocr2_server_address m"
        "ocr2_mtu m" "ocr2_client_guid m"]
    by (cases "ocr2_server_has_security m"; cases m)
      (simp_all add: ocr2_decode_def ocr2_read_def ocr2_wire_def)
  ultimately show "\<exists>body. ocr2_write m = Ok (OPEN_CONNECTION_REQUEST_2 # body)
      \<and> ocr2_decode self body = Ok (ocr2_wire self m)"
    by blast
next
  fix b
  have "snd (ocr2_read self b) \<noteq> Panic"
    using ocr2_read_rest_no_panic by (auto simp: ocr2_read_def Let_def)
  then show "ocr2_decode self b \<noteq> Panic"
    by (cases "snd (ocr2_read self b)") (simp_all add: ocr2_decode_def)
qed

section \<open>Open connection reply 2\<close>

record OpenConnectionReply2 =
  reply2_server_guid :: i64
  reply2_client_address :: SocketAddr
  reply2_mtu :: u16
  reply2_do_security :: bool

definition reply2_new :: "i64 \<Rightarrow> SocketAddr \<Rightarrow> u16 \<Rightarrow> OpenConnectionReply2" where
  "reply2_new server_guid client_address mtu =
     \<lparr>reply2_server_guid = server_guid, reply2_client_address = client_address,
      reply2_mtu = mtu, reply2_do_security = False\<rparr>"

definition reply2_read :: "bytes \<Rightarrow> OpenConnectionReply2 outcome" where
  "reply2_read data =
     (if length data < 24 then Err UnexpectedEof
      else and_then (get_be 8 data 16) (\<lambda>server_guid.
        if length data < 24 + addr_size (drop 24 data) then Err UnexpectedEof
        else and_then (read_addr (drop 24 data)) (\<lambda>(client_address, offset).
          if length data < 24 + offset + 3 then Err UnexpectedEof
          else and_then (get_be 2 data (24 + offset)) (\<lambda>mtu.
               and_then (idx data (26 + offset)) (\<lambda>security.
                 Ok \<lparr>reply2_server_guid = server_guid, reply2_client_address = client_address,
                     reply2_mtu = mtu, reply2_do_security = security \<noteq> 0\<rparr>)))))"

definition reply2_write :: "OpenConnectionReply2 \<Rightarrow> bytes outcome" where
  "reply2_write self =
     and_then (append_addr (replicate 29 0) (reply2_client_address self)
                ([OPEN_CONNECTION_REPLY_2] @ UNCONNECTED_MESSAGE_SEQUENCE
                 @ to_be 8 (reply2_server_guid self))) (\<lambda>(addr_buf, buf).
       Ok (buf @ to_be 2 (reply2_mtu self) @ [if reply2_do_security self then 1 else 0]))"

definition reply2_wire :: "OpenConnectionReply2 \<Rightarrow> OpenConnectionReply2" where
  "reply2_wire m = m\<lparr>reply2_client_address := addr_wire (reply2_client_address m)\<rparr>"

interpretation reply2: wire_codec
  OPEN_CONNECTION_REPLY_2 "\<lambda>m. True" reply2_wire reply2_write reply2_read
proof
  fix m :: OpenConnectionReply2
  let ?body = "UNCONNECTED_MESSAGE_SEQUENCE @ to_be 8 (reply2_server_guid m)
    @ addr_bytes (reply2_client_address m) @ to_be 2 (reply2_mtu m)
    @ [if reply2_do_security m then 1 else 0]"
  have "reply2_write m = Ok (OPEN_CONNECTION_REPLY_2 # ?body)"
    using append_addr_Ok [of "replicate 29 0" "reply2_client_address m"
        "[OPEN_CONNECTION_REPLY_2] @ UNCONNECTED_MESSAGE_SEQUENCE @ to_be 8 (reply2_server_guid m)"]
    by (auto simp: reply2_write_def)
  moreover have "reply2_read ?body = Ok (reply2_wire m)"
    by (cases m) (simp add: reply2_read_def reply2_wire_def read_addr_bytes nth_append)
  ultimately show "\<exists>body. reply2_write m = Ok (OPEN_CONNECTION_REPLY_2 # body)
      \<and> reply2_read body = Ok (reply2_wire m)"
    by blast
next
  fix b
  show "reply2_read b \<noteq> Panic"
    using read_addr_at [of b 24] by (auto simp: reply2_read_def split: if_splits)
qed

section \<open>Incompatible protocol version\<close>

record IncompatibleProtocolVersion =
  ipv_server_protocol :: u8
  ipv_server_guid :: i64

definition ipv_new :: "u8 \<Rightarrow> i64 \<Rightarrow> IncompatibleProtocolVersion" where
  "ipv_new server_protocol server_guid =
     \<lparr>ipv_server_protocol = server_protocol, ipv_server_guid = server_guid\<rparr>"

definition ipv_read :: "bytes \<Rightarrow> IncompatibleProtocolVersion outcome" where
  "ipv_read data =
     (if length data < 25 then Err UnexpectedEof
      else and_then (idx data 0) (\<lambda>server_protocol.
           and_then (get_be 8 data 17) (\<lambda>server_guid.
             Ok \<lparr>ipv_server_protocol = server_protocol, ipv_server_guid = server_guid\<rparr>)))"

definition ipv_write :: "IncompatibleProtocolVersion \<Rightarrow> bytes outcome" where
  "ipv_write self =
     Ok ([INCOMPATIBLE_PROTOCOL_VERSION] @ [ipv_server_protocol self]
         @ UNCONNECTED_MESSAGE_SEQUENCE @ to_be 8 (ipv_server_guid self))"

interpretation ipv: wire_codec
  INCOMPATIBLE_PROTOCOL_VERSION "\<lambda>m. True" "\<lambda>m. m" ipv_write ipv_read
proof
  fix b
  show "ipv_read b \<noteq> Panic"
    by (auto simp: ipv_read_def idx_def)
qed (simp add: ipv_write_def ipv_read_def)

text \<open>
  What a dialer distinguishes in the answers to its first request: a reply 1 never reads as an
  incompatible version.
\<close>

interpretation reply1_or_ipv: codec_pair
  OPEN_CONNECTION_REPLY_1 "\<lambda>m. True" reply1_wire reply1_write reply1_read
  INCOMPATIBLE_PROTOCOL_VERSION "\<lambda>m. True" "\<lambda>m. m" ipv_write ipv_read
  by unfold_locales (simp add: id_defs)

end
