(* ===== verification/Connected_Messages.thy ===== *)
theory Connected_Messages
  imports Unconnected_Messages
begin

text \<open>
  The messages of the login sequence and the keep-alive, carried inside packets: the connected
  ping and pong, the connection request, its acceptance and the new incoming connection, from
  \<open>src/message/\<close>. The last two transmit twenty system addresses; their readers accept fewer.
\<close>

section \<open>Connected ping\<close>

record ConnectedPing =
  cping_ping_time :: i64

definition connected_ping_new :: "i64 \<Rightarrow> ConnectedPing" where
  "connected_ping_new ping_time = \<lparr>cping_ping_time = ping_time\<rparr>"

definition connected_ping_read :: "bytes \<Rightarrow> ConnectedPing outcome" where
  "connected_ping_read data =
     (if length data < 8 then Err UnexpectedEof
      else and_then (get_be 8 data 0) (\<lambda>ping_time. Ok \<lparr>cping_ping_time = ping_time\<rparr>))"

definition connected_ping_write :: "ConnectedPing \<Rightarrow> bytes outcome" where
  "connected_ping_write self = Ok ([CONNECTED_PING] @ to_be 8 (cping_ping_time self))"

interpretation connected_ping: wire_codec
  CONNECTED_PING "\<lambda>m. True" "\<lambda>m. m" connected_ping_write connected_ping_read
  by unfold_locales (simp_all add: connected_ping_write_def connected_ping_read_def)

section \<open>Connected pong\<close>

record ConnectedPong =
  cpong_ping_time :: i64
  cpong_pong_time :: i64

definition connected_pong_new :: "i64 \<Rightarrow> i64 \<Rightarrow> ConnectedPong" where
  "connected_pong_new ping_time pong_time =
     \<lparr>cpong_ping_time = ping_time, cpong_pong_time = pong_time\<rparr>"

definition connected_pong_read :: "bytes \<Rightarrow> ConnectedPong outcome" where
  "connected_pong_read data =
     (if length data < 16 then Err UnexpectedEof
      else and_then (get_be 8 data 0) (\<lambda>ping_time. and_then (get_be 8 data 8) (\<lambda>pong_time.
        Ok \<lparr>cpong_ping_time = ping_time, cpong_pong_time = pong_time\<rparr>)))"

definition connected_pong_write :: "ConnectedPong \<Rightarrow> bytes outcome" where
  "connected_pong_write self =
     Ok ([CONNECTED_PONG] @ to_be 8 (cpong_ping_time self) @ to_be 8 (cpong_pong_time self))"

interpretation connected_pong: wire_codec
  CONNECTED_PONG "\<lambda>m. True" "\<lambda>m. m" connected_pong_write connected_pong_read
  by unfold_locales (simp_all add: connected_pong_write_def connected_pong_read_def)

section \<open>Connection request\<close>

record ConnectionRequest =
  creq_client_guid :: u64
  creq_request_time :: i64
  creq_secure :: bool

definition connection_request_new :: "u64 \<Rightarrow> i64 \<Rightarrow> ConnectionRequest" where
  "connection_request_new client_guid request_time =
     \<lparr>creq_client_guid = client_guid, creq_request_time = request_time, creq_secure = False\<rparr>"

definition connection_request_read :: "bytes \<Rightarrow> ConnectionRequest outcome" where
  "connection_request_read data =
     (if length data < 17 then Err UnexpectedEof
      else and_then (get_be 8 data 0) (\<lambda>client_guid. and_then (get_be 8 data 8) (\<lambda>request_time.
           and_then (idx data 16) (\<lambda>secure.
             Ok \<lparr>creq_client_guid = client_guid, creq_request_time = request_time,
                  creq_secure = secure \<noteq> 0\<rparr>))))"

definition connection_request_write :: "ConnectionRequest \<Rightarrow> bytes outcome" where
  "connection_request_write self =
     Ok ([CONNECTION_REQUEST] @ to_be 8 (creq_client_guid self) @ to_be 8 (creq_request_time self)
         @ [if creq_secure self then 1 else 0])"

interpretation connection_request: wire_codec
  CONNECTION_REQUEST "\<lambda>m. True" "\<lambda>m. m" connection_request_write connection_request_read
  by unfold_locales
    (simp_all add: connection_request_write_def connection_request_read_def nth_append)

section \<open>System addresses\<close>

text \<open>
  The loop over the twenty slots, whose current values are the third argument. It stops early
  when exactly the two timestamps are left. The offset never exceeds the length, so the natural
  subtraction is the code's.
\<close>

fun read_system_addresses :: "bytes \<Rightarrow> nat \<Rightarrow> SocketAddr list \<Rightarrow> (SocketAddr list \<times> nat) outcome" where
  "read_system_addresses data offset [] = Ok ([], offset)"
| "read_system_addresses data offset (slot # slots) =
     (if length data - offset = 16 then Ok (slot # slots, offset)
      else if length data - offset < addr_size (drop offset data) then Err UnexpectedEof
      else and_then (read_addr (drop offset data)) (\<lambda>(addr, n).
           and_then (read_system_addresses data (offset + n) slots) (\<lambda>(addrs, offset).
             Ok (addr # addrs, offset))))"

fun append_addrs :: "bytes \<Rightarrow> SocketAddr list \<Rightarrow> bytes \<Rightarrow> (bytes \<times> bytes) outcome" where
  "append_addrs addr_buf [] buf = Ok (addr_buf, buf)"
| "append_addrs addr_buf (addr # addrs) buf =
     and_then (append_addr addr_buf addr buf) (\<lambda>(addr_buf, buf). append_addrs addr_buf addrs buf)"

definition addrs_bytes :: "SocketAddr list \<Rightarrow> bytes" where
  "addrs_bytes addrs = concat (map addr_bytes addrs)"

lemma addrs_bytes_simps [simp]:
  "addrs_bytes [] = []"
  "addrs_bytes (a # as) = addr_bytes a @ addrs_bytes as"
  by (simp_all add: addrs_bytes_def)

lemma append_addrs_Ok:
  "length addr_buf = 29 \<Longrightarrow>
     \<exists>addr_buf'. append_addrs addr_buf addrs buf = Ok (addr_buf', buf @ addrs_bytes addrs)"
proof (induction addrs arbitrary: addr_buf buf)
  case (Cons a as)
  then obtain ab where ab: "append_addr addr_buf a buf = Ok (ab, buf @ addr_bytes a)" "length ab = 29"
    using append_addr_Ok [of addr_buf a buf] by auto
  then show ?case using Cons.IH [of ab "buf @ addr_bytes a"] by auto
qed simp

text \<open>
  Any number of addresses up to the number of slots is read, followed by sixteen bytes; the
  slots that remain keep their values. Each address left makes the rest longer than sixteen
  bytes, so the early stop fires only at the end.
\<close>

lemma read_system_addresses_bytes:
  "length pre = offset \<Longrightarrow> length stamps = 16 \<Longrightarrow> length addrs \<le> length slots \<Longrightarrow>
   read_system_addresses (pre @ addrs_bytes addrs @ stamps) offset slots =
     Ok (map addr_wire addrs @ drop (length addrs) slots, offset + length (addrs_bytes addrs))"
proof (induction slots arbitrary: pre offset addrs)
  case Nil
  then show ?case by simp
next
  case (Cons slot slots)
  show ?case
  proof (cases addrs)
    case Nil
    with Cons.prems show ?thesis by simp
  next
    case (Cons a as)
    have ih: "read_system_addresses ((pre @ addr_bytes a) @ addrs_bytes as @ stamps)
        (offset + sizeof_addr a) slots
      = Ok (map addr_wire as @ drop (length as) slots,
            offset + sizeof_addr a + length (addrs_bytes as))"
      by (rule Cons.IH) (use Cons.prems Cons in simp_all)
    have "0 < sizeof_addr a" using sizeof_addr_bounds [of a] by simp
    with Cons.prems Cons ih show ?thesis by (auto simp: read_addr_bytes add.assoc)
  qed
qed

text \<open>On arbitrary bytes the loop stays within the data and does not panic.\<close>

lemma read_system_addresses_total:
  "offset \<le> length data \<Longrightarrow>
   read_system_addresses data offset slots = Err UnexpectedEof
   \<or> (\<exists>addrs offset'. read_system_addresses data offset slots = Ok (addrs, offset')
        \<and> length addrs = length slots \<and> offset' \<le> length data)"
proof (induction slots arbitrary: offset)
  case Nil
  then show ?case by simp
next
  case (Cons slot slots)
  let ?n = "addr_size (drop offset data)"
  show ?case
  proof (cases "length data - offset = 16 \<or> length data - offset < ?n")
    case True
    with Cons.prems show ?thesis by auto
  next
    case False
    then have "\<not> length data < offset + ?n" using Cons.prems by linarith
    then obtain a where "read_addr (drop offset data) = Ok (a, ?n)"
      using read_addr_at [of data offset] by blast
    moreover have "offset + ?n \<le> length data" using False Cons.prems by linarith
    ultimately show ?thesis using False Cons.IH [of "offset + ?n"] by auto
  qed
qed

text \<open>The two timestamps that end both messages.\<close>

definition read_times :: "bytes \<Rightarrow> nat \<Rightarrow> (i64 \<times> i64) outcome" where
  "read_times data offset =
     (if length data - offset < 16 then Err UnexpectedEof
      else and_then (get_be 8 data offset) (\<lambda>ping_time.
           and_then (get_be 8 data (offset + 8)) (\<lambda>pong_time. Ok (ping_time, pong_time))))"

lemma read_times_bytes [simp]:
  "length pre = offset \<Longrightarrow>
   read_times (pre @ to_be 8 (ping :: i64) @ to_be 8 (pong :: i64)) offset = Ok (ping, pong)"
  by (simp add: read_times_def)

lemma read_times_no_panic: "offset \<le> length data \<Longrightarrow> read_times data offset \<noteq> Panic"
  by (simp add: read_times_def)

section \<open>Connection request accepted\<close>

record ConnectionRequestAccepted =
  cra_client_address :: SocketAddr
  cra_system_index :: u16
  cra_system_addresses :: "SocketAddr list"
  cra_ping_time :: i64
  cra_pong_time :: i64

definition accepted_new :: "SocketAddr \<Rightarrow> i64 \<Rightarrow> i64 \<Rightarrow> ConnectionRequestAccepted" where
  "accepted_new client_address ping_time pong_time =
     \<lparr>cra_client_address = client_address, cra_system_index = 0,
      cra_system_addresses = default_system_addresses,
      cra_ping_time = ping_time, cra_pong_time = pong_time\<rparr>"

definition accepted_read :: "bytes \<Rightarrow> ConnectionRequestAccepted outcome" where
  "accepted_read data =
     (if length data < addr_size data then Err UnexpectedEof
      else and_then (read_addr data) (\<lambda>(client_address, offset).
        if length data < offset + 2 then Err UnexpectedEof
        else and_then (get_be 2 data offset) (\<lambda>system_index.
             and_then (read_system_addresses data (offset + 2) default_system_addresses)
               (\<lambda>(system_addresses, offset).
             and_then (read_times data offset) (\<lambda>(ping_time, pong_time).
               Ok \<lparr>cra_client_address = client_address, cra_system_index = system_index,
                   cra_system_addresses = system_addresses,
                   cra_ping_time = ping_time, cra_pong_time = pong_time\<rparr>)))))"

definition accepted_write :: "ConnectionRequestAccepted \<Rightarrow> bytes outcome" where
  "accepted_write self =
     and_then (append_addr (replicate 29 0) (cra_client_address self) [CONNECTION_REQUEST_ACCEPTED])
       (\<lambda>(addr_buf, buf).
     and_then (append_addrs addr_buf (cra_system_addresses self)
                 (buf @ to_be 2 (cra_system_index self))) (\<lambda>(addr_buf, buf).
       Ok (buf @ to_be 8 (cra_ping_time self) @ to_be 8 (cra_pong_time self))))"

definition accepted_wire :: "ConnectionRequestAccepted \<Rightarrow> ConnectionRequestAccepted" where
  "accepted_wire m = m\<lparr>cra_client_address := addr_wire (cra_client_address m),
     cra_system_addresses := map addr_wire (cra_system_addresses m)
       @ drop (length (cra_system_addresses m)) default_system_addresses\<rparr>"

text \<open>The encoded body, also for peers that send fewer than twenty addresses.\<close>

definition accepted_body :: "ConnectionRequestAccepted \<Rightarrow> bytes" where
  "accepted_body m = addr_bytes (cra_client_address m) @ to_be 2 (cra_system_index m)
     @ addrs_bytes (cra_system_addresses m) @ to_be 8 (cra_ping_time m) @ to_be 8 (cra_pong_time m)"

lemma length_default_system_addresses [simp]: "length default_system_addresses = 20"
  by (simp add: default_system_addresses_def)

lemma accepted_write_body: "accepted_write m = Ok (CONNECTION_REQUEST_ACCEPTED # accepted_body m)"
proof -
  obtain ab where ab: "append_addr (replicate 29 0) (cra_client_address m) [CONNECTION_REQUEST_ACCEPTED]
      = Ok (ab, [CONNECTION_REQUEST_ACCEPTED] @ addr_bytes (cra_client_address m))" "length ab = 29"
    using append_addr_Ok [of "replicate 29 0" "cra_client_address m" "[CONNECTION_REQUEST_ACCEPTED]"]
    by auto
  with append_addrs_Ok [of ab "cra_system_addresses m"
      "[CONNECTION_REQUEST_ACCEPTED] @ addr_bytes (cra_client_address m) @ to_be 2 (cra_system_index m)"]
  show ?thesis by (auto simp: accepted_write_def accepted_body_def)
qed

lemma accepted_read_body:
  assumes "length (cra_system_addresses m) \<le> 20"
  shows "accepted_read (accepted_body m) = Ok (accepted_wire m)"
proof -
  let ?pre = "addr_bytes (cra_client_address m) @ to_be 2 (cra_system_index m)"
  let ?stamps = "to_be 8 (cra_ping_time m) @ to_be 8 (cra_pong_time m)"
  have "read_system_addresses (?pre @ addrs_bytes (cra_system_addresses m) @ ?stamps) (length ?pre)
      default_system_addresses = Ok (map addr_wire (cra_system_addresses m)
        @ drop (length (cra_system_addresses m)) default_system_addresses,
        length (?pre @ addrs_bytes (cra_system_addresses m)))"
    using read_system_addresses_bytes [OF refl, of ?stamps "cra_system_addresses m" default_system_addresses ?pre]
      assms by simp
  moreover have "read_times ((?pre @ addrs_bytes (cra_system_addresses m)) @ ?stamps)
      (length (?pre @ addrs_bytes (cra_system_addresses m))) = Ok (cra_ping_time m, cra_pong_time m)"
    by (rule read_times_bytes) simp
  ultimately show ?thesis
    by (cases m) (simp add: accepted_read_def accepted_body_def accepted_wire_def read_addr_bytes)
qed

lemma accepted_read_no_panic: "accepted_read data \<noteq> Panic"
proof (cases "length data < addr_size data")
  case False
  then obtain a where a: "read_addr data = Ok (a, addr_size data)" using read_addr_total [of data] by auto
  show ?thesis
  proof (cases "length data < addr_size data + 2")
    case long: False
    then have "addr_size data + 2 \<le> length data" by simp
    from read_system_addresses_total [OF this, of default_system_addresses] False a long show ?thesis
      by (auto simp: accepted_read_def and_then_eq_Panic read_times_no_panic)
  qed (use False a in \<open>simp add: accepted_read_def\<close>)
qed (simp add: accepted_read_def)

interpretation accepted: wire_codec
  CONNECTION_REQUEST_ACCEPTED "\<lambda>m. length (cra_system_addresses m) \<le> 20" accepted_wire
  accepted_write accepted_read
  by unfold_locales (simp_all add: accepted_write_body accepted_read_body accepted_read_no_panic)

section \<open>New incoming connection\<close>

record NewIncomingConnection =
  nic_server_address :: SocketAddr
  nic_system_addresses :: "SocketAddr list"
  nic_ping_time :: i64
  nic_pong_time :: i64

definition incoming_new :: "SocketAddr \<Rightarrow> i64 \<Rightarrow> i64 \<Rightarrow> NewIncomingConnection" where
  "incoming_new server_address ping_time pong_time =
     \<lparr>nic_server_address = server_address, nic_system_addresses = default_system_addresses,
      nic_ping_time = ping_time, nic_pong_time = pong_time\<rparr>"

definition incoming_read :: "bytes \<Rightarrow> NewIncomingConnection outcome" where
  "incoming_read data =
     (if length data < addr_size data then Err UnexpectedEof
      else and_then (read_addr data) (\<lambda>(server_address, offset).
           and_then (read_system_addresses data offset default_system_addresses)
             (\<lambda>(system_addresses, offset).
           and_then (read_times data offset) (\<lambda>(ping_time, pong_time).
             Ok \<lparr>nic_server_address = server_address, nic_system_addresses = system_addresses,
                 nic_ping_time = ping_time, nic_pong_time = pong_time\<rparr>))))"

definition incoming_write :: "NewIncomingConnection \<Rightarrow> bytes outcome" where
  "incoming_write self =
     and_then (append_addr (replicate 29 0) (nic_server_address self) [NEW_INCOMING_CONNECTION])
       (\<lambda>(addr_buf, buf).
     and_then (append_addrs addr_buf (nic_system_addresses self) buf) (\<lambda>(addr_buf, buf).
       Ok (buf @ to_be 8 (nic_ping_time self) @ to_be 8 (nic_pong_time self))))"

definition incoming_wire :: "NewIncomingConnection \<Rightarrow> NewIncomingConnection" where
  "incoming_wire m = m\<lparr>nic_server_address := addr_wire (nic_server_address m),
     nic_system_addresses := map addr_wire (nic_system_addresses m)
       @ drop (length (nic_system_addresses m)) default_system_addresses\<rparr>"

definition incoming_body :: "NewIncomingConnection \<Rightarrow> bytes" where
  "incoming_body m = addr_bytes (nic_server_address m)
     @ addrs_bytes (nic_system_addresses m) @ to_be 8 (nic_ping_time m) @ to_be 8 (nic_pong_time m)"

lemma incoming_write_body: "incoming_write m = Ok (NEW_INCOMING_CONNECTION # incoming_body m)"
proof -
  obtain ab where ab: "append_addr (replicate 29 0) (nic_server_address m) [NEW_INCOMING_CONNECTION]
      = Ok (ab, [NEW_INCOMING_CONNECTION] @ addr_bytes (nic_server_address m))" "length ab = 29"
    using append_addr_Ok [of "replicate 29 0" "nic_server_address m" "[NEW_INCOMING_CONNECTION]"]
    by auto
  with append_addrs_Ok [of ab "nic_system_addresses m"
      "[NEW_INCOMING_CONNECTION] @ addr_bytes (nic_server_address m)"]
  show ?thesis by (auto simp: incoming_write_def incoming_body_def)
qed

lemma incoming_read_body:
  assumes "length (nic_system_addresses m) \<le> 20"
  shows "incoming_read (incoming_body m) = Ok (incoming_wire m)"
proof -
  let ?pre = "addr_bytes (nic_server_address m)"
  let ?stamps = "to_be 8 (nic_ping_time m) @ to_be 8 (nic_pong_time m)"
  have "read_system_addresses (?pre @ addrs_bytes (nic_system_addresses m) @ ?stamps) (length ?pre)
      default_system_addresses = Ok (map addr_wire (nic_system_addresses m)
        @ drop (length (nic_system_addresses m)) default_system_addresses,
        length (?pre @ addrs_bytes (nic_system_addresses m)))"
    using read_system_addresses_bytes [OF refl, of ?stamps "nic_system_addresses m" default_system_addresses ?pre]
      assms by simp
  moreover have "read_times ((?pre @ addrs_bytes (nic_system_addresses m)) @ ?stamps)
      (length (?pre @ addrs_bytes (nic_system_addresses m))) = Ok (nic_ping_time m, nic_pong_time m)"
    by (rule read_times_bytes) simp
  ultimately show ?thesis
    by (cases m) (simp add: incoming_read_def incoming_body_def incoming_wire_def read_addr_bytes)
qed

lemma incoming_read_no_panic: "incoming_read data \<noteq> Panic"
proof (cases "length data < addr_size data")
  case False
  then have "addr_size data \<le> length data" by simp
  from read_system_addresses_total [OF this, of default_system_addresses] False
    read_addr_total [OF this]
  show ?thesis
    by (auto simp: incoming_read_def and_then_eq_Panic read_times_no_panic)
qed (simp add: incoming_read_def)

interpretation incoming: wire_codec
  NEW_INCOMING_CONNECTION "\<lambda>m. length (nic_system_addresses m) \<le> 20" incoming_wire
  incoming_write incoming_read
  by unfold_locales (simp_all add: incoming_write_body incoming_read_body incoming_read_no_panic)

section \<open>Properties\<close>

text \<open>
  The login messages survive the wire: for at most twenty system addresses the writer of
  each produces its identifier and a body, and the reader takes the body back to the message,
  with addresses as the wire keeps them and the missing ones defaulted.
\<close>

theorem login_messages_roundtrip:
  assumes "length (cra_system_addresses m) \<le> 20" and "length (nic_system_addresses m') \<le> 20"
  shows "\<exists>body body'. accepted_write m = Ok (CONNECTION_REQUEST_ACCEPTED # body)
    \<and> accepted_read body = Ok (accepted_wire m)
    \<and> incoming_write m' = Ok (NEW_INCOMING_CONNECTION # body')
    \<and> incoming_read body' = Ok (incoming_wire m')"
  using accepted.dec_enc [OF assms(1)] incoming.dec_enc [OF assms(2)] by blast

theorem login_messages_roundtrip_witness:
  "\<exists>body. accepted_write (accepted_new (V4 0x7F000001 9) 1 2) = Ok (0x10 # body)
     \<and> accepted_read body = Ok (accepted_new (V4 0x7F000001 9) 1 2)"
  using login_messages_roundtrip [of "accepted_new (V4 0x7F000001 9) 1 2" "incoming_new (V4 1 1) 0 0"]
  by (auto simp: accepted_new_def incoming_new_def accepted_wire_def id_defs default_system_addresses_def)

text \<open>
  No reader of a message panics, whatever bytes it is given: each either yields a message or
  an error.
\<close>

theorem message_readers_total:
  "connected_ping_read b \<noteq> Panic \<and> connected_pong_read b \<noteq> Panic \<and> connection_request_read b \<noteq> Panic
   \<and> accepted_read b \<noteq> Panic \<and> incoming_read b \<noteq> Panic
   \<and> unconnected_ping_read b \<noteq> Panic \<and> unconnected_pong_read b \<noteq> Panic \<and> ocr1_read b \<noteq> Panic
   \<and> reply1_read b \<noteq> Panic \<and> snd (ocr2_read self b) \<noteq> Panic \<and> reply2_read b \<noteq> Panic
   \<and> ipv_read b \<noteq> Panic"
  using connected_ping.dec_total connected_pong.dec_total connection_request.dec_total
    accepted.dec_total incoming.dec_total unconnected_ping.dec_total unconnected_pong.dec_total
    ocr1.dec_total reply1.dec_total ocr2.dec_total [of self b] reply2.dec_total ipv.dec_total
  by (auto simp: ocr2_decode_def)

text \<open>
  C36. The handshake messages survive the wire: an open connection request 1 of an MTU of at
  least 46 bytes is a datagram from whose length the reader recovers the MTU; a reply 1 keeps
  its cookie exactly when it announces security; a request 2 is read back by a reader that
  expects a cookie exactly when one was sent; and a reply 2 is read back.
\<close>

theorem handshake_messages_roundtrip:
  assumes "46 \<le> unat mtu" and "ocr2_server_has_security q = ocr2_server_has_security self"
  shows "(\<exists>body. ocr1_write prof (ocr1_new protocol mtu) = Ok (OPEN_CONNECTION_REQUEST_1 # body)
      \<and> length body = unat mtu - 29 \<and> ocr1_read body = Ok (ocr1_new protocol mtu))
    \<and> (\<exists>body. reply1_write r = Ok (OPEN_CONNECTION_REPLY_1 # body) \<and> reply1_read body = Ok (reply1_wire r))
    \<and> (\<exists>body. ocr2_write q = Ok (OPEN_CONNECTION_REQUEST_2 # body)
      \<and> ocr2_read self body = (ocr2_wire self q, Ok ()))
    \<and> (\<exists>body. reply2_write s = Ok (OPEN_CONNECTION_REPLY_2 # body) \<and> reply2_read body = Ok (reply2_wire s))"
proof -
  have "\<exists>body. ocr1_write prof (ocr1_new protocol mtu) = Ok (OPEN_CONNECTION_REQUEST_1 # body)
      \<and> length body = unat mtu - 29 \<and> ocr1_read body = Ok (ocr1_new protocol mtu)"
    using ocr1.dec_enc [of "ocr1_new protocol mtu" prof] assms(1)
    by (auto simp: ocr1_new_def ocr1_write_Ok)
  moreover have "\<exists>body. ocr2_write q = Ok (OPEN_CONNECTION_REQUEST_2 # body)
      \<and> ocr2_read self body = (ocr2_wire self q, Ok ())"
    using ocr2.dec_enc [OF assms(2)] by (auto simp: ocr2_decode_def and_then_eq_Ok prod_eq_iff)
  ultimately show ?thesis using reply1.dec_enc reply2.dec_enc by blast
qed

theorem handshake_messages_roundtrip_witness:
  "\<exists>body. ocr1_write Debug (ocr1_new 11 1492) = Ok (0x05 # body) \<and> length body = 1463
     \<and> ocr1_read body = Ok (ocr1_new 11 1492)"
  using handshake_messages_roundtrip [of 1492 "ocr2_new (V4 1 2) 3 4" ocr2_default Debug 11
      "reply1_new 0 0" "reply2_new 0 (V4 0 0) 0"]
  by (simp add: ocr2_new_def ocr2_default_def id_defs)

end
