(* ===== verification/Conn.thy ===== *)
theory Conn
  imports Acknowledge Datagram_Window Packet_Queue Resend_Map Connected_Messages
begin

text \<open>
  The connection, \<open>src/conn.rs\<close>: its state, the sending side (writing, internal messages,
  acknowledgements, retransmission) and its life cycle (closing, the ticker). The receiving side
  is in \<open>Conn_Receive\<close>.

  Methods on a shared \<open>Conn\<close> are functions from a connection to a connection and an outcome; the
  atomics, locks and the state behind the mutex are fields of one record. What a method does to
  the outside is appended to an effect log in program order: datagrams handed to the send
  channel, contents handed to the user, notifications. What it learns from the outside comes
  from an environment: the readings of the two clocks, whether the send channel still has its
  receiver, the iteration order of a hash map, and the compilation profile.
\<close>

unbundle bit_operations_syntax

section \<open>Constants\<close>

definition PROTOCOL_VERSION :: u8 where "PROTOCOL_VERSION = 11"
definition MIN_MTU_SIZE :: u16 where "MIN_MTU_SIZE = 400"
definition MAX_MTU_SIZE :: u16 where "MAX_MTU_SIZE = 1492"
definition MAX_WINDOW_SIZE :: u32 where "MAX_WINDOW_SIZE = 2048"
definition MAX_SPLIT_COUNT :: u32 where "MAX_SPLIT_COUNT = 512"
definition MAX_CONCURRENT_SPLITS :: nat where "MAX_CONCURRENT_SPLITS = 16"

section \<open>State\<close>

text \<open>
  \<open>Sent\<close> is a datagram an awaited send put into the channel, \<open>TrySent\<close> one offered without
  waiting (the channel drops it when it is full), \<open>Delivered\<close> a packet for the user.
\<close>

datatype effect =
    Sent bytes
  | TrySent bytes
  | Delivered bytes
  | NotifyConnected
  | NotifyCancel
  | RemoveFromListener SocketAddr

record env =
  env_profile :: profile
  clock :: "nat \<Rightarrow> instant"
  wall :: "nat \<Rightarrow> nat"
  send_ok :: "effect list \<Rightarrow> bool"
  hash_order :: "u32 list \<Rightarrow> u32 list"

text \<open>An environment for concrete runs: the clocks stand still and sends succeed.\<close>

definition still_env :: "profile \<Rightarrow> env" where
  "still_env prof =
     \<lparr>env_profile = prof, clock = (\<lambda>_. 0), wall = (\<lambda>_. 0), send_ok = (\<lambda>_. True), hash_order = (\<lambda>seqs. seqs)\<rparr>"

lemma still_env_simps [simp]:
  "env_profile (still_env prof) = prof" "clock (still_env prof) n = 0"
  "wall (still_env prof) n = 0" "send_ok (still_env prof) es" "hash_order (still_env prof) seqs = seqs"
  by (simp_all add: still_env_def)

record ConnState =
  st_buf :: bytes
  st_pk :: Packet
  st_seq :: Uint24
  st_order_index :: Uint24
  st_message_index :: Uint24
  st_split_id :: u32
  st_splits :: "(u16 \<times> bytes list) list"
  st_win :: DatagramWindow
  st_ack_slice :: "Uint24 list"
  st_packet_queue :: PacketQueue
  st_retransmission :: ResendMap

text \<open>
  \<open>c_tasks\<close> holds the messages whose sending task has been spawned and not run, \<open>c_log\<close> the
  effects so far and \<open>c_reads\<close> the number of clock readings.
\<close>

record Conn =
  c_remote_addr :: SocketAddr
  c_mtu :: u16
  c_rtt :: i64
  c_closing :: i64
  c_connected :: bool
  c_closed :: bool
  c_state :: ConnState
  c_last_activity :: instant
  c_ack_buf :: bytes
  c_nack_buf :: bytes
  c_tasks :: "bytes list"
  c_log :: "effect list"
  c_reads :: nat

definition read_clock :: "env \<Rightarrow> Conn \<Rightarrow> Conn \<times> instant" where
  "read_clock env conn = (conn\<lparr>c_reads := Suc (c_reads conn)\<rparr>, clock env (c_reads conn))"

text \<open>\<open>SystemTime::now\<close> since the epoch, in nanoseconds; the wall clock is assumed past it.\<close>

definition read_wall :: "env \<Rightarrow> Conn \<Rightarrow> Conn \<times> nat" where
  "read_wall env conn = (conn\<lparr>c_reads := Suc (c_reads conn)\<rparr>, wall env (c_reads conn))"

definition timestamp :: "env \<Rightarrow> Conn \<Rightarrow> Conn \<times> i64" where
  "timestamp env conn =
     (case read_wall env conn of (conn, t) \<Rightarrow> (conn, of_nat (t div 1000000)))"

definition emit :: "effect \<Rightarrow> Conn \<Rightarrow> Conn" where
  "emit e conn = conn\<lparr>c_log := c_log conn @ [e]\<rparr>"

definition conn_state_new :: ConnState where
  "conn_state_new =
     \<lparr>st_buf = [], st_pk = packet_new, st_seq = u24_new 0, st_order_index = u24_new 0,
      st_message_index = u24_new 0, st_split_id = 0, st_splits = [], st_win = dw_new,
      st_ack_slice = [], st_packet_queue = pq_new, st_retransmission = rm_new\<rparr>"

definition clamp_mtu :: "u16 \<Rightarrow> u16" where
  "clamp_mtu mtu = min (max mtu MIN_MTU_SIZE) MAX_MTU_SIZE"

definition conn_new :: "SocketAddr \<Rightarrow> u16 \<Rightarrow> instant \<Rightarrow> Conn" where
  "conn_new remote_addr mtu now =
     \<lparr>c_remote_addr = remote_addr, c_mtu = clamp_mtu mtu, c_rtt = 0, c_closing = 0,
      c_connected = False, c_closed = False, c_state = conn_state_new, c_last_activity = now,
      c_ack_buf = [], c_nack_buf = [], c_tasks = [], c_log = [], c_reads = 0\<rparr>"

text \<open>The field \<open>mtu\<close> is clamped at construction, so the subtraction does not underflow.\<close>

definition effective_mtu :: "Conn \<Rightarrow> u16" where
  "effective_mtu conn = c_mtu conn - 28"

text \<open>\<open>i64\<close> division truncates towards zero.\<close>

definition latency :: "Conn \<Rightarrow> duration" where
  "latency conn =
     (let rtt = sint (c_rtt conn); half = (if 0 \<le> rtt then rtt div 2 else - (- rtt div 2))
      in unat (word_of_int half :: u64))"

definition is_connected :: "Conn \<Rightarrow> bool" where
  "is_connected conn = c_connected conn"

definition mark_connected :: "Conn \<Rightarrow> Conn" where
  "mark_connected conn =
     (if c_connected conn then conn else emit NotifyConnected (conn\<lparr>c_connected := True\<rparr>))"

section \<open>The send channel\<close>

definition chan_send :: "env \<Rightarrow> bytes \<Rightarrow> Conn \<Rightarrow> Conn \<times> unit outcome" where
  "chan_send env data conn =
     (if send_ok env (c_log conn) then (emit (Sent data) conn, Ok ())
      else (conn, Err ConnectionClosed))"

definition chan_try_send :: "bytes \<Rightarrow> Conn \<Rightarrow> Conn" where
  "chan_try_send data conn = emit (TrySent data) conn"

section \<open>Writing\<close>

definition build_datagram :: "Uint24 \<Rightarrow> Packet \<Rightarrow> bytes" where
  "build_datagram seq pk =
     packet_write pk (write_uint24 [BIT_FLAG_DATAGRAM OR BIT_FLAG_NEEDS_B_AND_AS] seq)"

definition send_datagram :: "env \<Rightarrow> Packet \<Rightarrow> Conn \<Rightarrow> Conn \<times> unit outcome" where
  "send_datagram env pk conn =
     (let (seq, next_seq) = u24_inc (st_seq (c_state conn));
          data = build_datagram seq pk;
          (conn, now) = read_clock env conn;
          st = c_state conn;
          conn = conn\<lparr>c_state := st\<lparr>st_buf := data, st_seq := next_seq,
                    st_retransmission := rm_add now seq pk (st_retransmission st)\<rparr>\<rparr>
      in chan_send env data conn)"

text \<open>The packet of one fragment; \<open>fragments\<close> is the number of fragments.\<close>

definition fragment_packet ::
  "Uint24 \<Rightarrow> u16 \<Rightarrow> nat \<Rightarrow> nat \<Rightarrow> Uint24 \<Rightarrow> bytes \<Rightarrow> Packet" where
  "fragment_packet order split_id' fragments split_index' message content' =
     (let pk = packet_new\<lparr>content := content', order_index := order, message_index := message\<rparr>
      in if fragments > 1
         then pk\<lparr>split_flag := True, split_count := of_nat fragments,
                 split_index := of_nat split_index', split_id := split_id'\<rparr>
         else pk)"

fun write_fragments ::
  "env \<Rightarrow> Uint24 \<Rightarrow> u16 \<Rightarrow> nat \<Rightarrow> nat \<Rightarrow> bytes list \<Rightarrow> nat \<Rightarrow> Conn \<Rightarrow> Conn \<times> nat outcome" where
  "write_fragments env order split_id' fragments i [] n conn = (conn, Ok n)"
| "write_fragments env order split_id' fragments i (content' # rest) n conn =
     (let (message, next_message) = u24_inc (st_message_index (c_state conn));
          conn = conn\<lparr>c_state := (c_state conn)\<lparr>st_message_index := next_message\<rparr>\<rparr>;
          pk = fragment_packet order split_id' fragments i message content'
      in and_then_st (send_datagram env pk conn) (\<lambda>conn _.
           write_fragments env order split_id' fragments (Suc i) rest (n + length content') conn))"

definition write_locked :: "env \<Rightarrow> bytes \<Rightarrow> Conn \<Rightarrow> Conn \<times> nat outcome" where
  "write_locked env data conn =
     and_then_st (conn, split (env_profile env) data (effective_mtu conn)) (\<lambda>conn fragments.
       let (order, next_order) = u24_inc (st_order_index (c_state conn));
           st = (c_state conn)\<lparr>st_order_index := next_order\<rparr>;
           split_id' = ucast (st_split_id st) :: u16;
           st = (if length fragments > 1 then st\<lparr>st_split_id := st_split_id st + 1\<rparr> else st)
       in write_fragments env order split_id' (length fragments) 0 fragments 0
            (conn\<lparr>c_state := st\<rparr>))"

definition conn_write :: "env \<Rightarrow> bytes \<Rightarrow> Conn \<Rightarrow> Conn \<times> nat outcome" where
  "conn_write env data conn =
     (if c_closed conn then (conn, Err ConnectionClosed) else write_locked env data conn)"

section \<open>Internal messages\<close>

text \<open>
  \<open>send_message\<close> spawns a task and returns; \<open>send_message_task\<close> is the body of the task and
  \<open>run_task\<close> its execution, the \<open>k\<close>-th of those pending.
\<close>

definition send_message :: "bytes \<Rightarrow> Conn \<Rightarrow> Conn \<times> unit outcome" where
  "send_message data conn = (conn\<lparr>c_tasks := c_tasks conn @ [data]\<rparr>, Ok ())"

definition send_message_task :: "env \<Rightarrow> bytes \<Rightarrow> Conn \<Rightarrow> Conn" where
  "send_message_task env data conn =
     (let st = c_state conn;
          (order, next_order) = u24_inc (st_order_index st);
          (message, next_message) = u24_inc (st_message_index st);
          pk = packet_new\<lparr>content := data, order_index := order, message_index := message\<rparr>;
          (seq, next_seq) = u24_inc (st_seq st);
          buf = build_datagram seq pk;
          (conn, now) = read_clock env conn;
          conn = conn\<lparr>c_state := st\<lparr>st_order_index := next_order, st_message_index := next_message,
                    st_seq := next_seq,
                    st_retransmission := rm_add now seq pk (st_retransmission st)\<rparr>\<rparr>
      in chan_try_send buf conn)"

definition run_task :: "env \<Rightarrow> nat \<Rightarrow> Conn \<Rightarrow> Conn" where
  "run_task env k conn =
     (if k < length (c_tasks conn)
      then send_message_task env (c_tasks conn ! k)
             (conn\<lparr>c_tasks := take k (c_tasks conn) @ drop (Suc k) (c_tasks conn)\<rparr>)
      else conn)"

section \<open>Acknowledgements\<close>

text \<open>
  A clock reading is drawn for every number; it matters only when the number is pending.
\<close>

fun acknowledge_all :: "env \<Rightarrow> Uint24 list \<Rightarrow> Conn \<Rightarrow> Conn" where
  "acknowledge_all env [] conn = conn"
| "acknowledge_all env (seq # rest) conn =
     (let (conn, now) = read_clock env conn;
          st = c_state conn;
          (resend, _) = rm_acknowledge now seq (st_retransmission st)
      in acknowledge_all env rest (conn\<lparr>c_state := st\<lparr>st_retransmission := resend\<rparr>\<rparr>))"

definition handle_ack :: "env \<Rightarrow> bytes \<Rightarrow> Conn \<Rightarrow> Conn \<times> unit outcome" where
  "handle_ack env data conn =
     (case ack_read (env_profile env) [] data of
        (packets, Ok ()) \<Rightarrow> (acknowledge_all env packets conn, Ok ())
      | (packets, Err e) \<Rightarrow> (conn, Err e)
      | (packets, Panic) \<Rightarrow> (conn, Panic))"

text \<open>
  The loop shared by \<open>handle_nack\<close> and \<open>check_resend\<close>: a packet still awaiting acknowledgement is
  sent again in a datagram with a new sequence number.
\<close>

fun resend_all :: "env \<Rightarrow> Uint24 list \<Rightarrow> Conn \<Rightarrow> Conn" where
  "resend_all env [] conn = conn"
| "resend_all env (seq # rest) conn =
     (let (conn, now) = read_clock env conn;
          st = c_state conn
      in case rm_retransmit now seq (st_retransmission st) of
           (resend, None) \<Rightarrow> resend_all env rest conn
         | (resend, Some pk) \<Rightarrow>
             let (new_seq, next_seq) = u24_inc (st_seq st);
                 buf = build_datagram new_seq pk;
                 (conn, now) = read_clock env conn;
                 conn = conn\<lparr>c_state := st\<lparr>st_seq := next_seq,
                           st_retransmission := rm_add now new_seq pk resend\<rparr>\<rparr>
             in resend_all env rest (chan_try_send buf conn))"

definition handle_nack :: "env \<Rightarrow> bytes \<Rightarrow> Conn \<Rightarrow> Conn \<times> unit outcome" where
  "handle_nack env data conn =
     (case ack_read (env_profile env) [] data of
        (packets, Ok ()) \<Rightarrow> (resend_all env packets conn, Ok ())
      | (packets, Err e) \<Rightarrow> (conn, Err e)
      | (packets, Panic) \<Rightarrow> (conn, Panic))"

section \<open>Sending acknowledgements\<close>

lemma write_loop_count:
  "write_loop prof start_len mtu iter buf f l records n = Ok (buf', f', l', records', n') \<Longrightarrow>
     n \<le> n' \<and> n' \<le> n + length iter"
proof (induction iter arbitrary: buf f l records n)
  case (Cons pk iter)
  then show ?case
    by (fastforce simp: and_then_eq_Ok split: if_splits)
qed simp

lemma write_to_buf_count:
  assumes "write_to_buf prof ack buf mtu = Ok (buf', n)" and "ack \<noteq> []"
  shows "1 \<le> n \<and> n \<le> length ack"
proof -
  have "sort ack \<noteq> []" using assms(2) by (metis length_0_conv length_sort)
  then obtain a as where sorted: "sort ack = a # as" by (cases "sort ack") auto
  then have "length ack = Suc (length as)" by (metis length_Cons length_sort)
  with assms(1) sorted show ?thesis
    by (auto simp: write_to_buf_def Let_def and_then_eq_Ok dest!: write_loop_count split: prod.splits)
qed

text \<open>
  The loop of \<open>send_acknowledgement\<close>: the numbers dropped after a write are the first \<open>n\<close> of the
  list as it stands. A failed send is ignored.
\<close>

function send_ack_loop :: "env \<Rightarrow> u8 \<Rightarrow> Uint24 list \<Rightarrow> bytes \<Rightarrow> Conn \<Rightarrow> Conn \<times> bytes outcome" where
  "send_ack_loop env bitflag packets buf conn =
     (if packets = [] then (conn, Ok buf)
      else case write_to_buf (env_profile env) packets [bitflag OR BIT_FLAG_DATAGRAM]
                  (effective_mtu conn) of
        Ok (buf, n) \<Rightarrow>
          if length packets < n then (conn, Panic)
          else send_ack_loop env bitflag (drop n packets) buf (fst (chan_send env buf conn))
      | Err e \<Rightarrow> (conn, Err e)
      | Panic \<Rightarrow> (conn, Panic))"
  by pat_completeness auto
termination
  by (relation "measure (\<lambda>(env, bitflag, packets, buf, conn). length packets)")
    (auto dest: write_to_buf_count)

declare send_ack_loop.simps [simp del]

definition send_acknowledgement ::
  "env \<Rightarrow> Uint24 list \<Rightarrow> u8 \<Rightarrow> bytes \<Rightarrow> Conn \<Rightarrow> Conn \<times> bytes outcome" where
  "send_acknowledgement env packets bitflag buf conn =
     and_then_st (send_ack_loop env bitflag packets buf conn) (\<lambda>conn buf. (conn, Ok []))"

definition send_ack :: "env \<Rightarrow> Uint24 list \<Rightarrow> Conn \<Rightarrow> Conn \<times> unit outcome" where
  "send_ack env packets conn =
     and_then_st (send_acknowledgement env packets BIT_FLAG_ACK (c_ack_buf conn) conn)
       (\<lambda>conn buf. (conn\<lparr>c_ack_buf := buf\<rparr>, Ok ()))"

definition send_nack :: "env \<Rightarrow> Uint24 list \<Rightarrow> Conn \<Rightarrow> Conn \<times> unit outcome" where
  "send_nack env packets conn =
     and_then_st (send_acknowledgement env packets BIT_FLAG_NACK (c_nack_buf conn) conn)
       (\<lambda>conn buf. (conn\<lparr>c_nack_buf := buf\<rparr>, Ok ()))"

text \<open>\<open>let _ = ..\<close>: an error is dropped, a panic is not.\<close>

fun ignore_error :: "'s \<times> 'a outcome \<Rightarrow> 's \<times> unit outcome" where
  "ignore_error (s, Panic) = (s, Panic)"
| "ignore_error (s, r) = (s, Ok ())"

definition flush_acks :: "env \<Rightarrow> Conn \<Rightarrow> Conn \<times> unit outcome" where
  "flush_acks env conn =
     (let st = c_state conn; packets = st_ack_slice st in
      if packets = [] then (conn, Ok ())
      else ignore_error (send_ack env packets (conn\<lparr>c_state := st\<lparr>st_ack_slice := []\<rparr>\<rparr>)))"

section \<open>Retransmission by age\<close>

text \<open>The map is iterated in the order the environment chooses.\<close>

definition overdue_records :: "env \<Rightarrow> instant \<Rightarrow> duration \<Rightarrow> ResendMap \<Rightarrow> Uint24 list" where
  "overdue_records env now delay m =
     map u24_new (hash_order env
       (map fst (filter (\<lambda>(seq, record). duration_since now (rr_timestamp record) > delay)
                        (unacknowledged m))))"

definition check_resend :: "env \<Rightarrow> instant \<Rightarrow> Conn \<Rightarrow> Conn" where
  "check_resend env now conn =
     (let st = c_state conn;
          (resend, rtt) = rm_rtt now (st_retransmission st);
          delay = rtt + rtt div 2;
          conn = conn\<lparr>c_rtt := of_nat rtt, c_state := st\<lparr>st_retransmission := resend\<rparr>\<rparr>
      in resend_all env (overdue_records env now delay resend) conn)"

section \<open>Closing\<close>

text \<open>The \<open>compare_exchange\<close>: the first call fixes the time.\<close>

definition conn_close :: "env \<Rightarrow> Conn \<Rightarrow> Conn" where
  "conn_close env conn =
     (case read_wall env conn of (conn, t) \<Rightarrow>
        if c_closing conn = 0 then conn\<lparr>c_closing := of_nat (t div 1000000000)\<rparr> else conn)"

text \<open>\<open>handler_close\<close> is the handler's \<open>close\<close>.\<close>

definition close_immediately :: "(Conn \<Rightarrow> Conn) \<Rightarrow> Conn \<Rightarrow> Conn" where
  "close_immediately handler_close conn =
     (if c_closed conn then conn
      else emit NotifyCancel (handler_close
             (fst (send_message [DISCONNECT_NOTIFICATION] (conn\<lparr>c_closed := True\<rparr>)))))"

section \<open>The ticker\<close>

text \<open>
  One iteration of the loop in \<open>start_ticking\<close> on a tick of the interval. The result carries the
  new tick count and whether the loop ends. The subtraction of the closing time wraps like the
  code's cast.
\<close>

definition tick ::
  "env \<Rightarrow> (Conn \<Rightarrow> Conn) \<Rightarrow> u64 \<Rightarrow> Conn \<Rightarrow> Conn \<times> (u64 \<times> bool) outcome" where
  "tick env handler_close tick_count conn =
     (let tick_count = tick_count + 1 in
      and_then_st (flush_acks env conn) (\<lambda>conn _.
        let conn = (if tick_count mod 3 = 0
                    then (case read_clock env conn of (conn, now) \<Rightarrow> check_resend env now conn)
                    else conn);
            closing_time = c_closing conn
        in if closing_time \<noteq> 0 then
             let acks_left = length (unacknowledged (st_retransmission (c_state conn)));
                 (conn, t) = read_wall env conn;
                 now = of_nat (t div 1000000000) :: i64;
                 since = from_secs (unat (now - closing_time))
             in if (acks_left = 0 \<and> since > from_secs 1) \<or> since > from_secs 5
                then (close_immediately handler_close conn, Ok (tick_count, True))
                else (conn, Ok (tick_count, False))
           else if tick_count mod 5 = 0 then
             let (conn, t) = timestamp env conn in
             case connected_ping_write (connected_ping_new t) of
               Ok ping \<Rightarrow>
                 let (conn, _) = send_message ping conn;
                     (conn, now) = read_clock env conn;
                     rtt = unat (c_rtt conn);
                     conn = (if duration_since now (c_last_activity conn) > from_secs 5 + rtt * 2
                             then conn_close env conn else conn)
                 in (conn, Ok (tick_count, False))
             | Err e \<Rightarrow> (conn, Err e)
             | Panic \<Rightarrow> (conn, Panic)
           else (conn, Ok (tick_count, False))))"

end
