(* ===== verification/Conn_Receive.thy ===== *)
theory Conn_Receive
  imports Conn
begin

text \<open>
  The receiving side of the connection, \<open>src/conn.rs\<close>: the dispatch on the flags of a datagram,
  the receive window, the packets of a datagram, ordering, reassembly of split packets and the
  hand-over to the connection handler and the user. The trait \<open>ConnectionHandler\<close> of
  \<open>src/handler.rs\<close> is a record of functions and, for what the receive path relies on, a locale.
\<close>

unbundle bit_operations_syntax

record ConnectionHandler =
  h_handle :: "env \<Rightarrow> bytes \<Rightarrow> Conn \<Rightarrow> Conn \<times> bool outcome"
  h_limits_enabled :: bool
  h_close :: "Conn \<Rightarrow> Conn"

section \<open>Handing packets over\<close>

text \<open>
  An unhandled packet goes to the user's channel; its receiver is a field of the connection, so
  the awaited send does not fail.
\<close>

definition handle_packet ::
  "env \<Rightarrow> ConnectionHandler \<Rightarrow> bytes \<Rightarrow> Conn \<Rightarrow> Conn \<times> unit outcome" where
  "handle_packet env h content' conn =
     (if content' = [] then (conn, Err ZeroPacket)
      else if c_closing conn \<noteq> 0 then (conn, Ok ())
      else and_then_st (h_handle h env content' conn) (\<lambda>conn handled.
        (if handled then conn else emit (Delivered content') conn, Ok ())))"

fun handle_packets ::
  "env \<Rightarrow> ConnectionHandler \<Rightarrow> bytes list \<Rightarrow> Conn \<Rightarrow> Conn \<times> unit outcome" where
  "handle_packets env h [] conn = (conn, Ok ())"
| "handle_packets env h (content' # rest) conn =
     and_then_st (handle_packet env h content' conn) (\<lambda>conn _. handle_packets env h rest conn)"

section \<open>Ordering\<close>

definition receive_packet ::
  "env \<Rightarrow> ConnectionHandler \<Rightarrow> Packet \<Rightarrow> Conn \<Rightarrow> Conn \<times> unit outcome" where
  "receive_packet env h pk conn =
     (if reliability pk \<noteq> RELIABILITY_RELIABLE_ORDERED then handle_packet env h (content pk) conn
      else
        let st = c_state conn;
            (queue, fresh) = pq_put (order_index pk) (content pk) (st_packet_queue st);
            conn = conn\<lparr>c_state := st\<lparr>st_packet_queue := queue\<rparr>\<rparr>
        in if \<not> fresh then (conn, Ok ())
           else and_then_st (conn, pq_window_size (env_profile env) queue) (\<lambda>conn size.
             if size > MAX_WINDOW_SIZE \<and> h_limits_enabled h
             then (conn, Err (WindowSizeTooBig (u24 (pq_lowest queue)) (u24 (pq_highest queue))))
             else
               let st = c_state conn; (queue, packets) = pq_fetch (st_packet_queue st)
               in handle_packets env h packets (conn\<lparr>c_state := st\<lparr>st_packet_queue := queue\<rparr>\<rparr>)))"

section \<open>Reassembly\<close>

text \<open>Decimal numbers, as \<open>format!\<close> prints them.\<close>

fun decimal :: "nat \<Rightarrow> string" where
  "decimal n =
     (if n < 10 then [char_of (48 + n)] else decimal (n div 10) @ [char_of (48 + n mod 10)])"

declare decimal.simps [simp del]

text \<open>
  The fragments collected for the packet's split identifier, an entry of \<open>split_count\<close> empty
  slots being created first where there is none. \<open>fragments.len() - 1\<close> in the message of the
  last error underflows when the entry has no slots.
\<close>

definition receive_split_packet ::
  "env \<Rightarrow> ConnectionHandler \<Rightarrow> Packet \<Rightarrow> Conn \<Rightarrow> Conn \<times> unit outcome" where
  "receive_split_packet env h pk conn =
     (let st = c_state conn in
      if split_count pk > MAX_SPLIT_COUNT \<and> h_limits_enabled h
      then (conn, Err (SplitPacket (''split count '' @ decimal (unat (split_count pk))
                 @ '' exceeds maximum '' @ decimal (unat MAX_SPLIT_COUNT))))
      else if length (st_splits st) > MAX_CONCURRENT_SPLITS \<and> h_limits_enabled h
      then (conn, Err (SplitPacket (''maximum concurrent splits ''
                 @ decimal MAX_CONCURRENT_SPLITS @ '' reached'')))
      else
        let fragments = (case map_of (st_splits st) (split_id pk) of
                           Some fragments \<Rightarrow> fragments
                         | None \<Rightarrow> replicate (unat (split_count pk)) []);
            splits = AList.update (split_id pk) fragments (st_splits st);
            conn = conn\<lparr>c_state := st\<lparr>st_splits := splits\<rparr>\<rparr>
        in if unat (split_index pk) \<ge> length fragments
           then and_then_st (conn, sub_ovf (env_profile env) (of_nat (length fragments) :: u64) 1)
                  (\<lambda>conn last_index.
                    (conn, Err (SplitPacket (''split index '' @ decimal (unat (split_index pk))
                       @ '' is out of range (0 - '' @ decimal (unat last_index) @ '')''))))
           else
             let fragments = fragments[unat (split_index pk) := content pk];
                 splits = AList.update (split_id pk) fragments splits;
                 conn = conn\<lparr>c_state := st\<lparr>st_splits := splits\<rparr>\<rparr>
             in if list_ex (\<lambda>f. f = []) fragments then (conn, Ok ())
                else
                  let conn = conn\<lparr>c_state := st\<lparr>st_splits := AList.delete (split_id pk) splits\<rparr>\<rparr>;
                      combined = packet_new\<lparr>content := concat fragments,
                                   order_index := order_index pk, reliability := reliability pk\<rparr>
                  in receive_packet env h combined conn)"

section \<open>Datagrams\<close>

text \<open>
  The reader fills the reusable packet of the state and leaves it there when it fails; each
  packet read shortens the rest of the datagram.
\<close>

lemma packet_read_progress:
  assumes "packet_read p data = (pk, Ok n)" and "data \<noteq> []"
  shows "length (drop n data) < length data"
  using assms packet_read_fine [of data p] by (cases data) (auto simp: read_fine_def)

definition dispatch_packet ::
  "env \<Rightarrow> ConnectionHandler \<Rightarrow> Packet \<Rightarrow> Conn \<Rightarrow> Conn \<times> unit outcome" where
  "dispatch_packet env h pk conn =
     (if split_flag pk then receive_split_packet env h pk conn else receive_packet env h pk conn)"

definition set_pk :: "Packet \<Rightarrow> Conn \<Rightarrow> Conn" where
  "set_pk pk conn = conn\<lparr>c_state := (c_state conn)\<lparr>st_pk := pk\<rparr>\<rparr>"

function handle_datagram ::
  "env \<Rightarrow> ConnectionHandler \<Rightarrow> bytes \<Rightarrow> Conn \<Rightarrow> Conn \<times> unit outcome" where
  "handle_datagram env h data conn =
     (if data = [] then (conn, Ok ())
      else case packet_read (st_pk (c_state conn)) data of
        (pk, Ok n) \<Rightarrow>
          and_then_st (dispatch_packet env h pk (set_pk packet_new conn))
            (\<lambda>conn _. handle_datagram env h (drop n data) conn)
      | (pk, Err e) \<Rightarrow> (set_pk pk conn, Err e)
      | (pk, Panic) \<Rightarrow> (set_pk pk conn, Panic))"
  by pat_completeness auto
termination
  by (relation "measure (\<lambda>(env, h, data, conn). length data)") (auto dest!: packet_read_progress [OF sym])

declare handle_datagram.simps [simp del]

text \<open>
  \<open>missing\<close> reads the clock for every gap; the readings are drawn in the order of its traversal,
  from the highest number down.
\<close>

definition window_missing :: "env \<Rightarrow> duration \<Rightarrow> Conn \<Rightarrow> Conn \<times> Uint24 list" where
  "window_missing env since conn =
     (let (conn, now) = read_clock env conn;
          k = c_reads conn;
          st = c_state conn;
          (win, indices) = dw_missing now (\<lambda>i. clock env (k + (2 ^ 24 - unat i))) since (st_win st)
      in (conn\<lparr>c_reads := k + 2 ^ 24 + 1, c_state := st\<lparr>st_win := win\<rparr>\<rparr>, indices))"

definition receive_datagram ::
  "env \<Rightarrow> ConnectionHandler \<Rightarrow> bytes \<Rightarrow> Conn \<Rightarrow> Conn \<times> unit outcome" where
  "receive_datagram env h data conn =
     (if length data < 3 then (conn, Err UnexpectedEof)
      else and_then_st (conn, load_uint24 data) (\<lambda>conn seq.
        let (conn, now) = read_clock env conn;
            st = c_state conn;
            (win, fresh) = dw_add now seq (st_win st)
        in if \<not> fresh then (conn, Ok ())
           else
             let (win, shifted) = dw_shift win;
                 conn = conn\<lparr>c_state := st\<lparr>st_win := win, st_ack_slice := st_ack_slice st @ [seq]\<rparr>\<rparr>;
                 rtt = unat (c_rtt conn);
                 (conn, missing) = (if shifted = 0 then window_missing env (rtt + rtt div 2) conn
                                    else (conn, []));
                 win = st_win (c_state conn)
             in and_then_st (conn, dw_size (env_profile env) win) (\<lambda>conn size.
                and_then_st (if missing = [] then (conn, Ok ()) else send_nack env missing conn)
                  (\<lambda>conn _.
                if size > MAX_WINDOW_SIZE \<and> h_limits_enabled h
                then (conn, Err (WindowSizeTooBig (u24 (dw_lowest win)) (u24 (dw_highest win))))
                else handle_datagram env h (drop 3 data) conn))))"

definition conn_receive ::
  "env \<Rightarrow> ConnectionHandler \<Rightarrow> bytes \<Rightarrow> Conn \<Rightarrow> Conn \<times> unit outcome" where
  "conn_receive env h data conn =
     (let (conn, now) = read_clock env conn;
          conn = conn\<lparr>c_last_activity := now\<rparr>
      in case data of
           [] \<Rightarrow> (conn, Ok ())
         | b # rest \<Rightarrow>
             if b AND BIT_FLAG_ACK \<noteq> 0 then handle_ack env rest conn
             else if b AND BIT_FLAG_NACK \<noteq> 0 then handle_nack env rest conn
             else if b AND BIT_FLAG_DATAGRAM \<noteq> 0 then receive_datagram env h rest conn
             else (conn, Ok ()))"

end
