(* ===== verification/Handler_Contract.thy ===== *)
theory Handler_Contract
  imports Conn_Receive
begin

text \<open>
  What the receive path relies on from a \<open>ConnectionHandler\<close>, as a locale, and what it then
  guarantees: which parts of the connection each method touches, that no datagram panics a
  connection compiled without overflow checks, and that the reassembly state stays bounded.
\<close>

section \<open>What a handler may do\<close>

text \<open>The packets handed to the user, in order.\<close>

fun user_packets :: "effect list \<Rightarrow> bytes list" where
  "user_packets [] = []"
| "user_packets (Delivered c # es) = c # user_packets es"
| "user_packets (_ # es) = user_packets es"

lemma user_packets_append [simp]: "user_packets (es @ es') = user_packets es @ user_packets es'"
  by (induction es rule: user_packets.induct) auto

text \<open>The datagrams awaited sends put into the channel.\<close>

fun sent_datagrams :: "effect list \<Rightarrow> bytes list" where
  "sent_datagrams [] = []"
| "sent_datagrams (Sent d # es) = d # sent_datagrams es"
| "sent_datagrams (_ # es) = sent_datagrams es"

lemma sent_datagrams_append [simp]:
  "sent_datagrams (es @ es') = sent_datagrams es @ sent_datagrams es'"
  by (induction es rule: sent_datagrams.induct) auto

text \<open>All datagrams put into the channel, offered without waiting or not.\<close>

fun emitted_log :: "effect list \<Rightarrow> bytes list" where
  "emitted_log [] = []"
| "emitted_log (Sent d # es) = d # emitted_log es"
| "emitted_log (TrySent d # es) = d # emitted_log es"
| "emitted_log (_ # es) = emitted_log es"

lemma emitted_log_append [simp]: "emitted_log (es @ es') = emitted_log es @ emitted_log es'"
  by (induction es rule: emitted_log.induct) auto

abbreviation emitted :: "Conn \<Rightarrow> bytes list" where
  "emitted conn \<equiv> emitted_log (c_log conn)"

text \<open>
  A handler works on the flags and on the tasks of the connection; it does not touch the state
  behind the mutex (a task it spawns will), delivers nothing and starts no closing.
\<close>

definition internal :: "Conn \<Rightarrow> Conn \<Rightarrow> bool" where
  "internal conn conn' \<longleftrightarrow>
     c_state conn' = c_state conn \<and> c_remote_addr conn' = c_remote_addr conn
     \<and> c_mtu conn' = c_mtu conn \<and> c_closing conn' = c_closing conn
     \<and> (c_connected conn \<longrightarrow> c_connected conn') \<and> (c_closed conn \<longrightarrow> c_closed conn')
     \<and> user_packets (c_log conn') = user_packets (c_log conn)
     \<and> sent_datagrams (c_log conn') = sent_datagrams (c_log conn)
     \<and> emitted conn' = emitted conn \<and> c_reads conn \<le> c_reads conn'"

lemma internal_refl [simp]: "internal conn conn"
  by (simp add: internal_def)

lemma internal_trans: "internal a b \<Longrightarrow> internal b c \<Longrightarrow> internal a c"
  by (auto simp: internal_def)

lemma internal_reads [simp]: "c_reads conn \<le> n \<Longrightarrow> internal conn (conn\<lparr>c_reads := n\<rparr>)"
  by (simp add: internal_def)

lemma internal_tasks [simp]: "internal conn (conn\<lparr>c_tasks := ts\<rparr>)"
  by (simp add: internal_def)

lemma internal_timestamp [simp]: "internal conn (fst (timestamp env conn))"
  by (simp add: timestamp_def read_wall_def)

lemma internal_send_message [simp]: "internal conn (fst (send_message data conn))"
  by (simp add: send_message_def)

lemma internal_mark_connected [simp]: "internal conn (mark_connected conn)"
  by (simp add: mark_connected_def internal_def emit_def)

lemma internal_close_immediately:
  assumes "\<And>conn. internal conn (close conn)"
  shows "internal conn (close_immediately close conn)"
proof -
  let ?c = "conn\<lparr>c_closed := True, c_tasks := c_tasks conn @ [[DISCONNECT_NOTIFICATION]]\<rparr>"
  have "internal conn ?c" by (simp add: internal_def)
  then have "internal conn (close ?c)" using assms internal_trans by blast
  moreover have "internal (close ?c) (emit NotifyCancel (close ?c))"
    by (simp add: internal_def emit_def)
  ultimately show ?thesis
    by (auto simp: close_immediately_def send_message_def intro: internal_trans)
qed

text \<open>The first bytes of the messages handlers process.\<close>

definition reserved_ids :: "u8 set" where
  "reserved_ids =
     {CONNECTION_REQUEST, CONNECTION_REQUEST_ACCEPTED, NEW_INCOMING_CONNECTION, CONNECTED_PING,
      CONNECTED_PONG, DISCONNECT_NOTIFICATION, DETECT_LOST_CONNECTIONS}"

section \<open>The contract\<close>

locale connection_handler =
  fixes h :: ConnectionHandler
  assumes handle_internal: "internal conn (fst (h_handle h env data conn))"
    and handle_no_panic: "snd (h_handle h env data conn) \<noteq> Panic"
    and unhandled: "data \<noteq> [] \<Longrightarrow> hd data \<notin> reserved_ids \<Longrightarrow> h_handle h env data conn = (conn, Ok False)"
    and close_internal: "internal conn (h_close h conn)"
begin

text \<open>Handing packets over never panics and leaves the state alone.\<close>

lemma handle_packet_frame:
  "c_state (fst (handle_packet env h c conn)) = c_state conn
   \<and> c_mtu (fst (handle_packet env h c conn)) = c_mtu conn
   \<and> c_closing (fst (handle_packet env h c conn)) = c_closing conn
   \<and> emitted (fst (handle_packet env h c conn)) = emitted conn
   \<and> c_reads conn \<le> c_reads (fst (handle_packet env h c conn))
   \<and> snd (handle_packet env h c conn) \<noteq> Panic"
proof (cases "h_handle h env c conn")
  case (Pair conn' r)
  then show ?thesis
    using handle_internal [of conn env c] handle_no_panic [of env c conn]
    by (cases r) (auto simp: handle_packet_def internal_def emit_def)
qed

lemma handle_packet_closing:
  "c_closing conn \<noteq> 0 \<Longrightarrow> user_packets (c_log (fst (handle_packet env h c conn))) = user_packets (c_log conn)"
  by (simp add: handle_packet_def)

lemma handle_packet_unhandled:
  "c \<noteq> [] \<Longrightarrow> hd c \<notin> reserved_ids \<Longrightarrow> c_closing conn = 0 \<Longrightarrow>
   handle_packet env h c conn = (emit (Delivered c) conn, Ok ())"
  by (simp add: handle_packet_def unhandled)

lemma handle_packets_frame:
  "c_state (fst (handle_packets env h cs conn)) = c_state conn
   \<and> c_mtu (fst (handle_packets env h cs conn)) = c_mtu conn
   \<and> c_closing (fst (handle_packets env h cs conn)) = c_closing conn
   \<and> emitted (fst (handle_packets env h cs conn)) = emitted conn
   \<and> c_reads conn \<le> c_reads (fst (handle_packets env h cs conn))
   \<and> snd (handle_packets env h cs conn) \<noteq> Panic"
proof (induction cs arbitrary: conn)
  case Nil
  then show ?case by simp
next
  case (Cons c cs)
  obtain conn' r where hp: "handle_packet env h c conn = (conn', r)"
    by (cases "handle_packet env h c conn")
  then show ?case using handle_packet_frame [of env c conn] Cons.IH [of conn'] by (cases r) auto
qed

lemma handle_packets_closing:
  "c_closing conn \<noteq> 0 \<Longrightarrow>
   user_packets (c_log (fst (handle_packets env h cs conn))) = user_packets (c_log conn)"
proof (induction cs arbitrary: conn)
  case Nil
  then show ?case by simp
next
  case (Cons c cs)
  obtain conn' r where hp: "handle_packet env h c conn = (conn', r)"
    by (cases "handle_packet env h c conn")
  then show ?case
    using handle_packet_frame [of env c conn] handle_packet_closing [of conn env c] Cons
    by (cases r) auto
qed

text \<open>A run of packets none of which the handler takes goes to the user, in order.\<close>

lemma handle_packets_unhandled:
  "list_all (\<lambda>c. c \<noteq> [] \<and> hd c \<notin> reserved_ids) cs \<Longrightarrow> c_closing conn = 0 \<Longrightarrow>
   \<exists>conn'. handle_packets env h cs conn = (conn', Ok ()) \<and> c_state conn' = c_state conn
     \<and> c_mtu conn' = c_mtu conn \<and> c_closing conn' = 0
     \<and> user_packets (c_log conn') = user_packets (c_log conn) @ cs"
proof (induction cs arbitrary: conn)
  case Nil
  then show ?case by simp
next
  case (Cons c cs)
  then have "handle_packet env h c conn = (emit (Delivered c) conn, Ok ())"
    by (simp add: handle_packet_unhandled)
  with Cons.IH [of "emit (Delivered c) conn"] Cons.prems show ?case
    by (auto simp: emit_def)
qed

text \<open>Ordering touches the packet queue only, and sends nothing.\<close>

lemma emitted_receive_packet: "emitted (fst (receive_packet env h pk conn)) = emitted conn"
  using handle_packet_frame handle_packets_frame
  by (auto simp: receive_packet_def Let_def and_then_st_def split: prod.splits outcome.splits)

lemma receive_packet_frame:
  "\<exists>q. c_state (fst (receive_packet env h pk conn)) = (c_state conn)\<lparr>st_packet_queue := q\<rparr>"
  using handle_packet_frame handle_packets_frame
  by (auto simp: receive_packet_def Let_def and_then_st_def pq_window_size_def sub_ovf_def
      intro: exI [of _ "st_packet_queue (c_state conn)"] split: prod.splits outcome.splits)

end

end
