(* ===== verification/Handler.thy ===== *)
theory Handler
  imports Handler_Contract
begin

text \<open>
  The two connection handlers of \<open>src/handler.rs\<close>: the listener's, which answers the login
  sequence of a client, and the dialer's, which completes it; the internal messages both process;
  and the proof that both keep the contract of the receive path. The hash of the cookie comes
  from the package \<open>crc32fast\<close> and is a parameter.
\<close>

section \<open>Cookies\<close>

definition to_le :: "nat \<Rightarrow> 'a::len word \<Rightarrow> bytes" where
  "to_le n w = rev (to_be n w)"

text \<open>The port overwrites the first two bytes of the salt.\<close>

definition cookie_data :: "u32 \<Rightarrow> SocketAddr \<Rightarrow> bytes" where
  "cookie_data salt addr =
     (let data = replicate 6 0;
          data = to_le 4 salt @ drop 4 data;
          data = to_le 2 (addr_port addr) @ drop 2 data
      in data @ ip_octets addr)"

definition cookie :: "(bytes \<Rightarrow> u32) \<Rightarrow> u32 \<Rightarrow> bool \<Rightarrow> SocketAddr \<Rightarrow> u32" where
  "cookie crc salt disable_cookies addr =
     (if disable_cookies then 0 else crc (cookie_data salt addr))"

section \<open>Messages both sides process\<close>

definition handle_connected_ping :: "env \<Rightarrow> bytes \<Rightarrow> Conn \<Rightarrow> Conn \<times> unit outcome" where
  "handle_connected_ping env data conn =
     and_then_st (conn, connected_ping_read data) (\<lambda>conn pk.
       let (conn, t) = timestamp env conn in
       and_then_st (conn, connected_pong_write (connected_pong_new (cping_ping_time pk) t))
         (\<lambda>conn response. send_message response conn))"

definition handle_connected_pong :: "env \<Rightarrow> bytes \<Rightarrow> Conn \<Rightarrow> Conn \<times> unit outcome" where
  "handle_connected_pong env data conn =
     and_then_st (conn, connected_pong_read data) (\<lambda>conn pk.
       let (conn, t) = timestamp env conn in
       if sint (cpong_ping_time pk) > sint t then (conn, Err TimestampInFuture) else (conn, Ok ()))"

definition handle_detect_lost :: "env \<Rightarrow> Conn \<Rightarrow> Conn \<times> unit outcome" where
  "handle_detect_lost env conn =
     (let (conn, t) = timestamp env conn in
      and_then_st (conn, connected_ping_write (connected_ping_new t))
        (\<lambda>conn ping. send_message ping conn))"

text \<open>\<open>op?; Ok(true)\<close>.\<close>

definition handled :: "Conn \<times> unit outcome \<Rightarrow> Conn \<times> bool outcome" where
  "handled r = and_then_st r (\<lambda>conn _. (conn, Ok True))"

section \<open>The listener's handler\<close>

definition handle_connection_request :: "env \<Rightarrow> bytes \<Rightarrow> Conn \<Rightarrow> Conn \<times> unit outcome" where
  "handle_connection_request env data conn =
     and_then_st (conn, connection_request_read data) (\<lambda>conn pk.
       let (conn, t) = timestamp env conn in
       and_then_st
         (conn, accepted_write (accepted_new (c_remote_addr conn) (creq_request_time pk) t))
         (\<lambda>conn response. send_message response conn))"

definition handle_new_incoming_connection :: "Conn \<Rightarrow> Conn \<times> unit outcome" where
  "handle_new_incoming_connection conn = (mark_connected conn, Ok ())"

text \<open>\<open>close\<close> removes the connection from the map it shares with the listener.\<close>

definition listener_close :: "Conn \<Rightarrow> Conn" where
  "listener_close conn = emit (RemoveFromListener (c_remote_addr conn)) conn"

definition listener_handle :: "env \<Rightarrow> bytes \<Rightarrow> Conn \<Rightarrow> Conn \<times> bool outcome" where
  "listener_handle env data conn =
     (case data of
        [] \<Rightarrow> (conn, Ok False)
      | b # rest \<Rightarrow>
          if b = CONNECTION_REQUEST then handled (handle_connection_request env rest conn)
          else if b = CONNECTION_REQUEST_ACCEPTED
          then (conn, Err (UnexpectedPacket ''CONNECTION_REQUEST_ACCEPTED''))
          else if b = NEW_INCOMING_CONNECTION then handled (handle_new_incoming_connection conn)
          else if b = CONNECTED_PING then handled (handle_connected_ping env rest conn)
          else if b = CONNECTED_PONG then handled (handle_connected_pong env rest conn)
          else if b = DISCONNECT_NOTIFICATION
          then (close_immediately listener_close conn, Ok True)
          else if b = DETECT_LOST_CONNECTIONS then handled (handle_detect_lost env conn)
          else (conn, Ok False))"

definition listener_handler :: ConnectionHandler where
  "listener_handler =
     \<lparr>h_handle = listener_handle, h_limits_enabled = True, h_close = listener_close\<rparr>"

section \<open>The dialer's handler\<close>

text \<open>The reply is enqueued before the connection is marked.\<close>

definition handle_connection_request_accepted :: "env \<Rightarrow> bytes \<Rightarrow> Conn \<Rightarrow> Conn \<times> unit outcome" where
  "handle_connection_request_accepted env data conn =
     and_then_st (conn, accepted_read data) (\<lambda>conn pk.
       let (conn, t) = timestamp env conn in
       and_then_st (conn, incoming_write (incoming_new (c_remote_addr conn) (cra_pong_time pk) t))
         (\<lambda>conn response.
       and_then_st (send_message response conn) (\<lambda>conn _. (mark_connected conn, Ok ()))))"

definition dialer_close :: "Conn \<Rightarrow> Conn" where
  "dialer_close conn = conn"

definition dialer_handle :: "env \<Rightarrow> bytes \<Rightarrow> Conn \<Rightarrow> Conn \<times> bool outcome" where
  "dialer_handle env data conn =
     (case data of
        [] \<Rightarrow> (conn, Ok False)
      | b # rest \<Rightarrow>
          if b = CONNECTION_REQUEST then (conn, Err (UnexpectedPacket ''CONNECTION_REQUEST''))
          else if b = CONNECTION_REQUEST_ACCEPTED
          then handled (handle_connection_request_accepted env rest conn)
          else if b = NEW_INCOMING_CONNECTION
          then (conn, Err (UnexpectedPacket ''NEW_INCOMING_CONNECTION''))
          else if b = CONNECTED_PING then handled (handle_connected_ping env rest conn)
          else if b = CONNECTED_PONG then handled (handle_connected_pong env rest conn)
          else if b = DISCONNECT_NOTIFICATION
          then (close_immediately dialer_close conn, Ok True)
          else if b = DETECT_LOST_CONNECTIONS then handled (handle_detect_lost env conn)
          else (conn, Ok False))"

definition dialer_handler :: ConnectionHandler where
  "dialer_handler =
     \<lparr>h_handle = dialer_handle, h_limits_enabled = False, h_close = dialer_close\<rparr>"

section \<open>The handlers keep the contract\<close>

lemma connected_pong_write_Ok: "\<exists>data. connected_pong_write m = Ok data"
  by (simp add: connected_pong_write_def)

lemma connected_ping_write_Ok: "\<exists>data. connected_ping_write m = Ok data"
  by (simp add: connected_ping_write_def)

lemmas writers_Ok = connected_ping_write_Ok connected_pong_write_Ok accepted_write_body incoming_write_body

text \<open>What each case of a handler does: an internal change and no panic.\<close>

definition well_behaved :: "Conn \<Rightarrow> Conn \<times> 'a outcome \<Rightarrow> bool" where
  "well_behaved conn r \<longleftrightarrow> internal conn (fst r) \<and> snd r \<noteq> Panic"

lemma well_behaved_read:
  assumes "m \<noteq> Panic" and "\<And>a. m = Ok a \<Longrightarrow> well_behaved conn (f conn a)"
  shows "well_behaved conn (and_then_st (conn, m) f)"
  using assms by (cases m) (auto simp: well_behaved_def)

lemma well_behaved_timestamp:
  assumes "\<And>conn' t. internal conn conn' \<Longrightarrow> well_behaved conn (f conn' t)"
  shows "well_behaved conn (case timestamp env conn of (conn', t) \<Rightarrow> f conn' t)"
  using assms internal_timestamp [of conn env] by (cases "timestamp env conn") auto

lemma well_behaved_send:
  "internal conn conn' \<Longrightarrow> well_behaved conn (send_message data conn')"
  using internal_trans [of conn conn' "fst (send_message data conn')"]
  by (simp add: well_behaved_def) (simp add: send_message_def)

lemma well_behaved_handled: "well_behaved conn r \<Longrightarrow> well_behaved conn (handled r)"
  by (cases r; cases "snd r") (auto simp: well_behaved_def handled_def)

lemma well_behaved_connected_ping: "well_behaved conn (handle_connected_ping env data conn)"
  unfolding handle_connected_ping_def
  by (rule well_behaved_read) (auto intro!: well_behaved_timestamp well_behaved_send
      simp: connected_ping.dec_total connected_pong_write_def Let_def)

lemma well_behaved_connected_pong: "well_behaved conn (handle_connected_pong env data conn)"
  unfolding handle_connected_pong_def
  by (rule well_behaved_read)
    (auto intro!: well_behaved_timestamp simp: connected_pong.dec_total Let_def,
      auto simp: well_behaved_def)

lemma well_behaved_detect_lost: "well_behaved conn (handle_detect_lost env conn)"
  unfolding handle_detect_lost_def
  by (auto intro!: well_behaved_timestamp well_behaved_send simp: connected_ping_write_def Let_def)

lemma well_behaved_connection_request: "well_behaved conn (handle_connection_request env data conn)"
  unfolding handle_connection_request_def
  by (rule well_behaved_read) (auto intro!: well_behaved_timestamp well_behaved_send
      simp: connection_request.dec_total accepted_write_body Let_def)

lemma well_behaved_mark_connected:
  "internal conn conn' \<Longrightarrow> well_behaved conn (mark_connected conn', Ok ())"
  using internal_trans [of conn conn' "mark_connected conn'"] by (simp add: well_behaved_def)

lemma well_behaved_connection_request_accepted:
  "well_behaved conn (handle_connection_request_accepted env data conn)"
proof -
  have "well_behaved conn (and_then_st (send_message response conn')
      (\<lambda>conn _. (mark_connected conn, Ok ())))" if "internal conn conn'" for response conn'
    using well_behaved_send [OF that, of response] well_behaved_mark_connected
    by (simp add: send_message_def well_behaved_def)
  then show ?thesis
    unfolding handle_connection_request_accepted_def
    by (intro well_behaved_read) (auto intro!: well_behaved_timestamp
        simp: accepted.dec_total incoming_write_body Let_def)
qed

lemma internal_listener_close: "internal conn (listener_close conn)"
  by (simp add: listener_close_def internal_def emit_def)

lemma internal_dialer_close: "internal conn (dialer_close conn)"
  by (simp add: dialer_close_def)

lemmas well_behaved_cases =
  well_behaved_connected_ping well_behaved_connected_pong well_behaved_detect_lost
  well_behaved_connection_request well_behaved_connection_request_accepted

lemma well_behaved_listener: "well_behaved conn (listener_handle env data conn)"
  using internal_close_immediately [of listener_close conn, OF internal_listener_close]
  by (auto simp: listener_handle_def handle_new_incoming_connection_def well_behaved_mark_connected
      intro!: well_behaved_handled well_behaved_cases split: list.split)
    (simp_all add: well_behaved_def)

lemma well_behaved_dialer: "well_behaved conn (dialer_handle env data conn)"
  using internal_close_immediately [of dialer_close conn, OF internal_dialer_close]
  by (auto simp: dialer_handle_def intro!: well_behaved_handled well_behaved_cases split: list.split)
    (simp_all add: well_behaved_def)

interpretation listener: connection_handler listener_handler
proof
  fix env data conn
  show "internal conn (fst (h_handle listener_handler env data conn))"
    and "snd (h_handle listener_handler env data conn) \<noteq> Panic"
    using well_behaved_listener [of conn env data] by (simp_all add: listener_handler_def well_behaved_def)
  show "internal conn (h_close listener_handler conn)"
    by (simp add: listener_handler_def internal_listener_close)
  assume "data \<noteq> []" "hd data \<notin> reserved_ids"
  then show "h_handle listener_handler env data conn = (conn, Ok False)"
    by (auto simp: listener_handler_def listener_handle_def reserved_ids_def split: list.split)
qed

interpretation dialer: connection_handler dialer_handler
proof
  fix env data conn
  show "internal conn (fst (h_handle dialer_handler env data conn))"
    and "snd (h_handle dialer_handler env data conn) \<noteq> Panic"
    using well_behaved_dialer [of conn env data] by (simp_all add: dialer_handler_def well_behaved_def)
  show "internal conn (h_close dialer_handler conn)"
    by (simp add: dialer_handler_def internal_dialer_close)
  assume "data \<noteq> []" "hd data \<notin> reserved_ids"
  then show "h_handle dialer_handler env data conn = (conn, Ok False)"
    by (auto simp: dialer_handler_def dialer_handle_def reserved_ids_def split: list.split)
qed

end
