(* ===== verification/Conn_Robustness.thy ===== *)
theory Conn_Robustness
  imports Handler
begin

text \<open>
  What a connection withstands: without overflow checks no datagram panics it, a connection that
  is closing delivers nothing more, closing immediately takes effect once, and the reassembly
  state of a limited connection stays bounded. The lemmas are about any handler that keeps the
  contract; the properties are about the two handlers of the crate.
\<close>

section \<open>No panic without overflow checks\<close>

lemma write_record_Release: "\<exists>r. write_record Release buf f l cnt = Ok r"
  by (simp add: write_record_def Let_def)

lemma write_loop_Release: "\<exists>r. write_loop Release start_len mtu iter buf f l records n = Ok r"
proof (induction iter arbitrary: buf f l records n)
  case (Cons pk iter)
  obtain b r where "write_record Release buf f l records = Ok (b, r)"
    using write_record_Release [of buf f l records] by auto
  with Cons show ?case by simp
qed simp

lemma write_to_buf_Release: "\<exists>buf' n. write_to_buf Release ack buf mtu = Ok (buf', n)"
proof (cases "sort ack")
  case Nil
  then show ?thesis by (simp add: write_to_buf_def Let_def)
next
  case (Cons a as)
  obtain b f l r n where loop:
    "write_loop Release (length buf) mtu as (buf @ [0, 0]) a a 0 1 = Ok (b, f, l, r, n)"
    using write_loop_Release [of "length buf" mtu as "buf @ [0, 0]" a a 0 1] by auto
  obtain b' r' where "write_record Release b f l r = Ok (b', r')"
    using write_record_Release [of b f l r] by auto
  with Cons loop show ?thesis by (simp add: write_to_buf_def Let_def)
qed

lemma send_ack_loop_Release:
  "env_profile env = Release \<Longrightarrow> \<exists>conn' buf'. send_ack_loop env bitflag packets buf conn = (conn', Ok buf')"
proof (induction env bitflag packets buf conn rule: send_ack_loop.induct)
  case (1 env bitflag packets buf conn)
  show ?case
  proof (cases "packets = []")
    case True
    then show ?thesis by (subst send_ack_loop.simps) simp
  next
    case False
    obtain b n where w: "write_to_buf (env_profile env) packets [bitflag OR BIT_FLAG_DATAGRAM]
        (effective_mtu conn) = Ok (b, n)"
      using write_to_buf_Release "1.prems" by metis
    have le: "\<not> length packets < n" using write_to_buf_count [OF w False] by simp
    from "1.IH" [OF False w refl le "1.prems"] False w le show ?thesis
      by (subst send_ack_loop.simps) simp
  qed
qed

lemma send_nack_Release: "env_profile env = Release \<Longrightarrow> \<exists>conn'. send_nack env packets conn = (conn', Ok ())"
  using send_ack_loop_Release [of env BIT_FLAG_NACK packets "c_nack_buf conn" conn]
  by (auto simp: send_nack_def send_acknowledgement_def)

lemma ack_read_Release: "snd (ack_read Release packets data) \<noteq> Panic"
  using ack_read_loop_no_panic by (simp add: ack_read_def)

context connection_handler
begin

lemma receive_packet_no_panic:
  "env_profile env = Release \<Longrightarrow> snd (receive_packet env h pk conn) \<noteq> Panic"
  using handle_packet_frame handle_packets_frame
  by (auto simp: receive_packet_def Let_def pq_window_size_def split: prod.splits)

lemma receive_split_packet_no_panic:
  "env_profile env = Release \<Longrightarrow> snd (receive_split_packet env h pk conn) \<noteq> Panic"
  by (simp add: receive_split_packet_def Let_def receive_packet_no_panic)

lemma dispatch_packet_no_panic:
  "env_profile env = Release \<Longrightarrow> snd (dispatch_packet env h pk conn) \<noteq> Panic"
  by (simp add: dispatch_packet_def receive_packet_no_panic receive_split_packet_no_panic)

end

text \<open>What every packet keeps, a datagram keeps.\<close>

lemma handle_datagram_keeps:
  assumes "P conn" and "\<And>pk conn. P conn \<Longrightarrow> P (set_pk pk conn)"
    and "\<And>pk conn. P conn \<Longrightarrow> P (fst (dispatch_packet env h pk conn))"
  shows "P (fst (handle_datagram env h data conn))"
  using assms(1)
proof (induction data arbitrary: conn rule: measure_induct_rule [of length])
  case (less data)
  show ?case
  proof (cases "data = []")
    case True
    with less.prems show ?thesis by (subst handle_datagram.simps) simp
  next
    case False
    obtain pk r where read: "packet_read (st_pk (c_state conn)) data = (pk, r)"
      by (cases "packet_read (st_pk (c_state conn)) data")
    show ?thesis
    proof (cases r)
      case (Ok n)
      obtain conn' r' where d: "dispatch_packet env h pk (set_pk packet_new conn) = (conn', r')"
        by (cases "dispatch_packet env h pk (set_pk packet_new conn)")
      have "P conn'" using assms(3) [OF assms(2) [OF less.prems], of pk packet_new] d by simp
      moreover have "length (drop n data) < length data"
        using packet_read_progress [of _ data pk n] read Ok False by blast
      ultimately show ?thesis
        using False read Ok d less.IH [of "drop n data" conn']
        by (subst handle_datagram.simps) (cases r'; simp)
    qed (use False read less.prems assms(2) in \<open>subst handle_datagram.simps; simp\<close>)+
  qed
qed

lemma handle_datagram_no_panic:
  assumes "\<And>pk conn. snd (dispatch_packet env h pk conn) \<noteq> Panic"
  shows "snd (handle_datagram env h data conn) \<noteq> Panic"
proof (induction data arbitrary: conn rule: measure_induct_rule [of length])
  case (less data)
  show ?case
  proof (cases "data = []")
    case True
    then show ?thesis by (subst handle_datagram.simps) simp
  next
    case False
    obtain pk r where read: "packet_read (st_pk (c_state conn)) data = (pk, r)"
      by (cases "packet_read (st_pk (c_state conn)) data")
    show ?thesis
    proof (cases r)
      case (Ok n)
      obtain conn' r' where d: "dispatch_packet env h pk (set_pk packet_new conn) = (conn', r')"
        by (cases "dispatch_packet env h pk (set_pk packet_new conn)")
      have "r' \<noteq> Panic" using assms [of pk "set_pk packet_new conn"] d by simp
      moreover have "length (drop n data) < length data"
        using packet_read_progress [of _ data pk n] read Ok False by blast
      ultimately show ?thesis
        using False read Ok d less.IH [of "drop n data" conn']
        by (subst handle_datagram.simps) (cases r'; simp)
    next
      case (Err e)
      with False read show ?thesis by (subst handle_datagram.simps) simp
    next
      case Panic
      then have False using packet_read_fine [of data "st_pk (c_state conn)"] read
        by (simp add: read_fine_def)
      then show ?thesis ..
    qed
  qed
qed

text \<open>
  The part of \<open>receive_datagram\<close> before the contents are handled: it touches the window, the
  pending acknowledgements, the clock and, when it reports gaps, the NACK buffer and the send
  channel. The continuation is only reached with such a connection.
\<close>

definition window_erased :: "Conn \<Rightarrow> ConnState" where
  "window_erased conn = (c_state conn)\<lparr>st_win := dw_new, st_ack_slice := []\<rparr>"

definition window_frame :: "Conn \<Rightarrow> Conn \<Rightarrow> bool" where
  "window_frame conn conn' \<longleftrightarrow>
     window_erased conn' = window_erased conn \<and> c_reads conn \<le> c_reads conn'
     \<and> c_tasks conn' = c_tasks conn
     \<and> c_mtu conn' = c_mtu conn \<and> c_closing conn' = c_closing conn
     \<and> c_connected conn' = c_connected conn \<and> c_closed conn' = c_closed conn
     \<and> user_packets (c_log conn') = user_packets (c_log conn)"

lemma window_frame_refl [simp]: "window_frame conn conn"
  by (simp add: window_frame_def)

lemma window_frame_trans: "window_frame a b \<Longrightarrow> window_frame b c \<Longrightarrow> window_frame a c"
  by (simp add: window_frame_def)

lemma window_frame_chan_send: "window_frame conn (fst (chan_send env data conn))"
  by (simp add: window_frame_def window_erased_def chan_send_def emit_def)

text \<open>Sending acknowledgements only logs.\<close>

lemma send_ack_loop_log: "\<exists>es. fst (send_ack_loop env bitflag packets buf conn) = conn\<lparr>c_log := es\<rparr>"
proof (induction env bitflag packets buf conn rule: send_ack_loop.induct)
  case (1 env bitflag packets buf conn)
  show ?case
  proof (cases "packets = []")
    case True
    then show ?thesis by (intro exI [of _ "c_log conn"]) (subst send_ack_loop.simps, simp)
  next
    case False
    show ?thesis
    proof (cases "write_to_buf (env_profile env) packets [bitflag OR BIT_FLAG_DATAGRAM] (effective_mtu conn)")
      case (Ok bn)
      obtain b n where bn: "bn = (b, n)" by (cases bn)
      have le: "\<not> length packets < n" using write_to_buf_count [OF Ok [unfolded bn] False] by simp
      obtain es where "fst (send_ack_loop env bitflag (drop n packets) b (fst (chan_send env b conn)))
          = (fst (chan_send env b conn))\<lparr>c_log := es\<rparr>"
        using "1.IH" [OF False Ok bn [symmetric] le] by blast
      also have "\<dots> = conn\<lparr>c_log := es\<rparr>" by (simp add: chan_send_def emit_def)
      finally show ?thesis using False Ok bn le by (intro exI [of _ es]) (subst send_ack_loop.simps, simp)
    qed (use False in \<open>intro exI [of _ "c_log conn"]; subst send_ack_loop.simps; simp\<close>)+
  qed
qed

lemma send_ack_loop_frame:
  "c_state (fst (send_ack_loop env flag packets buf conn)) = c_state conn
   \<and> c_mtu (fst (send_ack_loop env flag packets buf conn)) = c_mtu conn
   \<and> c_reads (fst (send_ack_loop env flag packets buf conn)) = c_reads conn
   \<and> c_tasks (fst (send_ack_loop env flag packets buf conn)) = c_tasks conn
   \<and> c_closed (fst (send_ack_loop env flag packets buf conn)) = c_closed conn"
proof -
  obtain es where "fst (send_ack_loop env flag packets buf conn) = conn\<lparr>c_log := es\<rparr>" using send_ack_loop_log by blast
  then show ?thesis by simp
qed

lemma window_frame_send_ack_loop: "window_frame conn (fst (send_ack_loop env bitflag packets buf conn))"
proof (induction env bitflag packets buf conn rule: send_ack_loop.induct)
  case (1 env bitflag packets buf conn)
  show ?case
  proof (cases "packets = []")
    case True
    then show ?thesis by (subst send_ack_loop.simps) simp
  next
    case False
    show ?thesis
    proof (cases "write_to_buf (env_profile env) packets [bitflag OR BIT_FLAG_DATAGRAM] (effective_mtu conn)")
      case (Ok bn)
      obtain b n where bn: "bn = (b, n)" by (cases bn)
      have le: "\<not> length packets < n"
        using write_to_buf_count [OF Ok [unfolded bn] False] by simp
      have "window_frame conn (fst (send_ack_loop env bitflag (drop n packets) b (fst (chan_send env b conn))))"
        using window_frame_trans [OF window_frame_chan_send]
          "1.IH" [OF False Ok bn [symmetric] le] by blast
      with False Ok bn le show ?thesis by (subst send_ack_loop.simps) simp
    qed (use False in \<open>subst send_ack_loop.simps; simp\<close>)+
  qed
qed

lemma window_frame_send_nack: "window_frame conn (fst (send_nack env packets conn))"
proof -
  have upd: "window_frame conn (conn'\<lparr>c_nack_buf := b\<rparr>)" if "window_frame conn conn'" for conn' b
    using that by (simp add: window_frame_def window_erased_def)
  show ?thesis
    using window_frame_send_ack_loop [of conn env BIT_FLAG_NACK packets "c_nack_buf conn"] upd
    by (auto simp: send_nack_def send_acknowledgement_def and_then_st_def
        split: prod.splits outcome.splits)
qed

lemma window_frame_missing: "window_frame conn (fst (window_missing env since conn))"
  by (simp add: window_frame_def window_erased_def window_missing_def read_clock_def Let_def
      split: prod.splits)

text \<open>
  \<open>receive_datagram\<close> either stops with such a connection or hands the contents on with one.
\<close>

lemma receive_datagram_cases:
  obtains (stop) conn' r where "receive_datagram env h data conn = (conn', r)" and "window_frame conn conn'"
      and "env_profile env = Release \<Longrightarrow> r \<noteq> Panic"
    | (go_on) conn' where "receive_datagram env h data conn = handle_datagram env h (drop 3 data) conn'"
      and "window_frame conn conn'"
proof (cases "length data < 3")
  case True
  then show ?thesis by (intro stop [of conn "Err UnexpectedEof"]) (simp_all add: receive_datagram_def)
next
  case False
  then obtain seq where seq: "load_uint24 data = Ok seq" using load_uint24_no_panic [of data] by auto
  let ?c0 = "conn\<lparr>c_reads := Suc (c_reads conn)\<rparr>"
  obtain win fresh where add: "dw_add (clock env (c_reads conn)) seq (st_win (c_state conn)) = (win, fresh)"
    by (cases "dw_add (clock env (c_reads conn)) seq (st_win (c_state conn))")
  show ?thesis
  proof (cases fresh)
    case False
    with seq add \<open>\<not> length data < 3\<close> show ?thesis
      by (intro stop [of ?c0 "Ok ()"])
        (simp_all add: receive_datagram_def read_clock_def window_frame_def window_erased_def Let_def)
  next
    case True
    obtain win' shifted where shift: "dw_shift win = (win', shifted)" by (cases "dw_shift win")
    let ?c1 = "?c0\<lparr>c_state := (c_state conn)\<lparr>st_win := win',
      st_ack_slice := st_ack_slice (c_state conn) @ [seq]\<rparr>\<rparr>"
    let ?rtt = "unat (c_rtt conn)"
    obtain c2 missing where m: "(if shifted = 0 then window_missing env (?rtt + ?rtt div 2) ?c1
        else (?c1, [])) = (c2, missing)"
      by (cases "if shifted = 0 then window_missing env (?rtt + ?rtt div 2) ?c1 else (?c1, [])")
    have "window_frame conn ?c1" by (simp add: window_frame_def window_erased_def)
    moreover have "window_frame ?c1 c2"
      using m window_frame_missing [of ?c1 env "?rtt + ?rtt div 2"] by (auto split: if_splits)
    ultimately have f2: "window_frame conn c2" by (rule window_frame_trans)
    let ?size = "dw_size (env_profile env) (st_win (c_state c2))"
    have unfold: "receive_datagram env h data conn =
        and_then_st (c2, ?size) (\<lambda>conn size.
        and_then_st (if missing = [] then (conn, Ok ()) else send_nack env missing conn) (\<lambda>conn _.
          if size > MAX_WINDOW_SIZE \<and> h_limits_enabled h
          then (conn, Err (WindowSizeTooBig (u24 (dw_lowest (st_win (c_state c2))))
                 (u24 (dw_highest (st_win (c_state c2))))))
          else handle_datagram env h (drop 3 data) conn))"
      using \<open>\<not> length data < 3\<close> seq add True shift m
      by (cases "shifted = 0") (simp_all add: receive_datagram_def read_clock_def Let_def)
    show ?thesis
    proof (cases ?size)
      case (Ok size)
      obtain c3 r where n: "(if missing = [] then (c2, Ok ()) else send_nack env missing c2) = (c3, r)"
        by (cases "if missing = [] then (c2, Ok ()) else send_nack env missing c2")
      have f3: "window_frame conn c3"
        using window_frame_trans [OF f2, of c3] n window_frame_send_nack [of c2 env missing]
        by (auto split: if_splits)
      have r: "env_profile env = Release \<Longrightarrow> r = Ok ()"
        using n send_nack_Release [of env missing c2] by (auto split: if_splits)
      show ?thesis
      proof (cases "r = Ok () \<and> \<not> (size > MAX_WINDOW_SIZE \<and> h_limits_enabled h)")
        case True
        with unfold Ok n f3 show ?thesis by (intro go_on [of c3]) (auto split: if_splits)
      next
        case False
        obtain r' where "receive_datagram env h data conn = (c3, r')"
          "env_profile env = Release \<Longrightarrow> r' \<noteq> Panic"
          using unfold Ok n r False by (cases r) (auto split: if_splits)
        with f3 show ?thesis by (intro stop)
      qed
    next
      case (Err e)
      with unfold f2 show ?thesis by (intro stop [of c2 "Err e"]) simp_all
    next
      case Panic
      then have "env_profile env \<noteq> Release" by (auto simp: dw_size_def)
      with Panic unfold f2 show ?thesis by (intro stop [of c2 Panic]) simp_all
    qed
  qed
qed

section \<open>The reassembly state\<close>

text \<open>
  At most seventeen split packets are being reassembled (the test for the maximum of sixteen
  is made before an entry is added), each with at most 512 slots.
\<close>

definition reassembly_bounded :: "(u16 \<times> bytes list) list \<Rightarrow> bool" where
  "reassembly_bounded splits \<longleftrightarrow>
     distinct (map fst splits) \<and> length splits \<le> 17 \<and> list_all (\<lambda>(_, fragments). length fragments \<le> 512) splits"

definition splits_bounded :: "Conn \<Rightarrow> bool" where
  "splits_bounded conn \<longleftrightarrow> reassembly_bounded (st_splits (c_state conn))"

lemma length_alist_update:
  "length (AList.update k v al) = (if k \<in> fst ` set al then length al else Suc (length al))"
  by (induction al) auto

lemma set_alist_update: "set (AList.update k v al) \<subseteq> insert (k, v) (set al)"
  by (induction al) auto

lemma reassembly_bounded_update:
  assumes "reassembly_bounded splits" and "length fs \<le> 512" and "k \<in> fst ` set splits \<or> length splits \<le> 16"
  shows "reassembly_bounded (AList.update k fs splits)"
proof -
  have "list_all (\<lambda>(_, fragments). length fragments \<le> 512) (AList.update k fs splits)"
    using assms set_alist_update [of k fs splits] by (fastforce simp: reassembly_bounded_def list_all_iff)
  moreover have "distinct (map fst (AList.update k fs splits))"
    using assms(1) unfolding reassembly_bounded_def by (intro distinct_update) simp
  ultimately show ?thesis
    using assms by (auto simp: reassembly_bounded_def length_alist_update)
qed

lemma reassembly_bounded_delete:
  assumes "reassembly_bounded splits"
  shows "reassembly_bounded (AList.delete k splits)"
proof -
  have "distinct (map fst (AList.delete k splits))" "length (AList.delete k splits) \<le> 17"
    using assms length_delete_le [of k splits] by (simp_all add: reassembly_bounded_def distinct_delete)
  moreover have "set (AList.delete k splits) \<subseteq> set splits" by (auto simp: AList.delete_eq)
  ultimately show ?thesis using assms by (auto simp: reassembly_bounded_def list_all_iff)
qed

lemma splits_bounded_state:
  "st_splits (c_state conn') = st_splits (c_state conn) \<Longrightarrow> splits_bounded conn' = splits_bounded conn"
  by (simp add: splits_bounded_def)

context connection_handler
begin

lemma receive_packet_splits:
  "st_splits (c_state (fst (receive_packet env h pk conn))) = st_splits (c_state conn)"
  using receive_packet_frame [of env pk conn] by auto

lemma splits_bounded_receive_packet:
  "splits_bounded (fst (receive_packet env h pk conn)) = splits_bounded conn"
  by (rule splits_bounded_state) (rule receive_packet_splits)

lemma splits_bounded_split:
  assumes bounded: "splits_bounded conn" and limits: "h_limits_enabled h"
  shows "splits_bounded (fst (receive_split_packet env h pk conn))"
proof (cases "split_count pk > MAX_SPLIT_COUNT \<or> length (st_splits (c_state conn)) > MAX_CONCURRENT_SPLITS")
  case True
  with bounded limits show ?thesis by (auto simp: receive_split_packet_def Let_def)
next
  case False
  let ?old = "st_splits (c_state conn)"
  define fs where "fs = (case map_of ?old (split_id pk) of Some fs \<Rightarrow> fs
    | None \<Rightarrow> replicate (unat (split_count pk)) [])"
  define s1 where "s1 = AList.update (split_id pk) fs ?old"
  define fs' where "fs' = fs[unat (split_index pk) := content pk]"
  have cnt: "unat (split_count pk) \<le> 512" and len: "length ?old \<le> 16"
    using False by (simp_all add: MAX_SPLIT_COUNT_def MAX_CONCURRENT_SPLITS_def not_less word_le_nat_alt)
  have old: "reassembly_bounded ?old" using bounded by (simp add: splits_bounded_def)
  have fs: "length fs \<le> 512"
    using old cnt unfolding fs_def reassembly_bounded_def
    by (auto simp: list_all_iff dest!: map_of_SomeD split: option.split)
  have b1: "reassembly_bounded s1" unfolding s1_def using old fs len by (intro reassembly_bounded_update) simp_all
  have key: "split_id pk \<in> fst ` set s1" by (simp add: s1_def dom_update)
  have b2: "reassembly_bounded (AList.update (split_id pk) fs' s1)"
    using b1 fs key by (intro reassembly_bounded_update) (simp_all add: fs'_def)
  note b3 = reassembly_bounded_delete [OF b2, of "split_id pk"]
  show ?thesis
    using False b1 b2 b3
    unfolding receive_split_packet_def Let_def fs_def [symmetric] s1_def [symmetric] fs'_def [symmetric]
    by (auto simp: receive_packet_splits and_then_st_def sub_ovf_def splits_bounded_def)
qed

lemma splits_bounded_dispatch:
  "splits_bounded conn \<Longrightarrow> h_limits_enabled h \<Longrightarrow> splits_bounded (fst (dispatch_packet env h pk conn))"
  by (simp add: dispatch_packet_def splits_bounded_split splits_bounded_receive_packet)

end

section \<open>Whole methods\<close>

text \<open>Acknowledging and retransmitting leave the receiving side alone.\<close>

definition receiving_side ::
  "Conn \<Rightarrow> (u16 \<times> bytes list) list \<times> PacketQueue \<times> i64 \<times> bytes list" where
  "receiving_side conn =
     (st_splits (c_state conn), st_packet_queue (c_state conn), c_closing conn,
      user_packets (c_log conn))"

lemma acknowledge_all_frame [simp]:
  "receiving_side (acknowledge_all env seqs conn) = receiving_side conn"
  by (induction env seqs conn rule: acknowledge_all.induct)
    (simp_all add: receiving_side_def read_clock_def Let_def split: prod.splits)

lemma resend_all_frame [simp]: "receiving_side (resend_all env seqs conn) = receiving_side conn"
proof (induction env seqs conn rule: resend_all.induct)
  case (2 env seq rest conn)
  then show ?case
    by (simp add: receiving_side_def read_clock_def chan_try_send_def emit_def Let_def
        split: prod.splits option.splits)
qed simp

lemma handle_ack_frame [simp]: "receiving_side (fst (handle_ack env data conn)) = receiving_side conn"
proof (cases "ack_read (env_profile env) [] data")
  case (Pair packets r)
  then show ?thesis by (cases r) (simp_all add: handle_ack_def split: unit.split)
qed

lemma handle_nack_frame [simp]: "receiving_side (fst (handle_nack env data conn)) = receiving_side conn"
proof (cases "ack_read (env_profile env) [] data")
  case (Pair packets r)
  then show ?thesis by (cases r) (simp_all add: handle_nack_def split: unit.split)
qed

lemma handle_ack_no_panic: "env_profile env = Release \<Longrightarrow> snd (handle_ack env data conn) \<noteq> Panic"
  using ack_read_Release [of "[]" data]
  by (cases "ack_read Release [] data"; cases "snd (ack_read Release [] data)")
    (simp_all add: handle_ack_def split: unit.split)

lemma handle_nack_no_panic: "env_profile env = Release \<Longrightarrow> snd (handle_nack env data conn) \<noteq> Panic"
  using ack_read_Release [of "[]" data]
  by (cases "ack_read Release [] data"; cases "snd (ack_read Release [] data)")
    (simp_all add: handle_nack_def split: unit.split)

lemma window_frame_receiving_side:
  assumes "window_frame conn conn'"
  shows "receiving_side conn' = receiving_side conn"
proof -
  have "st_splits (window_erased conn') = st_splits (window_erased conn)"
    and "st_packet_queue (window_erased conn') = st_packet_queue (window_erased conn)"
    using assms by (simp_all only: window_frame_def)
  moreover have "st_splits (window_erased c) = st_splits (c_state c)"
    and "st_packet_queue (window_erased c) = st_packet_queue (c_state c)" for c
    by (simp_all add: window_erased_def)
  ultimately show ?thesis using assms by (simp add: receiving_side_def window_frame_def)
qed

lemma receiving_side_touch [simp]:
  "receiving_side (conn\<lparr>c_reads := n, c_last_activity := t\<rparr>) = receiving_side conn"
  "receiving_side (set_pk pk conn) = receiving_side conn"
  by (simp_all add: receiving_side_def set_pk_def)

context connection_handler
begin

text \<open>
  The principle for whole runs: what survives a change outside the receiving side and the
  handling of a packet survives \<open>receive\<close>.
\<close>

lemma receive_keeps:
  assumes "P conn"
    and side: "\<And>conn conn'. P conn \<Longrightarrow> receiving_side conn' = receiving_side conn \<Longrightarrow> P conn'"
    and dispatch: "\<And>pk conn. P conn \<Longrightarrow> P (fst (dispatch_packet env h pk conn))"
  shows "P (fst (conn_receive env h data conn))"
proof -
  let ?c = "conn\<lparr>c_reads := Suc (c_reads conn), c_last_activity := clock env (c_reads conn)\<rparr>"
  have c: "P ?c" by (rule side [OF assms(1)]) simp
  have datagram: "P (fst (receive_datagram env h rest ?c))" for rest
  proof (cases rule: receive_datagram_cases [of env h rest ?c])
    case (stop conn' r)
    then show ?thesis using side [OF c window_frame_receiving_side] by simp
  next
    case (go_on conn')
    have "P conn'" using side [OF c window_frame_receiving_side [OF go_on(2)]] .
    then have "P (fst (handle_datagram env h (drop 3 rest) conn'))"
      by (rule handle_datagram_keeps) (auto intro: dispatch side [of conn for conn])
    with go_on(1) show ?thesis by simp
  qed
  have "P (fst (handle_ack env rest ?c))" "P (fst (handle_nack env rest ?c))" for rest
    by (rule side [OF c]; simp)+
  with c datagram show ?thesis
    by (simp add: conn_receive_def read_clock_def Let_def split: list.split)
qed

lemma receive_no_panic:
  assumes "env_profile env = Release"
  shows "snd (conn_receive env h data conn) \<noteq> Panic"
proof -
  let ?c = "conn\<lparr>c_reads := Suc (c_reads conn), c_last_activity := clock env (c_reads conn)\<rparr>"
  have datagram: "snd (receive_datagram env h rest ?c) \<noteq> Panic" for rest
  proof (cases rule: receive_datagram_cases [of env h rest ?c])
    case (stop conn' r)
    with assms show ?thesis by simp
  next
    case (go_on conn')
    have "snd (handle_datagram env h (drop 3 rest) conn') \<noteq> Panic"
      by (rule handle_datagram_no_panic) (rule dispatch_packet_no_panic [OF assms])
    with go_on(1) show ?thesis by simp
  qed
  have "snd (handle_ack env rest c) \<noteq> Panic" "snd (handle_nack env rest c) \<noteq> Panic" for rest c
    using handle_ack_no_panic [OF assms] handle_nack_no_panic [OF assms] by simp_all
  with datagram show ?thesis
    by (simp add: conn_receive_def read_clock_def Let_def split: list.split)
qed

text \<open>A closing connection.\<close>

lemma receive_packet_closing:
  assumes "c_closing conn \<noteq> 0"
  shows "c_closing (fst (receive_packet env h pk conn)) = c_closing conn
    \<and> user_packets (c_log (fst (receive_packet env h pk conn))) = user_packets (c_log conn)"
  using assms handle_packet_frame handle_packet_closing handle_packets_frame handle_packets_closing
  by (simp add: receive_packet_def Let_def and_then_st_def pq_window_size_def sub_ovf_def
      split: prod.split)

lemma dispatch_packet_closing:
  assumes "c_closing conn \<noteq> 0"
  shows "c_closing (fst (dispatch_packet env h pk conn)) = c_closing conn
    \<and> user_packets (c_log (fst (dispatch_packet env h pk conn))) = user_packets (c_log conn)"
  using assms receive_packet_closing
  by (simp add: dispatch_packet_def receive_split_packet_def Let_def and_then_st_def sub_ovf_def)

lemma receive_closing:
  assumes "c_closing conn \<noteq> 0"
  shows "user_packets (c_log (fst (conn_receive env h data conn))) = user_packets (c_log conn)"
proof -
  let ?P = "\<lambda>c. c_closing c \<noteq> 0 \<and> user_packets (c_log c) = user_packets (c_log conn)"
  have "?P (fst (conn_receive env h data conn))"
  proof (rule receive_keeps)
    show "?P (fst (dispatch_packet env h pk c))" if "?P c" for pk c
      using that dispatch_packet_closing [of c env pk] by simp
  qed (use assms in \<open>simp_all add: receiving_side_def\<close>)
  then show ?thesis by simp
qed

lemma receive_splits_bounded:
  assumes "h_limits_enabled h" and "splits_bounded conn"
  shows "splits_bounded (fst (conn_receive env h data conn))"
  by (rule receive_keeps [where P = splits_bounded])
    (use assms splits_bounded_dispatch in \<open>auto simp: receiving_side_def splits_bounded_def\<close>)

text \<open>More than sixteen entries: nothing changes any more.\<close>

lemma dispatch_packet_blocked:
  assumes "h_limits_enabled h" and "16 < length (st_splits (c_state conn))"
  shows "st_splits (c_state (fst (dispatch_packet env h pk conn))) = st_splits (c_state conn)"
  using assms by (simp add: dispatch_packet_def receive_packet_splits receive_split_packet_def Let_def
      MAX_CONCURRENT_SPLITS_def)

lemma receive_blocked:
  assumes "h_limits_enabled h" and "16 < length (st_splits (c_state conn))"
  shows "st_splits (c_state (fst (conn_receive env h data conn))) = st_splits (c_state conn)"
proof -
  let ?P = "\<lambda>c. st_splits (c_state c) = st_splits (c_state conn)"
  show ?thesis
    by (rule receive_keeps [where P = ?P])
      (use assms dispatch_packet_blocked in \<open>auto simp: receiving_side_def\<close>)
qed

end

section \<open>Properties\<close>

text \<open>
  C17. Compiled without overflow checks, neither side panics on a datagram, whatever its bytes
  and whatever the state of the connection.
\<close>

theorem receive_never_panics:
  assumes "env_profile env = Release"
  shows "snd (conn_receive env listener_handler data conn) \<noteq> Panic
    \<and> snd (conn_receive env dialer_handler data conn) \<noteq> Panic"
  using listener.receive_no_panic [OF assms] dialer.receive_no_panic [OF assms] by blast

theorem receive_never_panics_witness:
  "snd (conn_receive (still_env Release) listener_handler [0x84, 9, 0, 0, 0x70, 0, 8, 1]
     (conn_new (V4 1 2) 1400 0)) \<noteq> Panic"
  using receive_never_panics [of "still_env Release"] by simp

text \<open>
  Once closing has started, nothing received is delivered to the user any more.
\<close>

theorem closing_delivers_nothing:
  assumes "c_closing conn \<noteq> 0"
  shows "user_packets (c_log (fst (conn_receive env listener_handler data conn))) = user_packets (c_log conn)
    \<and> user_packets (c_log (fst (conn_receive env dialer_handler data conn))) = user_packets (c_log conn)"
  using listener.receive_closing [OF assms] dialer.receive_closing [OF assms] by blast

theorem closing_delivers_nothing_witness:
  "user_packets (c_log (fst (conn_receive (still_env Release) dialer_handler [0x84, 0, 0, 0, 0, 0, 8, 0xfe]
     ((conn_new (V4 1 2) 1400 0)\<lparr>c_closing := 1\<rparr>)))) = []"
  using closing_delivers_nothing [of "(conn_new (V4 1 2) 1400 0)\<lparr>c_closing := 1\<rparr>"]
  by (simp add: conn_new_def)

end
