(* ===== verification/Conn_Life.thy ===== *)
theory Conn_Life
  imports Conn_Robustness
begin

text \<open>
  The life cycle of a connection: connecting, closing, being closed. Every method relates the
  connection it finds to the one it leaves by \<open>evolves\<close>: flags are only ever raised, the time
  closing started is fixed once, the log of effects grows, and it records the two notifications
  and the removal from the listener exactly when the flags are raised. A step relation collects
  what can happen to a connection, in any order, and the invariants hold in every reachable state.
\<close>

section \<open>Rules that follow the shape of a method\<close>

text \<open>For any property of the connection a method leaves.\<close>

lemma keeps_and_then_st:
  assumes "P (fst m)" and "\<And>c a. P c \<Longrightarrow> P (fst (f c a))"
  shows "P (fst (and_then_st m f))"
  using assms by (cases m; cases "snd m") auto

lemma keeps_pure_then:
  assumes "P c" and "\<And>a. P (fst (f c a))"
  shows "P (fst (and_then_st (c, m) f))"
  using assms by (cases m) auto

lemma keeps_ignore_error: "P (fst m) \<Longrightarrow> P (fst (ignore_error m))"
  by (cases m; cases "snd m") auto

lemma keeps_case_pair:
  assumes "P (fst p)" and "\<And>c a. P c \<Longrightarrow> P (fst (f c a))"
  shows "P (fst (case p of (c, a) \<Rightarrow> f c a))"
  using assms by (cases p) auto

lemma keeps_case_pair_conn:
  assumes "P (fst p)" and "\<And>c a. P c \<Longrightarrow> P (f c a)"
  shows "P (case p of (c, a) \<Rightarrow> f c a)"
  using assms by (cases p) auto

lemma keeps_case_value:
  assumes "\<And>a b. P (fst (f a b))"
  shows "P (fst (case p of (a, b) \<Rightarrow> f a b))"
  using assms by (cases p) auto

lemma keeps_if: "P (fst x) \<Longrightarrow> P (fst y) \<Longrightarrow> P (fst (if b then x else y))"
  by simp

lemma keeps_if_conn: "P x \<Longrightarrow> P y \<Longrightarrow> P (if b then x else y)"
  by simp

lemma keeps_return: "P c \<Longrightarrow> P (fst (c, r))"
  by simp

lemma keeps_ping:
  assumes "\<And>ping. P (fst (f ping))"
  shows "P (fst (case connected_ping_write p of Ok ping \<Rightarrow> f ping | Err e \<Rightarrow> (c, Err e) | Panic \<Rightarrow> (c, Panic)))"
  using assms by (simp add: connected_ping_write_def)

section \<open>Life-cycle effects\<close>

fun removals :: "effect list \<Rightarrow> SocketAddr list" where
  "removals [] = []"
| "removals (RemoveFromListener addr # es) = addr # removals es"
| "removals (_ # es) = removals es"

lemma removals_append [simp]: "removals (es @ es') = removals es @ removals es'"
  by (induction es rule: removals.induct) auto

fun life_effect :: "effect \<Rightarrow> bool" where
  "life_effect NotifyConnected = True"
| "life_effect NotifyCancel = True"
| "life_effect (RemoveFromListener addr) = True"
| "life_effect _ = False"

lemma removals_plain: "\<not> life_effect e \<Longrightarrow> removals [e] = []"
  by (cases e) auto

text \<open>\<open>listed\<close> says whether closing removes the connection from a listener.\<close>

definition life_log :: "bool \<Rightarrow> Conn \<Rightarrow> Conn \<Rightarrow> effect list \<Rightarrow> bool" where
  "life_log listed conn conn' es \<longleftrightarrow>
     c_log conn' = c_log conn @ es
     \<and> count_list es NotifyConnected = (if c_connected conn' \<and> \<not> c_connected conn then 1 else 0)
     \<and> count_list es NotifyCancel = (if c_closed conn' \<and> \<not> c_closed conn then 1 else 0)
     \<and> removals es = (if listed \<and> c_closed conn' \<and> \<not> c_closed conn then [c_remote_addr conn] else [])"

definition evolves :: "bool \<Rightarrow> Conn \<Rightarrow> Conn \<Rightarrow> bool" where
  "evolves listed conn conn' \<longleftrightarrow>
     c_remote_addr conn' = c_remote_addr conn \<and> c_mtu conn' = c_mtu conn
     \<and> (c_connected conn \<longrightarrow> c_connected conn') \<and> (c_closed conn \<longrightarrow> c_closed conn')
     \<and> (c_closing conn \<noteq> 0 \<longrightarrow> c_closing conn' = c_closing conn)
     \<and> (\<exists>es. life_log listed conn conn' es)"

named_theorems evolving \<open>which methods let a connection evolve\<close>

lemma life_log_refl [simp]: "life_log listed conn conn []"
  by (simp add: life_log_def)

lemma evolves_refl [simp]: "evolves listed conn conn"
  unfolding evolves_def by (intro conjI impI exI [of _ "[]"]) simp_all

lemma life_log_trans:
  assumes "life_log listed a b es" and "life_log listed b c es'"
    and "c_remote_addr b = c_remote_addr a"
    and "c_connected a \<longrightarrow> c_connected b" "c_closed a \<longrightarrow> c_closed b"
    and "c_connected b \<longrightarrow> c_connected c" "c_closed b \<longrightarrow> c_closed c"
  shows "life_log listed a c (es @ es')"
  using assms
  by (cases "c_connected a"; cases "c_connected b"; cases "c_closed a"; cases "c_closed b")
    (simp_all add: life_log_def)

lemma evolves_trans:
  assumes "evolves listed a b" and "evolves listed b c"
  shows "evolves listed a c"
proof -
  obtain es where es: "life_log listed a b es" using assms(1) unfolding evolves_def by blast
  obtain es' where es': "life_log listed b c es'" using assms(2) unfolding evolves_def by blast
  have "life_log listed a c (es @ es')"
    by (rule life_log_trans [OF es es']) (use assms in \<open>simp_all add: evolves_def\<close>)
  then have "\<exists>es. life_log listed a c es" by blast
  then show ?thesis using assms unfolding evolves_def by simp
qed

text \<open>What the life cycle does not see.\<close>

lemma evolves_updates [simp]:
  "evolves listed conn (conn'\<lparr>c_state := st\<rparr>) = evolves listed conn conn'"
  "evolves listed conn (conn'\<lparr>c_reads := n\<rparr>) = evolves listed conn conn'"
  "evolves listed conn (conn'\<lparr>c_tasks := ts\<rparr>) = evolves listed conn conn'"
  "evolves listed conn (conn'\<lparr>c_rtt := rtt\<rparr>) = evolves listed conn conn'"
  "evolves listed conn (conn'\<lparr>c_last_activity := t\<rparr>) = evolves listed conn conn'"
  "evolves listed conn (conn'\<lparr>c_ack_buf := buf\<rparr>) = evolves listed conn conn'"
  "evolves listed conn (conn'\<lparr>c_nack_buf := buf\<rparr>) = evolves listed conn conn'"
  by (simp_all add: evolves_def life_log_def)

lemma evolves_emit:
  assumes "evolves listed conn conn'" and "\<not> life_effect e"
  shows "evolves listed conn (emit e conn')"
proof (rule evolves_trans [OF assms(1)])
  show "evolves listed conn' (emit e conn')"
    using assms(2) by (cases e) (simp_all add: evolves_def life_log_def emit_def)
qed

lemmas evolves_shapes =
  keeps_and_then_st [where P = "evolves listed conn" for listed conn]
  keeps_case_pair [where P = "evolves listed conn" for listed conn]
  keeps_case_pair_conn [where P = "evolves listed conn" for listed conn]
  keeps_case_value [where P = "evolves listed conn" for listed conn]
  keeps_if [where P = "evolves listed conn" for listed conn]
  keeps_if_conn [where P = "evolves listed conn" for listed conn]
  keeps_return [where P = "evolves listed conn" for listed conn]

lemmas evolves_and_then_st = keeps_and_then_st [where P = "evolves listed conn" for listed conn]
lemmas evolves_pure_then = keeps_pure_then [where P = "evolves listed conn" for listed conn]
lemmas evolves_case_pair = keeps_case_pair [where P = "evolves listed conn" for listed conn]
lemmas evolves_ignore_error = keeps_ignore_error [where P = "evolves listed conn" for listed conn]

section \<open>Sending\<close>

lemma evolves_chan_send [evolving]:
  "evolves listed conn conn' \<Longrightarrow> evolves listed conn (fst (chan_send env data conn'))"
  by (simp add: chan_send_def evolves_emit)

lemma evolves_chan_try_send [evolving]:
  "evolves listed conn conn' \<Longrightarrow> evolves listed conn (chan_try_send data conn')"
  by (simp add: chan_try_send_def evolves_emit)

lemma evolves_send_datagram [evolving]:
  "evolves listed conn conn' \<Longrightarrow> evolves listed conn (fst (send_datagram env pk conn'))"
  by (simp add: send_datagram_def read_clock_def Let_def evolving split: prod.split)

lemma evolves_write_fragments [evolving]:
  "evolves listed conn conn' \<Longrightarrow>
     evolves listed conn (fst (write_fragments env order sid fragments i cs n conn'))"
proof (induction env order sid fragments i cs n conn' rule: write_fragments.induct)
  case (2 env order sid fragments i c rest n conn')
  then show ?case
    by (auto simp: Let_def evolving split: prod.split intro!: evolves_and_then_st)
qed simp

lemma evolves_conn_write [evolving]:
  "evolves listed conn conn' \<Longrightarrow> evolves listed conn (fst (conn_write env data conn'))"
  by (auto simp: conn_write_def write_locked_def Let_def evolving split: prod.split
      intro!: evolves_and_then_st)

lemma evolves_send_message [evolving]:
  "evolves listed conn conn' \<Longrightarrow> evolves listed conn (fst (send_message data conn'))"
  by (simp add: send_message_def)

lemma evolves_run_task [evolving]:
  "evolves listed conn conn' \<Longrightarrow> evolves listed conn (run_task env k conn')"
  by (simp add: run_task_def send_message_task_def read_clock_def Let_def evolving split: prod.split)

section \<open>Acknowledgements\<close>

lemma evolves_acknowledge_all [evolving]:
  "evolves listed conn conn' \<Longrightarrow> evolves listed conn (acknowledge_all env seqs conn')"
  by (induction env seqs conn' rule: acknowledge_all.induct)
    (simp_all add: read_clock_def Let_def split: prod.split)

lemma evolves_resend_all [evolving]:
  "evolves listed conn conn' \<Longrightarrow> evolves listed conn (resend_all env seqs conn')"
proof (induction env seqs conn' rule: resend_all.induct)
  case (2 env seq rest conn')
  then show ?case
    by (simp add: read_clock_def Let_def evolving split: prod.split option.split)
qed simp

lemma evolves_handle_ack [evolving]:
  "evolves listed conn conn' \<Longrightarrow> evolves listed conn (fst (handle_ack env data conn'))"
  by (simp add: handle_ack_def evolving split: prod.split outcome.split unit.split)

lemma evolves_handle_nack [evolving]:
  "evolves listed conn conn' \<Longrightarrow> evolves listed conn (fst (handle_nack env data conn'))"
  by (simp add: handle_nack_def evolving split: prod.split outcome.split unit.split)

lemma evolves_send_ack_loop [evolving]:
  "evolves listed conn conn' \<Longrightarrow> evolves listed conn (fst (send_ack_loop env bitflag packets buf conn'))"
proof (induction env bitflag packets buf conn' rule: send_ack_loop.induct)
  case (1 env bitflag packets buf conn')
  show ?case
  proof (cases "packets = []")
    case True
    with "1.prems" show ?thesis by (subst send_ack_loop.simps) simp
  next
    case False
    show ?thesis
    proof (cases "write_to_buf (env_profile env) packets [bitflag OR BIT_FLAG_DATAGRAM] (effective_mtu conn')")
      case (Ok bn)
      obtain b n where bn: "bn = (b, n)" by (cases bn)
      have le: "\<not> length packets < n"
        using write_to_buf_count [OF Ok [unfolded bn] False] by simp
      have "evolves listed conn
          (fst (send_ack_loop env bitflag (drop n packets) b (fst (chan_send env b conn'))))"
        using "1.IH" [OF False Ok bn [symmetric] le] evolves_chan_send [OF "1.prems"] by blast
      with False Ok bn le show ?thesis by (subst send_ack_loop.simps) simp
    qed (use False "1.prems" in \<open>subst send_ack_loop.simps; simp\<close>)+
  qed
qed

lemma evolves_send_ack [evolving]:
  "evolves listed conn conn' \<Longrightarrow> evolves listed conn (fst (send_ack env packets conn'))"
  by (auto simp: send_ack_def send_acknowledgement_def evolving intro!: evolves_and_then_st)

lemma evolves_send_nack [evolving]:
  "evolves listed conn conn' \<Longrightarrow> evolves listed conn (fst (send_nack env packets conn'))"
  by (auto simp: send_nack_def send_acknowledgement_def evolving intro!: evolves_and_then_st)

lemma evolves_flush_acks [evolving]:
  "evolves listed conn conn' \<Longrightarrow> evolves listed conn (fst (flush_acks env conn'))"
  by (simp add: flush_acks_def Let_def evolving evolves_ignore_error)

lemma evolves_check_resend [evolving]:
  "evolves listed conn conn' \<Longrightarrow> evolves listed conn (check_resend env now conn')"
  by (simp add: check_resend_def Let_def evolving split: prod.split)

section \<open>Connecting, closing and the ticker\<close>

lemma evolves_mark_connected [evolving]:
  assumes "evolves listed conn conn'"
  shows "evolves listed conn (mark_connected conn')"
proof (rule evolves_trans [OF assms])
  have "life_log listed conn' (emit NotifyConnected (conn'\<lparr>c_connected := True\<rparr>)) [NotifyConnected]"
    if "\<not> c_connected conn'"
    using that by (simp add: life_log_def emit_def)
  then show "evolves listed conn' (mark_connected conn')"
    by (cases "c_connected conn'") (auto simp: mark_connected_def evolves_def emit_def)
qed

lemma evolves_conn_close [evolving]:
  assumes "evolves listed conn conn'"
  shows "evolves listed conn (conn_close env conn')"
proof (rule evolves_trans [OF assms])
  have "life_log listed conn' (conn_close env conn') []"
    by (simp add: life_log_def conn_close_def read_wall_def)
  then show "evolves listed conn' (conn_close env conn')"
    by (auto simp: evolves_def conn_close_def read_wall_def)
qed

lemma evolves_close_listener [evolving]:
  assumes "evolves True conn conn'"
  shows "evolves True conn (close_immediately listener_close conn')"
proof (rule evolves_trans [OF assms])
  let ?c = "close_immediately listener_close conn'"
  have "life_log True conn' ?c [RemoveFromListener (c_remote_addr conn'), NotifyCancel]"
    if "\<not> c_closed conn'"
    using that by (simp add: life_log_def close_immediately_def listener_close_def send_message_def emit_def)
  then show "evolves True conn' ?c"
    by (cases "c_closed conn'")
      (auto simp: evolves_def close_immediately_def listener_close_def send_message_def emit_def)
qed

lemma evolves_close_dialer [evolving]:
  assumes "evolves False conn conn'"
  shows "evolves False conn (close_immediately dialer_close conn')"
proof (rule evolves_trans [OF assms])
  let ?c = "close_immediately dialer_close conn'"
  have "life_log False conn' ?c [NotifyCancel]" if "\<not> c_closed conn'"
    using that by (simp add: life_log_def close_immediately_def dialer_close_def send_message_def emit_def)
  then show "evolves False conn' ?c"
    by (cases "c_closed conn'")
      (auto simp: evolves_def close_immediately_def dialer_close_def send_message_def emit_def)
qed

lemma evolves_timestamp [evolving]:
  "evolves listed conn conn' \<Longrightarrow> evolves listed conn (fst (timestamp env conn'))"
  by (simp add: timestamp_def read_wall_def)

lemma evolves_read_clock [evolving]:
  "evolves listed conn conn' \<Longrightarrow> evolves listed conn (fst (read_clock env conn'))"
  by (simp add: read_clock_def)

lemma evolves_read_wall [evolving]:
  "evolves listed conn conn' \<Longrightarrow> evolves listed conn (fst (read_wall env conn'))"
  by (simp add: read_wall_def)

lemma evolves_tick:
  assumes "evolves listed conn conn'"
    and close: "\<And>c. evolves listed conn c \<Longrightarrow> evolves listed conn (close_immediately close c)"
  shows "evolves listed conn (fst (tick env close tick_count conn'))"
  unfolding tick_def Let_def
  by (intro keeps_ping [where P = "evolves listed conn"] evolves_shapes evolving close assms(1))

section \<open>The handlers\<close>

lemmas handler_defs =
  listener_handle_def dialer_handle_def handled_def handle_connection_request_def
  handle_new_incoming_connection_def handle_connection_request_accepted_def
  handle_connected_ping_def handle_connected_pong_def handle_detect_lost_def Let_def

lemma evolves_listener_handle [evolving]:
  "evolves True conn conn' \<Longrightarrow> evolves True conn (fst (listener_handle env data conn'))"
  by (auto simp: handler_defs evolving split: list.split
      intro!: evolves_and_then_st evolves_pure_then evolves_case_pair)

lemma evolves_dialer_handle [evolving]:
  "evolves False conn conn' \<Longrightarrow> evolves False conn (fst (dialer_handle env data conn'))"
  by (auto simp: handler_defs evolving split: list.split
      intro!: evolves_and_then_st evolves_pure_then evolves_case_pair)

section \<open>Receiving\<close>

locale life_handler = connection_handler h for h +
  fixes listed :: bool
  assumes handle_evolves: "evolves listed conn conn' \<Longrightarrow> evolves listed conn (fst (h_handle h env data conn'))"
    and close_evolves: "evolves listed conn conn' \<Longrightarrow> evolves listed conn (close_immediately (h_close h) conn')"
begin

lemma evolves_handle_packet:
  "evolves listed conn conn' \<Longrightarrow> evolves listed conn (fst (handle_packet env h c conn'))"
  by (auto simp: handle_packet_def handle_evolves evolves_emit intro!: evolves_and_then_st)

lemma evolves_handle_packets:
  "evolves listed conn conn' \<Longrightarrow> evolves listed conn (fst (handle_packets env h cs conn'))"
  by (induction cs arbitrary: conn') (auto intro!: evolves_and_then_st evolves_handle_packet)

lemma evolves_receive_packet:
  "evolves listed conn conn' \<Longrightarrow> evolves listed conn (fst (receive_packet env h pk conn'))"
  by (auto simp: receive_packet_def Let_def split: prod.split
      intro!: evolves_pure_then evolves_handle_packet evolves_handle_packets)

lemma evolves_dispatch:
  "evolves listed conn conn' \<Longrightarrow> evolves listed conn (fst (dispatch_packet env h pk conn'))"
  by (auto simp: dispatch_packet_def receive_split_packet_def Let_def
      intro!: evolves_pure_then evolves_receive_packet)

lemma evolves_handle_datagram:
  assumes "evolves listed conn conn'"
  shows "evolves listed conn (fst (handle_datagram env h data conn'))"
  by (rule handle_datagram_keeps [where P = "evolves listed conn", OF assms])
    (auto simp: set_pk_def evolves_dispatch)

lemma evolves_window_missing:
  "evolves listed conn conn' \<Longrightarrow> evolves listed conn (fst (window_missing env since conn'))"
  by (simp add: window_missing_def read_clock_def Let_def split: prod.split)

lemma evolves_receive_datagram:
  assumes "evolves listed conn conn'"
  shows "evolves listed conn (fst (receive_datagram env h data conn'))"
proof -
  have add: "evolves listed conn (fst (case dw_add now seq (st_win (c_state c)) of (win, fresh) \<Rightarrow> f win fresh))"
    if "\<And>win fresh. evolves listed conn (fst (f win fresh))" for now seq f c
    using that by (rule keeps_case_value [where P = "evolves listed conn"])
  have shift: "evolves listed conn (fst (case dw_shift win of (win, shifted) \<Rightarrow> f win shifted))"
    if "\<And>win shifted. evolves listed conn (fst (f win shifted))" for win f
    using that by (rule keeps_case_value [where P = "evolves listed conn"])
  show ?thesis
    unfolding receive_datagram_def Let_def
    by (intro add shift evolves_shapes evolving assms
        evolves_window_missing evolves_handle_datagram evolves_updates [THEN iffD2])
qed

lemma evolves_receive:
  "evolves listed conn conn' \<Longrightarrow> evolves listed conn (fst (conn_receive env h data conn'))"
  by (simp add: conn_receive_def read_clock_def evolving evolves_receive_datagram Let_def split: list.split)

end

interpretation listener_life: life_handler listener_handler True
  by unfold_locales (simp_all add: listener_handler_def evolving)

interpretation dialer_life: life_handler dialer_handler False
  by unfold_locales (simp_all add: dialer_handler_def evolving)

section \<open>Steps of a connection\<close>

text \<open>
  What can happen to a connection: datagrams, writes, messages, spawned tasks, ticks and the two
  ways of closing, in any order. The tick count is the local variable of the ticker.
\<close>

inductive conn_step :: "env \<Rightarrow> ConnectionHandler \<Rightarrow> Conn \<Rightarrow> Conn \<Rightarrow> bool" for env h where
  Received: "conn_step env h conn (fst (conn_receive env h data conn))"
| Written: "conn_step env h conn (fst (conn_write env data conn))"
| Messaged: "conn_step env h conn (fst (send_message data conn))"
| Task_run: "conn_step env h conn (run_task env k conn)"
| Ticked: "conn_step env h conn (fst (tick env (h_close h) tick_count conn))"
| Closing: "conn_step env h conn (conn_close env conn)"
| Closed: "conn_step env h conn (close_immediately (h_close h) conn)"

inductive_cases conn_stepE: "conn_step env h conn conn'"

abbreviation conn_steps :: "env \<Rightarrow> ConnectionHandler \<Rightarrow> Conn \<Rightarrow> Conn \<Rightarrow> bool" where
  "conn_steps env h \<equiv> (conn_step env h)\<^sup>*\<^sup>*"

context life_handler
begin

lemma evolves_conn_step:
  assumes "conn_step env h conn conn'"
  shows "evolves listed conn conn'"
  using assms
  by (cases rule: conn_stepE)
    (auto intro: evolves_receive evolves_conn_write evolves_send_message evolves_run_task
      evolves_tick close_evolves evolves_conn_close)

lemma evolves_conn_steps:
  assumes "conn_steps env h conn conn'"
  shows "evolves listed conn conn'"
  using assms by induction (auto intro: evolves_trans evolves_conn_step)

lemma reachable_life:
  assumes "conn_steps env h (conn_new addr mtu now) conn"
  shows "c_remote_addr conn = addr \<and> c_mtu conn = clamp_mtu mtu
    \<and> count_list (c_log conn) NotifyConnected = (if c_connected conn then 1 else 0)
    \<and> count_list (c_log conn) NotifyCancel = (if c_closed conn then 1 else 0)
    \<and> removals (c_log conn) = (if listed \<and> c_closed conn then [addr] else [])"
proof -
  have "evolves listed (conn_new addr mtu now) conn"
    using assms by (rule evolves_conn_steps)
  then have "c_remote_addr conn = addr \<and> c_mtu conn = clamp_mtu mtu"
    and "\<exists>es. life_log listed (conn_new addr mtu now) conn es"
    by (simp_all add: evolves_def conn_new_def)
  then show ?thesis by (auto simp: life_log_def conn_new_def)
qed

end

section \<open>The reassembly state in every reachable state\<close>

lemma receiving_side_chan_send [simp]:
  "receiving_side (fst (chan_send env data conn)) = receiving_side conn"
  by (simp add: receiving_side_def chan_send_def emit_def)

lemma splits_send_datagram [simp]:
  "st_splits (c_state (fst (send_datagram env pk conn))) = st_splits (c_state conn)"
  by (simp add: send_datagram_def read_clock_def chan_send_def emit_def Let_def split: prod.split)

lemma splits_write_fragments [simp]:
  "st_splits (c_state (fst (write_fragments env order sid fragments i cs n conn))) = st_splits (c_state conn)"
proof (induction env order sid fragments i cs n conn rule: write_fragments.induct)
  case (2 env order sid fragments i c rest n conn)
  obtain message next_message where inc: "u24_inc (st_message_index (c_state conn)) = (message, next_message)"
    by (cases "u24_inc (st_message_index (c_state conn))")
  let ?c = "conn\<lparr>c_state := (c_state conn)\<lparr>st_message_index := next_message\<rparr>\<rparr>"
  let ?pk = "fragment_packet order sid fragments i message c"
  obtain conn' r where send: "send_datagram env ?pk ?c = (conn', r)"
    by (cases "send_datagram env ?pk ?c")
  have "st_splits (c_state conn') = st_splits (c_state conn)"
    using splits_send_datagram [of env ?pk ?c] send by simp
  then show ?case
    using "2.IH" [OF inc [symmetric] refl refl] send inc by (cases r) (simp_all add: Let_def)
qed simp

lemma splits_conn_write [simp]:
  "st_splits (c_state (fst (conn_write env data conn))) = st_splits (c_state conn)"
  by (cases "split (env_profile env) data (effective_mtu conn)")
    (simp_all add: conn_write_def write_locked_def Let_def split: prod.split)

lemma splits_run_task [simp]: "st_splits (c_state (run_task env k conn)) = st_splits (c_state conn)"
  by (simp add: run_task_def send_message_task_def read_clock_def chan_try_send_def emit_def Let_def
      split: prod.split)

lemma flush_acks_side [simp]: "receiving_side (fst (flush_acks env conn)) = receiving_side conn"
proof -
  have "receiving_side (fst (send_ack env packets c)) = receiving_side c" for packets c
    using window_frame_receiving_side [OF window_frame_send_ack_loop [of c env BIT_FLAG_ACK packets "c_ack_buf c"]]
    by (auto simp: send_ack_def send_acknowledgement_def and_then_st_def receiving_side_def
        split: prod.splits outcome.splits)
  moreover have "fst (ignore_error r) = fst r" for r :: "Conn \<times> unit outcome"
    by (cases r; cases "snd r") auto
  ultimately show ?thesis by (simp add: flush_acks_def receiving_side_def Let_def)
qed

lemma check_resend_side [simp]: "receiving_side (check_resend env now conn) = receiving_side conn"
proof -
  have "receiving_side (conn\<lparr>c_rtt := r, c_state := (c_state conn)\<lparr>st_retransmission := m\<rparr>\<rparr>) = receiving_side conn" for r m
    by (simp add: receiving_side_def)
  then show ?thesis by (simp add: check_resend_def Let_def split: prod.split)
qed

lemma splits_side: "receiving_side conn' = receiving_side conn \<Longrightarrow> st_splits (c_state conn') = st_splits (c_state conn)"
  by (simp add: receiving_side_def)

lemmas splits_flushed [simp] = splits_side [OF flush_acks_side]
lemmas splits_check_resend [simp] = splits_side [OF check_resend_side]

lemma splits_conn_close [simp]: "c_state (conn_close env conn) = c_state conn"
  by (simp add: conn_close_def read_wall_def)

context life_handler
begin

lemma splits_close_immediately [simp]: "c_state (close_immediately (h_close h) conn) = c_state conn"
  using internal_close_immediately [of "h_close h" conn, OF close_internal] by (simp add: internal_def)

lemma splits_tick [simp]:
  "st_splits (c_state (fst (tick env (h_close h) tick_count conn))) = st_splits (c_state conn)"
proof (cases "flush_acks env conn")
  case (Pair conn' r)
  then have "st_splits (c_state conn') = st_splits (c_state conn)"
    using splits_flushed [of env conn] by simp
  with Pair show ?thesis
    by (cases r) (simp_all add: tick_def Let_def read_clock_def read_wall_def timestamp_def
        send_message_def connected_ping_write_def)
qed

text \<open>What only receiving can change.\<close>

lemma conn_step_splits:
  assumes "conn_step env h conn conn'"
  shows "st_splits (c_state conn') = st_splits (c_state conn)
    \<or> (\<exists>data. conn' = fst (conn_receive env h data conn))"
  using assms by (cases rule: conn_stepE) (auto simp: send_message_def)

lemma conn_steps_splits_bounded:
  assumes "conn_steps env h conn conn'" and "h_limits_enabled h" and "splits_bounded conn"
  shows "splits_bounded conn'"
  using assms
proof induction
  case (step conn1 conn2)
  then show ?case
    using conn_step_splits [OF step(2)] receive_splits_bounded [OF \<open>h_limits_enabled h\<close>]
    by (auto simp: splits_bounded_def)
qed

lemma conn_steps_blocked:
  assumes "conn_steps env h conn conn'" and "h_limits_enabled h" and "16 < length (st_splits (c_state conn))"
  shows "st_splits (c_state conn') = st_splits (c_state conn)"
  using assms
proof induction
  case (step conn1 conn2)
  then show ?case
    using conn_step_splits [OF step(2)] receive_blocked [OF \<open>h_limits_enabled h\<close>, of conn1]
    by (auto simp: splits_bounded_def)
qed simp

end

section \<open>Properties\<close>

text \<open>
  C18. The life cycle of a connection, whatever happens to it: the address and the MTU chosen at
  its creation stay, the MTU lies between 400 and 1492, waiters for the connection are notified
  exactly once when it is connected and never before, the cancellation is notified exactly once
  when it is closed, and closing a listener's connection removes its address from the listener
  exactly once; a dialer's removes none.
\<close>

theorem life_cycle:
  assumes "conn_steps env listener_handler (conn_new addr mtu now) conn
    \<or> conn_steps env dialer_handler (conn_new addr mtu now) conn"
  shows "c_remote_addr conn = addr \<and> c_mtu conn = clamp_mtu mtu
    \<and> 400 \<le> c_mtu conn \<and> c_mtu conn \<le> 1492
    \<and> count_list (c_log conn) NotifyConnected = (if c_connected conn then 1 else 0)
    \<and> count_list (c_log conn) NotifyCancel = (if c_closed conn then 1 else 0)
    \<and> (conn_steps env listener_handler (conn_new addr mtu now) conn \<longrightarrow>
         removals (c_log conn) = (if c_closed conn then [addr] else []))
    \<and> (conn_steps env dialer_handler (conn_new addr mtu now) conn \<longrightarrow> removals (c_log conn) = [])"
proof -
  have "400 \<le> clamp_mtu mtu \<and> clamp_mtu mtu \<le> 1492"
    by (simp add: clamp_mtu_def MIN_MTU_SIZE_def MAX_MTU_SIZE_def)
  then show ?thesis
    using assms listener_life.reachable_life [of env addr mtu now conn]
      dialer_life.reachable_life [of env addr mtu now conn] by auto
qed

theorem life_cycle_witness:
  "count_list (c_log (close_immediately listener_close (conn_new (V4 1 2) 9000 0))) NotifyCancel = 1
   \<and> removals (c_log (close_immediately listener_close (conn_new (V4 1 2) 9000 0))) = [V4 1 2]"
proof -
  let ?c = "close_immediately listener_close (conn_new (V4 1 2) 9000 0)"
  have step: "conn_steps (still_env Release) listener_handler (conn_new (V4 1 2) 9000 0) ?c"
    using conn_step.Closed [of "still_env Release" listener_handler "conn_new (V4 1 2) 9000 0"]
    by (simp add: listener_handler_def r_into_rtranclp)
  have "c_closed ?c"
    by (simp add: close_immediately_def listener_close_def conn_new_def emit_def send_message_def)
  with life_cycle [OF disjI1 [OF step]] step show ?thesis by simp
qed

text \<open>
  Flags are only ever raised: along any run a connected connection stays connected, a closed
  one stays closed and refuses every write with \<open>ConnectionClosed\<close>, unchanged, and the time the
  closing started is never replaced.
\<close>

theorem closed_is_final:
  assumes "conn_steps env listener_handler conn conn' \<or> conn_steps env dialer_handler conn conn'"
  shows "(c_connected conn \<longrightarrow> c_connected conn') \<and> (c_closing conn \<noteq> 0 \<longrightarrow> c_closing conn' = c_closing conn)
    \<and> (c_closed conn \<longrightarrow> c_closed conn' \<and> conn_write env data conn' = (conn', Err ConnectionClosed))"
proof -
  have "evolves True conn conn' \<or> evolves False conn conn'"
    using assms listener_life.evolves_conn_steps dialer_life.evolves_conn_steps by blast
  then show ?thesis by (auto simp: evolves_def conn_write_def)
qed

theorem closed_is_final_witness:
  "snd (conn_write (still_env Debug) [0xfe] (conn_close (still_env Debug)
     (close_immediately dialer_close (conn_new (V4 1 2) 1400 0)))) = Err ConnectionClosed"
proof -
  let ?c = "close_immediately dialer_close (conn_new (V4 1 2) 1400 0)"
  have step: "conn_steps (still_env Debug) dialer_handler ?c (conn_close (still_env Debug) ?c)"
    using conn_step.Closing [of "still_env Debug" dialer_handler ?c] by (rule r_into_rtranclp)
  have "c_closed ?c"
    by (simp add: close_immediately_def dialer_close_def conn_new_def emit_def send_message_def)
  with closed_is_final [OF disjI2 [OF step], of "[0xfe]"] show ?thesis by simp
qed

end
