(* ===== verification/Listener.thy ===== *)
theory Listener
  imports Conn_Life
begin

text \<open>
  The listener, \<open>src/listener.rs\<close>: the loop that reads the socket, the open connection handshake
  with its cookie, the table of connections, the tasks that wait for a connection to be
  established, the blocked addresses and closing.

  Connections are shared between the table, the waiting tasks and the user, so the model has a
  store of them: \<open>l_conns\<close> lists the connections in the order of their creation and every
  reference is an index. The table and the blocked addresses are hash maps and association lists
  here. What the socket sends is appended to \<open>l_out\<close>.
\<close>

unbundle bit_operations_syntax

section \<open>State\<close>

record ListenConfig =
  cfg_disable_cookies :: bool
  cfg_block_duration :: duration

definition listen_config_default :: ListenConfig where
  "listen_config_default = \<lparr>cfg_disable_cookies = False, cfg_block_duration = from_secs 10\<rparr>"

text \<open>
  Where the loop that reads the socket is: before its test of \<open>closed\<close>, waiting for a datagram,
  or returned.
\<close>

datatype listen_pc = Checking | Receiving | Returned

text \<open>
  \<open>l_waiting\<close> are the spawned tasks that wait for a connection to be established, \<open>l_sending\<close>
  those that wait for room in the channel of incoming connections, \<open>l_incoming\<close> its contents;
  \<open>l_reads\<close> counts the readings of the clock and the sends of the socket.
\<close>

record Listener =
  l_config :: ListenConfig
  l_id :: i64
  l_cookie_salt :: u32
  l_closed :: bool
  l_incoming :: "nat list"
  l_connections :: "(SocketAddr \<times> nat) list"
  l_blocks :: "(bytes \<times> instant) list"
  l_block_count :: u32
  l_pong_data :: bytes
  l_conns :: "Conn list"
  l_waiting :: "nat list"
  l_sending :: "nat list"
  l_pc :: listen_pc
  l_out :: "(SocketAddr \<times> bytes) list"
  l_reads :: nat

text \<open>
  The environment: that of each connection, the clock, which sends of the socket fail, the order
  in which a hash map is iterated, and the checksum of the package \<open>crc32fast\<close>.
\<close>

record listen_env =
  le_conn :: "nat \<Rightarrow> env"
  le_now :: "nat \<Rightarrow> instant"
  le_send_to :: "nat \<Rightarrow> string option"
  le_order :: "nat list \<Rightarrow> nat list"
  le_crc :: "bytes \<Rightarrow> u32"

definition still_listen_env :: "(bytes \<Rightarrow> u32) \<Rightarrow> listen_env" where
  "still_listen_env crc =
     \<lparr>le_conn = (\<lambda>_. still_env Release), le_now = (\<lambda>_. 0), le_send_to = (\<lambda>_. None),
      le_order = (\<lambda>ks. ks), le_crc = crc\<rparr>"

lemma still_listen_env_simps [simp]:
  "le_conn (still_listen_env crc) k = still_env Release" "le_now (still_listen_env crc) n = 0"
  "le_send_to (still_listen_env crc) n = None" "le_order (still_listen_env crc) ks = ks"
  "le_crc (still_listen_env crc) = crc"
  by (simp_all add: still_listen_env_def)

text \<open>The random numbers drawn by \<open>listen\<close> are arguments.\<close>

definition listener_new :: "ListenConfig \<Rightarrow> i64 \<Rightarrow> u32 \<Rightarrow> Listener" where
  "listener_new config guid salt =
     \<lparr>l_config = config, l_id = guid, l_cookie_salt = salt, l_closed = False, l_incoming = [],
      l_connections = [], l_blocks = [], l_block_count = 0, l_pong_data = [], l_conns = [],
      l_waiting = [], l_sending = [], l_pc = Checking, l_out = [], l_reads = 0\<rparr>"

definition listener_now :: "listen_env \<Rightarrow> Listener \<Rightarrow> Listener \<times> instant" where
  "listener_now env l = (l\<lparr>l_reads := Suc (l_reads l)\<rparr>, le_now env (l_reads l))"

definition send_to :: "listen_env \<Rightarrow> bytes \<Rightarrow> SocketAddr \<Rightarrow> Listener \<Rightarrow> Listener \<times> unit outcome" where
  "send_to env data addr l =
     (let k = l_reads l; l = l\<lparr>l_reads := Suc k\<rparr>
      in case le_send_to env k of
           None \<Rightarrow> (l\<lparr>l_out := l_out l @ [(addr, data)]\<rparr>, Ok ())
         | Some e \<Rightarrow> (l, Err (Io e)))"

section \<open>Working on a connection\<close>

text \<open>
  A method of the \<open>k\<close>-th connection. Its handler shares the table with the listener: the
  removals it performed are the new ones in the connection's log.
\<close>

definition with_conn :: "nat \<Rightarrow> (Conn \<Rightarrow> Conn \<times> 'a) \<Rightarrow> Listener \<Rightarrow> Listener \<times> 'a" where
  "with_conn k op l =
     (let conn = l_conns l ! k;
          (conn', r) = op conn;
          removed = removals (drop (length (c_log conn)) (c_log conn'))
      in (l\<lparr>l_conns := (l_conns l)[k := conn'],
            l_connections := fold AList.delete removed (l_connections l)\<rparr>, r))"

definition close_conn :: "nat \<Rightarrow> Listener \<Rightarrow> Listener" where
  "close_conn k l = fst (with_conn k (\<lambda>conn. (close_immediately listener_close conn, ())) l)"

section \<open>Accepting, pong data and closing\<close>

text \<open>\<open>None\<close> is a call that waits.\<close>

definition accept :: "Listener \<Rightarrow> Listener \<times> nat outcome option" where
  "accept l =
     (if l_closed l then (l, Some (Err ListenerClosed))
      else case l_incoming l of
             [] \<Rightarrow> (l, None)
           | k # ks \<Rightarrow> (l\<lparr>l_incoming := ks\<rparr>, Some (Ok k)))"

definition set_pong_data :: "bytes \<Rightarrow> Listener \<Rightarrow> Listener \<times> unit outcome" where
  "set_pong_data data l =
     (if length data > 32767 then (l, Panic) else (l\<lparr>l_pong_data := data\<rparr>, Ok ()))"

definition listener_shutdown :: "listen_env \<Rightarrow> Listener \<Rightarrow> Listener" where
  "listener_shutdown env l =
     (if l_closed l then l
      else
        let l = l\<lparr>l_closed := True\<rparr>;
            connections = le_order env (map snd (l_connections l))
        in fold close_conn connections l)"

section \<open>Blocked addresses\<close>

text \<open>\<open>to_ipv6_mapped\<close> for version 4.\<close>

fun block_key :: "SocketAddr \<Rightarrow> bytes" where
  "block_key (V4 ip port) = replicate 10 0 @ [0xff, 0xff] @ to_be 4 ip"
| "block_key (V6 ip port flow scope) = to_be 16 ip"

text \<open>
  \<open>block\<close> counts first and inserts then, without the lock between the two; \<open>fetch_add\<close> wraps.
\<close>

definition block_counted :: "Listener \<Rightarrow> Listener" where
  "block_counted l = l\<lparr>l_block_count := l_block_count l + 1\<rparr>"

definition block_insert :: "listen_env \<Rightarrow> SocketAddr \<Rightarrow> Listener \<Rightarrow> Listener" where
  "block_insert env addr l =
     (case listener_now env l of (l, now) \<Rightarrow>
        l\<lparr>l_blocks := AList.update (block_key addr) now (l_blocks l)\<rparr>)"

definition block_addr :: "listen_env \<Rightarrow> SocketAddr \<Rightarrow> Listener \<Rightarrow> Listener" where
  "block_addr env addr l =
     (if cfg_block_duration (l_config l) = 0 then l
      else block_insert env addr (block_counted l))"

definition is_blocked :: "SocketAddr \<Rightarrow> Listener \<Rightarrow> bool" where
  "is_blocked addr l =
     (if cfg_block_duration (l_config l) = 0 \<or> l_block_count l = 0 then False
      else map_of (l_blocks l) (block_key addr) \<noteq> None)"

text \<open>One round of the loop of \<open>gc_blocks\<close>; whether it goes on.\<close>

definition gc_blocks :: "listen_env \<Rightarrow> Listener \<Rightarrow> Listener \<times> bool" where
  "gc_blocks env l =
     (if l_closed l then (l, False)
      else if l_block_count l = 0 then (l, True)
      else
        let (l, now) = listener_now env l;
            blocks = filter (\<lambda>(_, t). duration_since now t \<le> cfg_block_duration (l_config l)) (l_blocks l)
        in (l\<lparr>l_blocks := blocks, l_block_count := of_nat (length blocks)\<rparr>, True))"

section \<open>Unconnected messages\<close>

definition listener_cookie :: "listen_env \<Rightarrow> SocketAddr \<Rightarrow> Listener \<Rightarrow> u32" where
  "listener_cookie env addr l =
     (if cfg_disable_cookies (l_config l) then 0
      else le_crc env (cookie_data (l_cookie_salt l) addr))"

definition handle_unconnected_ping ::
  "listen_env \<Rightarrow> bytes \<Rightarrow> SocketAddr \<Rightarrow> Listener \<Rightarrow> Listener \<times> unit outcome" where
  "handle_unconnected_ping env data addr l =
     and_then_st (l, unconnected_ping_read data) (\<lambda>l pk.
     and_then_st (l, unconnected_pong_write
                       (unconnected_pong_new (up_ping_time pk) (l_id l) (l_pong_data l)))
       (\<lambda>l response. send_to env response addr l))"

definition handle_open_connection_request_1 ::
  "listen_env \<Rightarrow> bytes \<Rightarrow> SocketAddr \<Rightarrow> Listener \<Rightarrow> Listener \<times> unit outcome" where
  "handle_open_connection_request_1 env data addr l =
     and_then_st (l, ocr1_read data) (\<lambda>l pk.
       let mtu = min (ocr1_mtu pk) MAX_MTU_SIZE in
       if ocr1_client_protocol pk \<noteq> PROTOCOL_VERSION then
         and_then_st (l, ipv_write (ipv_new PROTOCOL_VERSION (l_id l))) (\<lambda>l response.
         and_then_st (send_to env response addr l) (\<lambda>l _.
           (l, Err (ProtocolMismatch (ocr1_client_protocol pk) PROTOCOL_VERSION))))
       else
         let cookie = listener_cookie env addr l;
             response = (if cfg_disable_cookies (l_config l) then reply1_new (l_id l) mtu
                         else reply1_with_security (l_id l) cookie mtu)
         in and_then_st (l, reply1_write response) (\<lambda>l response. send_to env response addr l))"

text \<open>The new connection enters the store and the table and its waiting task is spawned.\<close>

definition register_conn :: "listen_env \<Rightarrow> SocketAddr \<Rightarrow> u16 \<Rightarrow> Listener \<Rightarrow> Listener" where
  "register_conn env addr mtu l =
     (let (l, now) = listener_now env l;
          k = length (l_conns l)
      in l\<lparr>l_conns := l_conns l @ [conn_new addr mtu now],
           l_connections := AList.update addr k (l_connections l),
           l_waiting := l_waiting l @ [k]\<rparr>)"

definition handle_open_connection_request_2 ::
  "listen_env \<Rightarrow> bytes \<Rightarrow> SocketAddr \<Rightarrow> Listener \<Rightarrow> Listener \<times> unit outcome" where
  "handle_open_connection_request_2 env data addr l =
     (case ocr2_read (ocr2_default\<lparr>ocr2_server_has_security := \<not> cfg_disable_cookies (l_config l)\<rparr>) data of
        (pk, Err e) \<Rightarrow> (l, Err e)
      | (pk, Panic) \<Rightarrow> (l, Panic)
      | (pk, Ok _) \<Rightarrow>
          let expected_cookie = listener_cookie env addr l in
          if ocr2_cookie pk \<noteq> expected_cookie
          then (l, Err (InvalidCookie (ocr2_cookie pk) expected_cookie))
          else
            let mtu = min (ocr2_mtu pk) MAX_MTU_SIZE in
            and_then_st (l, reply2_write (reply2_new (l_id l) addr mtu)) (\<lambda>l response.
            and_then_st (send_to env response addr l) (\<lambda>l _.
              (register_conn env addr mtu l, Ok ()))))"

definition handle_unconnected ::
  "listen_env \<Rightarrow> bytes \<Rightarrow> SocketAddr \<Rightarrow> Listener \<Rightarrow> Listener \<times> unit outcome" where
  "handle_unconnected env data addr l =
     (case data of
        [] \<Rightarrow> (l, Ok ())
      | b # rest \<Rightarrow>
          if b = UNCONNECTED_PING \<or> b = UNCONNECTED_PING_OPEN_CONNECTIONS
          then handle_unconnected_ping env rest addr l
          else if b = OPEN_CONNECTION_REQUEST_1
          then handle_open_connection_request_1 env rest addr l
          else if b = OPEN_CONNECTION_REQUEST_2
          then handle_open_connection_request_2 env rest addr l
          else if b AND BIT_FLAG_DATAGRAM \<noteq> 0 then (l, Ok ())
          else (l, Err (UnknownPacket b (length data))))"

section \<open>The loop\<close>

definition handle :: "listen_env \<Rightarrow> bytes \<Rightarrow> SocketAddr \<Rightarrow> Listener \<Rightarrow> Listener \<times> unit outcome" where
  "handle env data addr l =
     (case map_of (l_connections l) addr of
        Some k \<Rightarrow> with_conn k (conn_receive (le_conn env k) listener_handler data) l
      | None \<Rightarrow> handle_unconnected env data addr l)"

definition listen_check :: "Listener \<Rightarrow> Listener" where
  "listen_check l = l\<lparr>l_pc := (if l_closed l then Returned else Receiving)\<rparr>"

text \<open>A datagram was read, of at most the 1500 bytes of the buffer. A panic ends the task.\<close>

definition listen_received :: "listen_env \<Rightarrow> bytes \<Rightarrow> SocketAddr \<Rightarrow> Listener \<Rightarrow> Listener" where
  "listen_received env data addr l =
     (let data = take 1500 data; l = l\<lparr>l_pc := Checking\<rparr> in
      if data = [] \<or> is_blocked addr l then l
      else case handle env data addr l of
             (l, Ok _) \<Rightarrow> l
           | (l, Err e) \<Rightarrow> block_addr env addr l
           | (l, Panic) \<Rightarrow> l\<lparr>l_pc := Returned\<rparr>)"

definition listen_failed :: "Listener \<Rightarrow> Listener" where
  "listen_failed l = l\<lparr>l_pc := (if l_closed l then Returned else Checking)\<rparr>"

section \<open>The task waiting for a connection\<close>

text \<open>
  The first branch of the \<open>select!\<close>: the wait for the connection is over and the task sends it
  to the channel, waiting while its 64 places are taken.
\<close>

definition wait_over :: "nat \<Rightarrow> Listener \<Rightarrow> Listener" where
  "wait_over k l = l\<lparr>l_waiting := remove1 k (l_waiting l), l_sending := l_sending l @ [k]\<rparr>"

definition send_incoming :: "nat \<Rightarrow> Listener \<Rightarrow> Listener" where
  "send_incoming k l = l\<lparr>l_sending := remove1 k (l_sending l), l_incoming := l_incoming l @ [k]\<rparr>"

text \<open>The second branch: ten seconds have passed.\<close>

definition wait_timeout :: "nat \<Rightarrow> Listener \<Rightarrow> Listener" where
  "wait_timeout k l =
     (let addr = c_remote_addr (l_conns l ! k);
          l = close_conn k (l\<lparr>l_waiting := remove1 k (l_waiting l)\<rparr>)
      in l\<lparr>l_connections := AList.delete addr (l_connections l)\<rparr>)"

end
