(* ===== verification/Delivery.thy ===== *)
theory Delivery
  imports Conn_Robustness
begin

text \<open>
  End-to-end delivery. A connection writes messages; the network loses, repeats and reorders the
  datagrams; the peer receives what arrives. Whatever the network does, the packets the peer
  hands to its user are a prefix of the messages written; and when the datagrams arrive in order
  they are all of them.
\<close>

section \<open>The fragments of a run of messages\<close>

text \<open>
  \<open>mtu\<close> is the effective MTU of the writer. The fragments of one message, whether it is split, its
  order index and the split identifier it gets, which counts the split messages before it.
\<close>

definition msg_fragments :: "nat \<Rightarrow> bytes \<Rightarrow> bytes list" where
  "msg_fragments mtu m = fragments_of m (fragment_limit (length m) mtu)"

definition msg_split :: "nat \<Rightarrow> bytes \<Rightarrow> bool" where
  "msg_split mtu m \<longleftrightarrow> mtu - 14 < length m"

definition msg_order :: "nat \<Rightarrow> Uint24" where
  "msg_order o' = u24_new (of_nat o')"

definition msg_split_id :: "nat \<Rightarrow> bytes list \<Rightarrow> nat \<Rightarrow> u16" where
  "msg_split_id mtu msgs o' = of_nat (length (filter (msg_split mtu) (take o' msgs)))"

text \<open>The packet that carries fragment \<open>i\<close> of message \<open>o\<close>, under some message index.\<close>

definition msg_packet :: "nat \<Rightarrow> bytes list \<Rightarrow> nat \<Rightarrow> nat \<Rightarrow> Uint24 \<Rightarrow> Packet" where
  "msg_packet mtu msgs o' i message =
     (let fs = msg_fragments mtu (msgs ! o')
      in fragment_packet (msg_order o') (msg_split_id mtu msgs o') (length fs) i message (fs ! i))"

text \<open>
  The messages considered: not empty and within the range of the counters; those of a user do not
  start with the identifier of an internal message.
\<close>

definition sendable :: "bytes \<Rightarrow> bool" where
  "sendable m \<longleftrightarrow> m \<noteq> [] \<and> length m < 2 ^ 32"

definition sendables :: "bytes list \<Rightarrow> bool" where
  "sendables msgs \<longleftrightarrow> list_all sendable msgs \<and> length msgs \<le> 65536"

lemma sendables_nth: "sendables msgs \<Longrightarrow> o' < length msgs \<Longrightarrow> sendable (msgs ! o')"
  by (simp add: sendables_def list_all_length)

definition user_message :: "bytes \<Rightarrow> bool" where
  "user_message m \<longleftrightarrow> m \<noteq> [] \<and> hd m \<notin> reserved_ids \<and> length m < 2 ^ 32"

definition user_messages :: "bytes list \<Rightarrow> bool" where
  "user_messages msgs \<longleftrightarrow> list_all user_message msgs \<and> length msgs \<le> 65536"

lemma user_messages_nth: "user_messages msgs \<Longrightarrow> o' < length msgs \<Longrightarrow> user_message (msgs ! o')"
  by (simp add: user_messages_def list_all_length)

lemma user_message_sendable: "user_message m \<Longrightarrow> sendable m"
  by (simp add: user_message_def sendable_def)

lemma user_messages_sendables: "user_messages msgs \<Longrightarrow> sendables msgs"
  by (auto simp: user_messages_def sendables_def user_message_sendable list_all_iff)

text \<open>The messages of a run that are for the user: the others are internal.\<close>

definition for_user :: "bytes list \<Rightarrow> bytes list" where
  "for_user msgs = filter (\<lambda>m. hd m \<notin> reserved_ids) msgs"

lemma for_user_append [simp]: "for_user (ms @ ms') = for_user ms @ for_user ms'"
  by (simp add: for_user_def)

lemma for_user_messages: "user_messages msgs \<Longrightarrow> for_user (take n msgs) = take n msgs"
  unfolding for_user_def filter_id_conv user_messages_def user_message_def list_all_iff
  using in_set_takeD by fast

lemma msg_order_inner: "o' < 65536 \<Longrightarrow> u24_inner (msg_order o') \<and> unat (u24 (msg_order o')) = o'"
proof -
  assume "o' < 65536"
  then have "unat (u24 (msg_order o')) = o'" by (simp add: msg_order_def unat_u24_new_of_nat)
  moreover from this \<open>o' < 65536\<close> have "u24_inner (msg_order o')"
    by (simp add: u24_inner_def word_less_nat_alt)
  ultimately show ?thesis by simp
qed

lemma msg_fragments_facts:
  assumes "24 < mtu" and "sendable m"
  shows "concat (msg_fragments mtu m) = m"
    and "f \<in> set (msg_fragments mtu m) \<Longrightarrow> f \<noteq> [] \<and> length f \<le> mtu - 14"
    and "1 < length (msg_fragments mtu m) \<longleftrightarrow> msg_split mtu m"
    and "0 < length (msg_fragments mtu m)"
    and "length (msg_fragments mtu m) < 2 ^ 32"
proof -
  let ?m = "fragment_limit (length m) mtu"
  have m: "0 < ?m" "?m \<le> mtu - 14" using assms(1) by (auto simp: fragment_limit_def)
  have ne: "m \<noteq> []" "length m < 2 ^ 32" using assms(2) by (simp_all add: sendable_def)
  note facts = fragments_of_facts [OF m(1) ne(1)]
  show "concat (msg_fragments mtu m) = m" using facts(1) by (simp add: msg_fragments_def)
  show "f \<in> set (msg_fragments mtu m) \<Longrightarrow> f \<noteq> [] \<and> length f \<le> mtu - 14"
    using facts(3) m(2) by (fastforce simp: msg_fragments_def)
  show len: "0 < length (msg_fragments mtu m)"
    using facts(2) div_ceil_bounds(1) [OF m(1), of "length m"] ne by (simp add: msg_fragments_def)
  show "1 < length (msg_fragments mtu m) \<longleftrightarrow> msg_split mtu m"
  proof -
    have "length (msg_fragments mtu m) = 1 \<longleftrightarrow> length m \<le> mtu - 14"
      using single_fragment_iff [OF assms(1) ne(1)] by (simp add: msg_fragments_def)
    with len show ?thesis unfolding msg_split_def by linarith
  qed
  have "length (msg_fragments mtu m) - 1 \<le> (length (msg_fragments mtu m) - 1) * ?m" using m(1) by simp
  also have "\<dots> < length m"
    using div_ceil_bounds(2) [OF m(1), of "length m"] ne facts(2) by (simp add: msg_fragments_def)
  finally show "length (msg_fragments mtu m) < 2 ^ 32" using ne len by linarith
qed

text \<open>Different split messages have different identifiers.\<close>

lemma msg_split_id_inj:
  assumes "length msgs \<le> 65536" and "a < b" and "b < length msgs" and "msg_split mtu (msgs ! a)"
  shows "msg_split_id mtu msgs a \<noteq> msg_split_id mtu msgs b"
proof -
  let ?n = "\<lambda>k. length (filter (msg_split mtu) (take k msgs))"
  have "take (Suc a) msgs = take a msgs @ [msgs ! a]"
    using assms by (intro take_Suc_conv_app_nth) simp
  then have "?n (Suc a) = Suc (?n a)" using assms(4) by simp
  moreover have "take b msgs = take (Suc a) msgs @ take (b - Suc a) (drop (Suc a) msgs)"
    using assms(2) by (simp flip: take_add)
  then have "?n (Suc a) \<le> ?n b" by simp
  moreover have "?n b \<le> b" using length_filter_le [of _ "take b msgs"] assms(3) by fastforce
  ultimately have "?n a < ?n b" "?n b < 65536" using assms by linarith+
  then have "unat (of_nat (?n a) :: u16) \<noteq> unat (of_nat (?n b) :: u16)"
    by (simp add: unsigned_of_nat take_bit_nat_eq_self)
  then show ?thesis by (auto simp: msg_split_id_def)
qed

lemma msg_packet_wf:
  assumes "24 < mtu" and "mtu < 8192" and "sendables msgs" and "o' < length msgs"
    and "i < length (msg_fragments mtu (msgs ! o'))" and "u24_ok message"
  shows "packet_wf (msg_packet mtu msgs o' i message)"
proof -
  have m: "sendable (msgs ! o')" using assms sendables_nth by blast
  let ?f = "msg_fragments mtu (msgs ! o') ! i"
  have "?f \<in> set (msg_fragments mtu (msgs ! o'))" using assms(5) by simp
  then have f: "?f \<noteq> []" "length ?f < 8192"
    using msg_fragments_facts(2) [OF assms(1) m] assms(2) by fastforce+
  have "u24_ok (msg_order o')" by (simp add: msg_order_def)
  with f assms(6) show ?thesis
    by (simp add: packet_wf_def msg_packet_def fragment_packet_def packet_new_def Let_def
        reliability_defs u24_ok_def)
qed

section \<open>The receiver's invariant\<close>

text \<open>
  The queue simulates a stream of messages of the run; the user has the delivered prefix; and an
  entry of the reassembly map belongs to a split message and holds some of its fragments.
\<close>

definition queue_consistent :: "bytes list \<Rightarrow> Conn \<Rightarrow> bool" where
  "queue_consistent msgs conn \<longleftrightarrow> c_closing conn = 0 \<and>
     (\<exists>r. simulates (st_packet_queue (c_state conn)) r
        \<and> (\<forall>o' c. stream r o' = Some c \<longrightarrow> o' < length msgs \<and> c = msgs ! o')
        \<and> delivered r \<le> length msgs \<and> user_packets (c_log conn) = for_user (take (delivered r) msgs))"

definition msg_slots :: "nat \<Rightarrow> bytes \<Rightarrow> bytes list \<Rightarrow> bool" where
  "msg_slots mtu m slots \<longleftrightarrow> length slots = length (msg_fragments mtu m)
     \<and> (\<forall>j < length slots. slots ! j = [] \<or> slots ! j = msg_fragments mtu m ! j)"

definition splits_consistent :: "nat \<Rightarrow> bytes list \<Rightarrow> Conn \<Rightarrow> bool" where
  "splits_consistent mtu msgs conn \<longleftrightarrow>
     (\<forall>s slots. map_of (st_splits (c_state conn)) s = Some slots \<longrightarrow>
        (\<exists>o' < length msgs. msg_split mtu (msgs ! o') \<and> msg_split_id mtu msgs o' = s
           \<and> msg_slots mtu (msgs ! o') slots))"

text \<open>
  The handler takes a message, on any connection with at least \<open>n\<close> clock readings that is not
  closing: it succeeds, the message goes to the user unless it is internal, and the tasks it
  spawns, its answers, are in \<open>T\<close>.
\<close>

definition takes :: "(bytes \<Rightarrow> bool) \<Rightarrow> env \<Rightarrow> ConnectionHandler \<Rightarrow> nat \<Rightarrow> bytes \<Rightarrow> bool" where
  "takes T env h n m \<longleftrightarrow> (\<forall>conn. n \<le> c_reads conn \<and> c_closing conn = 0 \<longrightarrow>
     (\<exists>conn'. handle_packet env h m conn = (conn', Ok ()) \<and> c_reads conn \<le> c_reads conn'
        \<and> user_packets (c_log conn') = user_packets (c_log conn) @ for_user [m]
        \<and> (list_all T (c_tasks conn) \<longrightarrow> list_all T (c_tasks conn'))))"

lemma takes_mono: "takes T env h n m \<Longrightarrow> n \<le> n' \<Longrightarrow> takes T env h n' m"
  by (simp add: takes_def)

lemma takes_all_mono: "list_all (takes T env h n) ms \<Longrightarrow> n \<le> n' \<Longrightarrow> list_all (takes T env h n') ms"
  unfolding list_all_iff using takes_mono by blast

context connection_handler
begin

lemma takes_user: "user_message m \<Longrightarrow> takes T env h n m"
  by (simp add: takes_def user_message_def handle_packet_unhandled for_user_def emit_def)

lemma takes_user_messages: "user_messages msgs \<Longrightarrow> list_all (takes T env h n) msgs"
  by (simp add: user_messages_def list_all_iff takes_user)

lemma handle_packets_taken:
  "list_all (takes T env h n) cs \<Longrightarrow> n \<le> c_reads conn \<Longrightarrow> c_closing conn = 0 \<Longrightarrow> list_all T (c_tasks conn) \<Longrightarrow>
   \<exists>conn'. handle_packets env h cs conn = (conn', Ok ()) \<and> c_state conn' = c_state conn
     \<and> c_closing conn' = 0 \<and> user_packets (c_log conn') = user_packets (c_log conn) @ for_user cs
     \<and> list_all T (c_tasks conn')"
proof (induction cs arbitrary: conn)
  case Nil
  then show ?case by (simp add: for_user_def)
next
  case (Cons c cs)
  then obtain c' where c': "handle_packet env h c conn = (c', Ok ())" "c_reads conn \<le> c_reads c'"
      "user_packets (c_log c') = user_packets (c_log conn) @ for_user [c]" "list_all T (c_tasks c')"
    by (auto simp: takes_def)
  have "c_state c' = c_state conn" "c_closing c' = 0"
    using handle_packet_frame [of env c conn] c'(1) Cons.prems(3) by simp_all
  with Cons.IH [of c'] Cons.prems c' show ?case
    using for_user_append [of "[c]" cs] by auto
qed

lemma queue_consistent_receive:
  assumes inv: "queue_consistent msgs conn" and msgs: "sendables msgs" and o': "o' < length msgs"
    and takes: "list_all (takes T env h (c_reads conn)) msgs" and tasks: "list_all T (c_tasks conn)"
    and pk: "reliability pk = RELIABILITY_RELIABLE_ORDERED" "order_index pk = msg_order o'"
      "content pk = msgs ! o'"
  shows "queue_consistent msgs (fst (receive_packet env h pk conn))
    \<and> list_all T (c_tasks (fst (receive_packet env h pk conn)))"
proof -
  obtain r where sim: "simulates (st_packet_queue (c_state conn)) r"
    and str: "\<forall>o' c. stream r o' = Some c \<longrightarrow> o' < length msgs \<and> c = msgs ! o'"
    and user: "delivered r \<le> length msgs" "user_packets (c_log conn) = for_user (take (delivered r) msgs)"
    and open': "c_closing conn = 0"
    using inv by (auto simp: queue_consistent_def)
  have inner: "u24_inner (msg_order o')" "unat (u24 (msg_order o')) = o'"
    using msg_order_inner [of o'] msgs o' by (simp_all add: sendables_def)
  let ?q = "st_packet_queue (c_state conn)"
  obtain q1 fresh where put: "pq_put (order_index pk) (content pk) ?q = (q1, fresh)"
    by (cases "pq_put (order_index pk) (content pk) ?q")
  let ?r1 = "fst (reorder_put o' (msgs ! o') r)"
  have sim1: "simulates q1 ?r1"
    using put_simulates(1) [OF sim inner(1), of "msgs ! o'"] put pk inner(2) by simp
  have str1: "\<forall>o' c. stream ?r1 o' = Some c \<longrightarrow> o' < length msgs \<and> c = msgs ! o'"
    using str o' by (simp add: reorder_put_def)
  let ?c1 = "conn\<lparr>c_state := (c_state conn)\<lparr>st_packet_queue := q1\<rparr>\<rparr>"
  have c1: "queue_consistent msgs ?c1"
    using sim1 str1 user open' unfolding queue_consistent_def by (auto intro!: exI [of _ ?r1])
  obtain q2 out where fetch: "pq_fetch q1 = (q2, out)" by (cases "pq_fetch q1")
  let ?k = "unat (u24 (pq_lowest q2))"
  note f = fetch_simulates [OF sim1 fetch]
  have le: "delivered r \<le> ?k" and held: "\<And>i. delivered r \<le> i \<Longrightarrow> i < ?k \<Longrightarrow> \<exists>c. stream ?r1 i = Some c"
    using f(1) by (auto simp: reorder_stop_def)
  have msg: "the (stream ?r1 i) = msgs ! i \<and> i < length msgs" if "delivered r \<le> i" "i < ?k" for i
    using held [OF that] str1 by auto
  then have out: "out = map (\<lambda>i. msgs ! i) [delivered r ..< ?k]"
    using f(2) by (simp add: reorder_out_def)
  have taken: "?k \<le> length msgs \<and> take ?k msgs = take (delivered r) msgs @ out"
  proof (cases "delivered r = ?k")
    case False
    with le have "?k - 1 < length msgs" using msg [of "?k - 1"] by simp
    with False le have kl: "?k \<le> length msgs" by linarith
    then have "out = drop (delivered r) (take ?k msgs)"
      using out by (simp add: list_eq_iff_nth_eq)
    with le kl show ?thesis by (metis append_take_drop_id min_absorb1 take_take)
  qed (use out user(1) in simp)
  have deliverable: "list_all (takes T env h (c_reads conn)) out"
    using msg takes unfolding out list_all_iff by auto
  let ?c2 = "?c1\<lparr>c_state := (c_state ?c1)\<lparr>st_packet_queue := q2\<rparr>\<rparr>"
  obtain c3 where hand: "handle_packets env h out ?c2 = (c3, Ok ())" "c_state c3 = c_state ?c2"
      "c_closing c3 = 0" "user_packets (c_log c3) = user_packets (c_log conn) @ for_user out" "list_all T (c_tasks c3)"
    using handle_packets_taken [OF deliverable, of ?c2] open' tasks by auto
  have c3: "queue_consistent msgs c3"
    using hand f(3) str1 taken user unfolding queue_consistent_def
    by (auto intro!: exI [of _ "?r1\<lparr>delivered := ?k\<rparr>"])
  show ?thesis
    using pk c1 c3 put fetch hand(1,5) tasks
    by (cases "pq_window_size (env_profile env) q1") (auto simp: receive_packet_def Let_def)
qed

end

lemma msg_slots_complete:
  assumes "24 < mtu" and "sendable m" and "msg_slots mtu m slots" and "\<not> list_ex (\<lambda>f. f = []) slots"
  shows "concat slots = m"
proof -
  have "slots = msg_fragments mtu m"
  proof (rule nth_equalityI)
    show "length slots = length (msg_fragments mtu m)" using assms(3) by (simp add: msg_slots_def)
    fix j
    assume "j < length slots"
    then have "slots ! j \<in> set slots" by simp
    then have "slots ! j \<noteq> []" using assms(4) by (auto simp: list_ex_iff)
    with \<open>j < length slots\<close> assms(3) show "slots ! j = msg_fragments mtu m ! j"
      by (auto simp: msg_slots_def)
  qed
  then show ?thesis using msg_fragments_facts(1) [OF assms(1,2)] by simp
qed

lemma consistent_slots:
  assumes "splits_consistent mtu msgs conn" and "sendables msgs" and "24 < mtu"
    and "o' < length msgs" and "msg_split mtu (msgs ! o')"
  shows "msg_slots mtu (msgs ! o')
    (case map_of (st_splits (c_state conn)) (msg_split_id mtu msgs o') of Some slots \<Rightarrow> slots
     | None \<Rightarrow> replicate (length (msg_fragments mtu (msgs ! o'))) [])"
proof (cases "map_of (st_splits (c_state conn)) (msg_split_id mtu msgs o')")
  case None
  then show ?thesis by (simp add: msg_slots_def)
next
  case (Some slots)
  then obtain p where p: "p < length msgs" "msg_split mtu (msgs ! p)"
      "msg_split_id mtu msgs p = msg_split_id mtu msgs o'" "msg_slots mtu (msgs ! p) slots"
    using assms(1) unfolding splits_consistent_def by blast
  have "length msgs \<le> 65536" using assms(2) by (simp add: sendables_def)
  then have "p = o'"
    using msg_split_id_inj [of msgs p o' mtu] msg_split_id_inj [of msgs o' p mtu] p assms(4,5)
    by (metis linorder_neqE_nat)
  with p Some show ?thesis by simp
qed

lemma splits_consistent_update:
  assumes "splits_consistent mtu msgs conn" and "o' < length msgs" and "msg_split mtu (msgs ! o')"
    and "msg_slots mtu (msgs ! o') slots"
    and "st_splits (c_state conn') = AList.update (msg_split_id mtu msgs o') slots (st_splits (c_state conn))"
  shows "splits_consistent mtu msgs conn'"
  using assms by (auto simp: splits_consistent_def update_conv')

lemma splits_consistent_delete:
  assumes "splits_consistent mtu msgs conn"
    and "st_splits (c_state conn') = AList.delete s (st_splits (c_state conn))"
  shows "splits_consistent mtu msgs conn'"
  using assms by (auto simp: splits_consistent_def delete_conv' split: if_splits)

lemma splits_consistent_state:
  "st_splits (c_state conn') = st_splits (c_state conn) \<Longrightarrow>
   splits_consistent mtu msgs conn' = splits_consistent mtu msgs conn"
  by (simp add: splits_consistent_def)

lemma queue_consistent_state:
  "st_packet_queue (c_state conn') = st_packet_queue (c_state conn) \<Longrightarrow> c_closing conn' = c_closing conn \<Longrightarrow>
   user_packets (c_log conn') = user_packets (c_log conn) \<Longrightarrow>
   queue_consistent msgs conn' = queue_consistent msgs conn"
  by (simp add: queue_consistent_def)

definition consistent :: "nat \<Rightarrow> bytes list \<Rightarrow> Conn \<Rightarrow> bool" where
  "consistent mtu msgs conn \<longleftrightarrow> queue_consistent msgs conn \<and> splits_consistent mtu msgs conn"

context connection_handler
begin

text \<open>A fragment in range fills its slot; a complete entry is removed and combined.\<close>

lemma receive_split_slots:
  assumes "\<not> ((split_count pk > MAX_SPLIT_COUNT \<or> length (st_splits (c_state conn)) > MAX_CONCURRENT_SPLITS)
      \<and> h_limits_enabled h)"
    and slots: "slots = (case map_of (st_splits (c_state conn)) (split_id pk) of Some slots \<Rightarrow> slots
      | None \<Rightarrow> replicate (unat (split_count pk)) [])"
    and idx: "unat (split_index pk) < length slots"
    and slots': "slots' = slots[unat (split_index pk) := content pk]"
    and s2: "s2 = AList.update (split_id pk) slots' (AList.update (split_id pk) slots (st_splits (c_state conn)))"
  shows "receive_split_packet env h pk conn =
    (if list_ex (\<lambda>f. f = []) slots' then (conn\<lparr>c_state := (c_state conn)\<lparr>st_splits := s2\<rparr>\<rparr>, Ok ())
     else receive_packet env h
       (packet_new\<lparr>content := concat slots', order_index := order_index pk, reliability := reliability pk\<rparr>)
       (conn\<lparr>c_state := (c_state conn)\<lparr>st_splits := AList.delete (split_id pk) s2\<rparr>\<rparr>))"
proof -
  have no: "(split_count pk > MAX_SPLIT_COUNT \<and> h_limits_enabled h) = False"
    "(length (st_splits (c_state conn)) > MAX_CONCURRENT_SPLITS \<and> h_limits_enabled h) = False"
    "(length slots \<le> unat (split_index pk)) = False"
    using assms(1) idx by auto
  show ?thesis
    unfolding receive_split_packet_def Let_def no if_False slots [symmetric]
    by (simp add: no s2 slots')
qed

lemma consistent_receive_split:
  assumes inv: "consistent mtu msgs conn" and msgs: "sendables msgs"
    and takes: "list_all (takes T env h (c_reads conn)) msgs" "list_all T (c_tasks conn)" and mtu: "24 < mtu"
    and o': "o' < length msgs" and split: "msg_split mtu (msgs ! o')"
    and i: "i < length (msg_fragments mtu (msgs ! o'))"
    and pk: "reliability pk = RELIABILITY_RELIABLE_ORDERED" "order_index pk = msg_order o'"
      "split_id pk = msg_split_id mtu msgs o'" "content pk = msg_fragments mtu (msgs ! o') ! i"
      "split_count pk = of_nat (length (msg_fragments mtu (msgs ! o')))" "split_index pk = of_nat i"
  shows "consistent mtu msgs (fst (receive_split_packet env h pk conn)) \<and> list_all T (c_tasks (fst (receive_split_packet env h pk conn)))"
proof (cases "(split_count pk > MAX_SPLIT_COUNT \<or> length (st_splits (c_state conn)) > MAX_CONCURRENT_SPLITS)
    \<and> h_limits_enabled h")
  case True
  then have "fst (receive_split_packet env h pk conn) = conn"
    by (elim conjE disjE) (simp_all add: receive_split_packet_def Let_def)
  with inv takes(2) show ?thesis by simp
next
  case False
  have m: "sendable (msgs ! o')" using sendables_nth [OF msgs o'] .
  let ?fs = "msg_fragments mtu (msgs ! o')"
  have n: "length ?fs < 2 ^ 32" by (rule msg_fragments_facts(5) [OF mtu m])
  then have cnt: "unat (split_count pk) = length ?fs" and idx: "unat (split_index pk) = i"
    using pk(5,6) i by (simp_all add: unsigned_of_nat take_bit_nat_eq_self)
  let ?st = "c_state conn"
  define slots where "slots = (case map_of (st_splits ?st) (split_id pk) of Some slots \<Rightarrow> slots
    | None \<Rightarrow> replicate (unat (split_count pk)) [])"
  have queue: "queue_consistent msgs conn" and splits: "splits_consistent mtu msgs conn"
    using inv by (simp_all add: consistent_def)
  have slots: "msg_slots mtu (msgs ! o') slots"
    using consistent_slots [OF splits msgs mtu o' split] by (simp add: slots_def cnt pk(3) cong: option.case_cong)
  have li: "i < length slots" using slots i by (simp add: msg_slots_def)
  define slots' where "slots' = slots[i := content pk]"
  have slots': "msg_slots mtu (msgs ! o') slots'"
    using slots pk(4) li by (auto simp: msg_slots_def slots'_def nth_list_update)
  define s2 where "s2 = AList.update (split_id pk) slots' (AList.update (split_id pk) slots (st_splits ?st))"
  define c2 where "c2 = conn\<lparr>c_state := ?st\<lparr>st_splits := s2\<rparr>\<rparr>"
  define c3 where "c3 = conn\<lparr>c_state := ?st\<lparr>st_splits := AList.delete (split_id pk) s2\<rparr>\<rparr>"
  define combined where "combined = packet_new\<lparr>content := concat slots',
    order_index := order_index pk, reliability := reliability pk\<rparr>"
  have unfold: "receive_split_packet env h pk conn =
      (if list_ex (\<lambda>f. f = []) slots' then (c2, Ok ()) else receive_packet env h combined c3)"
    using receive_split_slots [OF _ slots_def _ _ s2_def] False li
    by (simp add: idx slots'_def combined_def c2_def c3_def)
  have "splits_consistent mtu msgs (conn\<lparr>c_state := ?st\<lparr>st_splits := AList.update (split_id pk) slots (st_splits ?st)\<rparr>\<rparr>)"
    by (rule splits_consistent_update [OF splits o' split slots]) (simp add: pk(3))
  then have sc2: "splits_consistent mtu msgs c2"
    by (rule splits_consistent_update [OF _ o' split slots']) (simp add: c2_def s2_def pk(3))
  then have sc3: "splits_consistent mtu msgs c3"
    by (rule splits_consistent_delete) (simp add: c2_def c3_def)
  have qc: "queue_consistent msgs c2" "queue_consistent msgs c3"
    by (rule queue_consistent_state [THEN iffD2, OF _ _ _ queue]; simp add: c2_def c3_def)+
  show ?thesis
  proof (cases "list_ex (\<lambda>f. f = []) slots'")
    case True
    with sc2 qc unfold takes(2) show ?thesis by (simp add: consistent_def c2_def)
  next
    case False
    have "concat slots' = msgs ! o'" by (rule msg_slots_complete [OF mtu m slots' False])
    then have "queue_consistent msgs (fst (receive_packet env h combined c3))
        \<and> list_all T (c_tasks (fst (receive_packet env h combined c3)))"
      by (intro queue_consistent_receive [OF qc(2) msgs o']) (simp_all add: combined_def pk takes c3_def)
    moreover have "splits_consistent mtu msgs (fst (receive_packet env h combined c3))"
      using sc3 splits_consistent_state [OF receive_packet_splits] by blast
    ultimately show ?thesis using unfold False by (simp add: consistent_def)
  qed
qed

text \<open>A packet of the run, as the reader decodes it.\<close>

lemma consistent_dispatch:
  fixes p :: Packet and message :: Uint24
  assumes inv: "consistent mtu msgs conn" and msgs: "sendables msgs"
    and takes: "list_all (takes T env h (c_reads conn)) msgs" "list_all T (c_tasks conn)" and mtu: "24 < mtu"
    and o': "o' < length msgs" and i: "i < length (msg_fragments mtu (msgs ! o'))"
  defines "conn' \<equiv> fst (dispatch_packet env h (packet_decoded p (msg_packet mtu msgs o' i message)) conn)"
  shows "consistent mtu msgs conn' \<and> list_all T (c_tasks conn')"
proof -
  let ?fs = "msg_fragments mtu (msgs ! o')"
  let ?pk = "packet_decoded p (msg_packet mtu msgs o' i message)"
  have m: "sendable (msgs ! o')" using sendables_nth [OF msgs o'] .
  note facts = msg_fragments_facts [OF mtu m]
  have ordered: "reliability ?pk = RELIABILITY_RELIABLE_ORDERED" "order_index ?pk = msg_order o'"
      "content ?pk = ?fs ! i" "split_flag ?pk \<longleftrightarrow> msg_split mtu (msgs ! o')"
    using facts(3) by (auto simp: packet_decoded_def msg_packet_def fragment_packet_def packet_new_def
        is_sequenced_or_ordered_def Let_def)
  show ?thesis
  proof (cases "msg_split mtu (msgs ! o')")
    case True
    then have "1 < length ?fs" using facts(3) by simp
    then have "split_id ?pk = msg_split_id mtu msgs o'" "split_count ?pk = of_nat (length ?fs)"
        "split_index ?pk = of_nat i"
      by (simp_all add: packet_decoded_def msg_packet_def fragment_packet_def Let_def)
    then show ?thesis
      using consistent_receive_split [OF inv msgs takes mtu o' True i] ordered True
      by (simp add: conn'_def dispatch_packet_def)
  next
    case False
    then have "length ?fs = 1" using facts(3,4) by linarith
    then have "?fs ! i = msgs ! o'"
      using facts(1) i by (cases ?fs) auto
    then have "queue_consistent msgs (fst (receive_packet env h ?pk conn))
        \<and> list_all T (c_tasks (fst (receive_packet env h ?pk conn)))"
      using inv ordered takes by (intro queue_consistent_receive [OF _ msgs o']) (simp_all add: consistent_def)
    moreover have "splits_consistent mtu msgs (fst (receive_packet env h ?pk conn))"
      using inv splits_consistent_state [OF receive_packet_splits] by (simp add: consistent_def)
    ultimately show ?thesis using False ordered(4) by (simp add: conn'_def dispatch_packet_def consistent_def)
  qed
qed

end

lemma consistent_side:
  "receiving_side conn' = receiving_side conn \<Longrightarrow> consistent mtu msgs conn' = consistent mtu msgs conn"
  by (simp add: receiving_side_def consistent_def queue_consistent_def splits_consistent_def)

lemma consistent_new: "sendables msgs \<Longrightarrow> consistent mtu msgs (conn_new addr mtu' now)"
  using simulates_new
  by (auto simp: consistent_def queue_consistent_def splits_consistent_def conn_new_def
      conn_state_new_def reorder_new_def for_user_def intro!: exI [of _ reorder_new])

section \<open>One datagram\<close>

lemma build_datagram_bytes:
  "build_datagram seq pk = 0x84 # write_uint24 [] seq @ packet_write pk []"
  using packet_write_append [of pk "write_uint24 [0x84] seq"] write_uint24_append [of "[0x84]" seq]
  by (simp add: build_datagram_def flag_defs)

lemma handle_datagram_one:
  assumes "packet_wf q"
  shows "handle_datagram env h (packet_write q []) conn =
    dispatch_packet env h (packet_decoded (st_pk (c_state conn)) q) (set_pk packet_new conn)"
proof -
  have read: "packet_read (st_pk (c_state conn)) (packet_write q [])
      = (packet_decoded (st_pk (c_state conn)) q, Ok (length (packet_write q [])))"
    using packet_read_write [OF assms, of _ "[]"] by simp
  have nonempty: "packet_write q [] \<noteq> []" by (simp add: packet_write_parts)
  have rest: "handle_datagram env h [] c = (c, Ok ())" for c
    by (subst handle_datagram.simps) simp
  have return: "and_then_st r (\<lambda>c _. (c, Ok ())) = r" for r :: "Conn \<times> unit outcome"
    by (cases r; cases "snd r") auto
  show ?thesis
    using nonempty by (subst handle_datagram.simps) (simp add: read rest return)
qed

lemma conn_receive_datagram:
  "conn_receive env h (build_datagram seq pk) conn =
     receive_datagram env h (write_uint24 [] seq @ packet_write pk [])
       (conn\<lparr>c_reads := Suc (c_reads conn), c_last_activity := clock env (c_reads conn)\<rparr>)"
  by (simp add: conn_receive_def build_datagram_bytes read_clock_def flag_defs Let_def)

text \<open>The datagrams of a run: any fragment of any of its messages, under any sequence number.\<close>

definition run_datagram :: "nat \<Rightarrow> bytes list \<Rightarrow> bytes \<Rightarrow> bool" where
  "run_datagram mtu msgs d \<longleftrightarrow>
     (\<exists>o' i message seq. o' < length msgs \<and> i < length (msg_fragments mtu (msgs ! o'))
        \<and> u24_ok message \<and> u24_ok seq \<and> d = build_datagram seq (msg_packet mtu msgs o' i message))"

text \<open>Everything a connection receives, in order; what the calls return is not looked at.\<close>

fun receive_all :: "env \<Rightarrow> ConnectionHandler \<Rightarrow> bytes list \<Rightarrow> Conn \<Rightarrow> Conn" where
  "receive_all env h [] conn = conn"
| "receive_all env h (d # ds) conn = receive_all env h ds (fst (conn_receive env h d conn))"

context connection_handler
begin

lemma consistent_receive:
  assumes inv: "consistent mtu msgs conn" and msgs: "sendables msgs"
    and takes: "list_all (takes T env h (c_reads conn)) msgs" "list_all T (c_tasks conn)" and mtu: "24 < mtu" "mtu < 8192"
    and d: "run_datagram mtu msgs d"
  shows "consistent mtu msgs (fst (conn_receive env h d conn)) \<and> list_all T (c_tasks (fst (conn_receive env h d conn)))"
proof -
  obtain o' i message seq where o': "o' < length msgs" and i: "i < length (msg_fragments mtu (msgs ! o'))"
    and message: "u24_ok message" and d': "d = build_datagram seq (msg_packet mtu msgs o' i message)"
    using d by (auto simp: run_datagram_def)
  let ?q = "msg_packet mtu msgs o' i message"
  let ?c = "conn\<lparr>c_reads := Suc (c_reads conn), c_last_activity := clock env (c_reads conn)\<rparr>"
  let ?data = "write_uint24 [] seq @ packet_write ?q []"
  have wf: "packet_wf ?q" by (rule msg_packet_wf [OF mtu msgs o' i message])
  have c: "consistent mtu msgs ?c"
    using inv consistent_side [OF receiving_side_touch(1)] by blast
  have "consistent mtu msgs (fst (receive_datagram env h ?data ?c))
      \<and> list_all T (c_tasks (fst (receive_datagram env h ?data ?c)))"
  proof (cases rule: receive_datagram_cases [of env h ?data ?c])
    case (stop conn' r)
    have "consistent mtu msgs conn'" using c consistent_side [OF window_frame_receiving_side [OF stop(2)]] by blast
    with stop takes(2) show ?thesis by (simp add: window_frame_def)
  next
    case (go_on conn')
    have "consistent mtu msgs conn'"
      using c consistent_side [OF window_frame_receiving_side [OF go_on(2)]] by blast
    then have c': "consistent mtu msgs (set_pk packet_new conn')"
      using consistent_side [OF receiving_side_touch(2)] by blast
    have "list_all (takes T env h (c_reads (set_pk packet_new conn'))) msgs" "list_all T (c_tasks (set_pk packet_new conn'))"
      by (rule takes_all_mono [OF takes(1)]) (use takes(2) go_on(2) in \<open>simp_all add: set_pk_def window_frame_def\<close>)
    from consistent_dispatch [OF c' msgs this mtu(1) o' i] go_on(1) show ?thesis
      by (simp add: handle_datagram_one [OF wf])
  qed
  then show ?thesis by (simp add: d' conn_receive_datagram)
qed

lemma consistent_receive_all:
  assumes "sendables msgs" and "list_all (takes (\<lambda>_. True) env h 0) msgs" and "24 < mtu" and "mtu < 8192"
  shows "consistent mtu msgs conn \<Longrightarrow> list_all (run_datagram mtu msgs) ds \<Longrightarrow>
    consistent mtu msgs (receive_all env h ds conn)"
  by (induction ds arbitrary: conn) (use consistent_receive [OF _ assms(1) takes_all_mono [OF assms(2)] _ assms(3,4)] in \<open>auto simp: list_all_iff\<close>)

end

section \<open>The sender\<close>

text \<open>The datagrams of the fragments of one message, from given counters on.\<close>

fun fragment_stream ::
  "Uint24 \<Rightarrow> u16 \<Rightarrow> nat \<Rightarrow> nat \<Rightarrow> Uint24 \<Rightarrow> Uint24 \<Rightarrow> bytes list \<Rightarrow> bytes list" where
  "fragment_stream order sid k i seq message [] = []"
| "fragment_stream order sid k i seq message (c # cs) =
     build_datagram seq (fragment_packet order sid k i message c)
       # fragment_stream order sid k (Suc i) (snd (u24_inc seq)) (snd (u24_inc message)) cs"

text \<open>What a write leaves alone.\<close>

definition write_frame :: "Conn \<Rightarrow> Conn \<Rightarrow> bool" where
  "write_frame conn conn' \<longleftrightarrow>
     c_mtu conn' = c_mtu conn \<and> c_closed conn' = c_closed conn
     \<and> receiving_side conn' = receiving_side conn \<and> st_win (c_state conn') = st_win (c_state conn)
     \<and> st_ack_slice (c_state conn') = st_ack_slice (c_state conn)
     \<and> c_tasks conn' = c_tasks conn \<and> c_reads conn \<le> c_reads conn'"

lemma send_datagram_sent:
  assumes "send_ok env (c_log conn)"
  shows "\<exists>conn'. send_datagram env pk conn = (conn', Ok ()) \<and> write_frame conn conn'
    \<and> sent_datagrams (c_log conn') = sent_datagrams (c_log conn) @ [build_datagram (st_seq (c_state conn)) pk]
    \<and> st_seq (c_state conn') = snd (u24_inc (st_seq (c_state conn)))
    \<and> st_message_index (c_state conn') = st_message_index (c_state conn)
    \<and> st_order_index (c_state conn') = st_order_index (c_state conn)
    \<and> st_split_id (c_state conn') = st_split_id (c_state conn)
    \<and> rm_pending (st_retransmission (c_state conn'))
        = (rm_pending (st_retransmission (c_state conn)))(u24 (st_seq (c_state conn)) \<mapsto> pk)"
  using assms
  by (simp add: send_datagram_def read_clock_def chan_send_def emit_def write_frame_def
      receiving_side_def rm_pending_add u24_inc_def Let_def)

lemma write_fragments_sent:
  assumes "\<And>es. send_ok env es"
  shows "u24_ok (st_seq (c_state conn)) \<Longrightarrow> u24_ok (st_message_index (c_state conn)) \<Longrightarrow>
    \<exists>conn'. write_fragments env order sid k i cs n conn = (conn', Ok (n + length (concat cs)))
      \<and> write_frame conn conn'
      \<and> sent_datagrams (c_log conn') = sent_datagrams (c_log conn)
          @ fragment_stream order sid k i (st_seq (c_state conn)) (st_message_index (c_state conn)) cs
      \<and> st_seq (c_state conn') = u24_plus (st_seq (c_state conn)) (length cs)
      \<and> st_message_index (c_state conn') = u24_plus (st_message_index (c_state conn)) (length cs)
      \<and> st_order_index (c_state conn') = st_order_index (c_state conn)
      \<and> st_split_id (c_state conn') = st_split_id (c_state conn)"
proof (induction cs arbitrary: i n conn)
  case Nil
  then show ?case by (simp add: write_frame_def)
next
  case (Cons c cs)
  let ?mi = "st_message_index (c_state conn)"
  let ?c1 = "conn\<lparr>c_state := (c_state conn)\<lparr>st_message_index := snd (u24_inc ?mi)\<rparr>\<rparr>"
  let ?pk = "fragment_packet order sid k i ?mi c"
  obtain c2 where c2: "send_datagram env ?pk ?c1 = (c2, Ok ())" "write_frame ?c1 c2"
      "sent_datagrams (c_log c2) = sent_datagrams (c_log conn) @ [build_datagram (st_seq (c_state conn)) ?pk]"
      "st_seq (c_state c2) = snd (u24_inc (st_seq (c_state conn)))"
      "st_message_index (c_state c2) = snd (u24_inc ?mi)"
      "st_order_index (c_state c2) = st_order_index (c_state conn)"
      "st_split_id (c_state c2) = st_split_id (c_state conn)"
    using send_datagram_sent [OF assms, where conn = ?c1 and pk = ?pk] by auto
  have frame: "write_frame conn c2" using c2(2) by (simp add: write_frame_def receiving_side_def)
  from Cons.IH [of c2 "Suc i" "n + length c"] c2
  obtain c3 where "write_fragments env order sid k (Suc i) cs (n + length c) c2
        = (c3, Ok (n + length c + length (concat cs)))"
      "write_frame c2 c3"
      "sent_datagrams (c_log c3) = sent_datagrams (c_log c2)
         @ fragment_stream order sid k (Suc i) (snd (u24_inc (st_seq (c_state conn)))) (snd (u24_inc ?mi)) cs"
      "st_seq (c_state c3) = u24_plus (st_seq (c_state conn)) (Suc (length cs))"
      "st_message_index (c_state c3) = u24_plus ?mi (Suc (length cs))"
      "st_order_index (c_state c3) = st_order_index (c_state conn)"
      "st_split_id (c_state c3) = st_split_id (c_state conn)"
    by (auto simp: u24_plus_inc)
  with c2 frame show ?case
    by (intro exI [of _ c3]) (simp add: u24_inc_def write_frame_def Let_def add.assoc)
qed

text \<open>One message written on an open connection whose channel accepts everything.\<close>

lemma conn_write_sent:
  assumes ok: "\<And>es. send_ok env es" and m: "sendable m" and open': "\<not> c_closed conn"
    and mtu: "effective_mtu conn = mtu" "24 < unat mtu"
    and counters: "u24_ok (st_seq (c_state conn))" "u24_ok (st_message_index (c_state conn))"
  shows "\<exists>conn'. conn_write env m conn = (conn', Ok (length m)) \<and> write_frame conn conn'
    \<and> (let fs = msg_fragments (unat mtu) m; st = c_state conn; st' = c_state conn' in
         sent_datagrams (c_log conn') = sent_datagrams (c_log conn)
           @ fragment_stream (st_order_index st) (ucast (st_split_id st)) (length fs) 0
               (st_seq st) (st_message_index st) fs
         \<and> st_seq st' = u24_plus (st_seq st) (length fs)
         \<and> st_message_index st' = u24_plus (st_message_index st) (length fs)
         \<and> st_order_index st' = snd (u24_inc (st_order_index st))
         \<and> st_split_id st' = (if msg_split (unat mtu) m then st_split_id st + 1 else st_split_id st))"
proof -
  let ?fs = "msg_fragments (unat mtu) m" and ?st = "c_state conn"
  have len: "m \<noteq> []" "length m < 2 ^ 64" using m by (simp_all add: sendable_def)
  have split: "split (env_profile env) m mtu = Ok ?fs"
    unfolding msg_fragments_def by (rule split_eq_fragments_of [OF mtu(2) len])
  note facts = msg_fragments_facts [OF mtu(2) m]
  let ?st1 = "?st\<lparr>st_order_index := snd (u24_inc (st_order_index ?st))\<rparr>"
  let ?st2 = "if length ?fs > 1 then ?st1\<lparr>st_split_id := st_split_id ?st1 + 1\<rparr> else ?st1"
  let ?c1 = "conn\<lparr>c_state := ?st2\<rparr>"
  have wr: "conn_write env m conn = write_fragments env (st_order_index ?st) (ucast (st_split_id ?st))
      (length ?fs) 0 ?fs 0 ?c1"
    using open' by (simp add: conn_write_def write_locked_def mtu(1) split u24_inc_def Let_def)
  have st2: "st_seq ?st2 = st_seq ?st" "st_message_index ?st2 = st_message_index ?st"
      "st_order_index ?st2 = snd (u24_inc (st_order_index ?st))"
      "st_split_id ?st2 = (if msg_split (unat mtu) m then st_split_id ?st + 1 else st_split_id ?st)"
    using facts(3) by simp_all
  have "write_frame conn ?c1" by (simp add: write_frame_def receiving_side_def)
  then have frame: "write_frame ?c1 c' \<Longrightarrow> write_frame conn c'" for c'
    by (simp add: write_frame_def)
  have "u24_ok (st_seq (c_state ?c1))" "u24_ok (st_message_index (c_state ?c1))"
    using counters st2 by simp_all
  from write_fragments_sent [OF ok this, of "st_order_index ?st" "ucast (st_split_id ?st)" "length ?fs" 0 ?fs 0]
  show ?thesis
    unfolding wr Let_def using frame st2 facts(1) by (elim exE conjE) (intro exI conjI; simp)
qed

text \<open>A run of writes, and the datagrams it sends from given counters on.\<close>

fun write_all :: "env \<Rightarrow> bytes list \<Rightarrow> Conn \<Rightarrow> Conn" where
  "write_all env [] conn = conn"
| "write_all env (m # ms) conn = write_all env ms (fst (conn_write env m conn))"

fun run_stream :: "nat \<Rightarrow> bytes list \<Rightarrow> nat \<Rightarrow> Uint24 \<Rightarrow> Uint24 \<Rightarrow> bytes list \<Rightarrow> bytes list" where
  "run_stream mtu msgs o' seq message [] = []"
| "run_stream mtu msgs o' seq message (m # ms) =
     (let fs = msg_fragments mtu m in
      fragment_stream (msg_order o') (msg_split_id mtu msgs o') (length fs) 0 seq message fs
        @ run_stream mtu msgs (Suc o') (u24_plus seq (length fs)) (u24_plus message (length fs)) ms)"

definition sender_at :: "u16 \<Rightarrow> bytes list \<Rightarrow> nat \<Rightarrow> Conn \<Rightarrow> bool" where
  "sender_at mtu msgs k conn \<longleftrightarrow>
     \<not> c_closed conn \<and> effective_mtu conn = mtu
     \<and> u24_ok (st_seq (c_state conn)) \<and> u24_ok (st_message_index (c_state conn))
     \<and> st_order_index (c_state conn) = msg_order k
     \<and> st_split_id (c_state conn) = of_nat (length (filter (msg_split (unat mtu)) (take k msgs)))"

lemma msg_order_Suc: "k < 65536 \<Longrightarrow> snd (u24_inc (msg_order k)) = msg_order (Suc k)"
proof -
  assume k: "k < 65536"
  have "u24_ok (msg_order k)" by (simp add: msg_order_def)
  moreover have "unat (u24 (msg_order (Suc k))) = Suc k"
    using k unfolding msg_order_def by (intro unat_u24_new_of_nat) simp
  ultimately show ?thesis using k msg_order_inner [of k] by (simp add: u24_eq_iff unat_u24_inc)
qed

lemma sender_at_split_id:
  assumes "sender_at mtu msgs k conn" and "length msgs \<le> 65536"
  shows "ucast (st_split_id (c_state conn)) = msg_split_id (unat mtu) msgs k"
proof -
  let ?n = "length (filter (msg_split (unat mtu)) (take k msgs))"
  have "?n \<le> length msgs" using length_filter_le [of _ "take k msgs"] by (rule le_trans) simp
  with assms(2) have "unat (of_nat ?n :: u32) = ?n" by (simp add: unsigned_of_nat take_bit_nat_eq_self)
  then have "ucast (of_nat ?n :: u32) = (of_nat ?n :: u16)"
    by (intro word_unat_eq_iff [THEN iffD2])
      (simp add: unsigned_ucast_eq unat_take_bit unsigned_of_nat take_bit_eq_mod)
  with assms(1) show ?thesis by (simp add: sender_at_def msg_split_id_def)
qed

lemma sender_at_write:
  assumes ok: "\<And>es. send_ok env es" and msgs: "sendables msgs" and mtu: "24 < unat mtu"
    and at: "sender_at mtu msgs k conn" and k: "k < length msgs"
  shows "\<exists>conn'. conn_write env (msgs ! k) conn = (conn', Ok (length (msgs ! k)))
    \<and> write_frame conn conn' \<and> sender_at mtu msgs (Suc k) conn'
    \<and> (let fs = msg_fragments (unat mtu) (msgs ! k) in
         sent_datagrams (c_log conn') = sent_datagrams (c_log conn)
           @ fragment_stream (msg_order k) (msg_split_id (unat mtu) msgs k) (length fs) 0
               (st_seq (c_state conn)) (st_message_index (c_state conn)) fs
         \<and> st_seq (c_state conn') = u24_plus (st_seq (c_state conn)) (length fs)
         \<and> st_message_index (c_state conn') = u24_plus (st_message_index (c_state conn)) (length fs))"
proof -
  have len: "length msgs \<le> 65536" using msgs by (simp add: sendables_def)
  have m: "sendable (msgs ! k)" by (rule sendables_nth [OF msgs k])
  have at': "\<not> c_closed conn" "effective_mtu conn = mtu" "u24_ok (st_seq (c_state conn))"
      "u24_ok (st_message_index (c_state conn))" "st_order_index (c_state conn) = msg_order k"
    using at by (simp_all add: sender_at_def)
  obtain c where c: "conn_write env (msgs ! k) conn = (c, Ok (length (msgs ! k)))" "write_frame conn c"
      "sent_datagrams (c_log c) = sent_datagrams (c_log conn)
         @ fragment_stream (st_order_index (c_state conn)) (ucast (st_split_id (c_state conn)))
             (length (msg_fragments (unat mtu) (msgs ! k))) 0 (st_seq (c_state conn))
             (st_message_index (c_state conn)) (msg_fragments (unat mtu) (msgs ! k))"
      "st_seq (c_state c) = u24_plus (st_seq (c_state conn)) (length (msg_fragments (unat mtu) (msgs ! k)))"
      "st_message_index (c_state c) = u24_plus (st_message_index (c_state conn)) (length (msg_fragments (unat mtu) (msgs ! k)))"
      "st_order_index (c_state c) = snd (u24_inc (st_order_index (c_state conn)))"
      "st_split_id (c_state c) = (if msg_split (unat mtu) (msgs ! k) then st_split_id (c_state conn) + 1
         else st_split_id (c_state conn))"
    using conn_write_sent [OF ok m at'(1,2) mtu at'(3,4)] unfolding Let_def by blast
  have "take (Suc k) msgs = take k msgs @ [msgs ! k]" using k by (rule take_Suc_conv_app_nth)
  then have "sender_at mtu msgs (Suc k) c"
    using at c k len msg_order_Suc [of k]
    by (simp add: sender_at_def write_frame_def effective_mtu_def)
  with c at'(5) sender_at_split_id [OF at len] show ?thesis unfolding Let_def by auto
qed

lemma write_all_sent:
  assumes ok: "\<And>es. send_ok env es" and msgs: "sendables msgs" and mtu: "24 < unat mtu"
  shows "sender_at mtu msgs k conn \<Longrightarrow> ms = drop k msgs \<Longrightarrow> k \<le> length msgs \<Longrightarrow>
    sent_datagrams (c_log (write_all env ms conn)) = sent_datagrams (c_log conn)
      @ run_stream (unat mtu) msgs k (st_seq (c_state conn)) (st_message_index (c_state conn)) ms
    \<and> receiving_side (write_all env ms conn) = receiving_side conn"
proof (induction ms arbitrary: k conn)
  case Nil
  then show ?case by simp
next
  case (Cons m ms)
  from Cons.prems have k: "k < length msgs" by (metis drop_eq_Nil2 linorder_not_less list.distinct(1))
  have m: "m = msgs ! k" "ms = drop (Suc k) msgs"
    using Cons.prems(2) k by (metis Cons_nth_drop_Suc list.inject)+
  obtain c where c: "conn_write env m conn = (c, Ok (length m))" "write_frame conn c"
      "sender_at mtu msgs (Suc k) c"
      "sent_datagrams (c_log c) = sent_datagrams (c_log conn)
         @ fragment_stream (msg_order k) (msg_split_id (unat mtu) msgs k)
             (length (msg_fragments (unat mtu) m)) 0 (st_seq (c_state conn))
             (st_message_index (c_state conn)) (msg_fragments (unat mtu) m)"
      "st_seq (c_state c) = u24_plus (st_seq (c_state conn)) (length (msg_fragments (unat mtu) m))"
      "st_message_index (c_state c) = u24_plus (st_message_index (c_state conn)) (length (msg_fragments (unat mtu) m))"
    using sender_at_write [OF ok msgs mtu Cons.prems(1) k] unfolding m Let_def by blast
  have "receiving_side c = receiving_side conn" using c(2) by (simp add: write_frame_def)
  with Cons.IH [OF c(3) m(2)] c k show ?case by (simp add: Let_def)
qed

lemma effective_mtu_new:
  "24 < unat (effective_mtu (conn_new addr mtu now)) \<and> unat (effective_mtu (conn_new addr mtu now)) < 8192"
proof -
  have "400 \<le> clamp_mtu mtu" "clamp_mtu mtu \<le> 1492"
    by (auto simp: clamp_mtu_def MIN_MTU_SIZE_def MAX_MTU_SIZE_def min_def max_def)
  moreover from this have "unat (clamp_mtu mtu - 28) = unat (clamp_mtu mtu) - 28"
    by (simp add: unat_sub word_le_nat_alt)
  ultimately show ?thesis by (simp add: effective_mtu_def conn_new_def word_le_nat_alt) arith
qed

lemma sender_at_new: "sender_at (effective_mtu (conn_new addr mtu now)) msgs 0 (conn_new addr mtu now)"
  by (simp add: sender_at_def conn_new_def conn_state_new_def msg_order_def)

text \<open>Every datagram of a stream belongs to the run.\<close>

lemma fragment_stream_run:
  assumes "o' < length msgs"
  shows "cs = drop i (msg_fragments mtu (msgs ! o')) \<Longrightarrow> u24_ok seq \<Longrightarrow> u24_ok message \<Longrightarrow>
    list_all (run_datagram mtu msgs) (fragment_stream (msg_order o') (msg_split_id mtu msgs o')
      (length (msg_fragments mtu (msgs ! o'))) i seq message cs)"
proof (induction cs arbitrary: i seq message)
  case Nil
  then show ?case by simp
next
  case (Cons c cs)
  let ?fs = "msg_fragments mtu (msgs ! o')"
  from Cons.prems have i: "i < length ?fs" by (metis drop_eq_Nil2 linorder_not_less list.distinct(1))
  have c: "c = ?fs ! i" "cs = drop (Suc i) ?fs"
    using Cons.prems(1) i by (metis Cons_nth_drop_Suc list.inject)+
  have "build_datagram seq (fragment_packet (msg_order o') (msg_split_id mtu msgs o') (length ?fs) i message c)
      = build_datagram seq (msg_packet mtu msgs o' i message)"
    by (simp add: msg_packet_def c(1) Let_def)
  then have "run_datagram mtu msgs (build_datagram seq
      (fragment_packet (msg_order o') (msg_split_id mtu msgs o') (length ?fs) i message c))"
    using assms i Cons.prems unfolding run_datagram_def by blast
  with Cons.IH [OF c(2)] show ?case by simp
qed

lemma run_stream_run:
  "ms = drop k msgs \<Longrightarrow> k \<le> length msgs \<Longrightarrow> u24_ok seq \<Longrightarrow> u24_ok message \<Longrightarrow>
   list_all (run_datagram mtu msgs) (run_stream mtu msgs k seq message ms)"
proof (induction ms arbitrary: k seq message)
  case Nil
  then show ?case by simp
next
  case (Cons m ms)
  from Cons.prems have k: "k < length msgs" by (metis drop_eq_Nil2 linorder_not_less list.distinct(1))
  have m: "m = msgs ! k" "ms = drop (Suc k) msgs"
    using Cons.prems(1) k by (metis Cons_nth_drop_Suc list.inject)+
  show ?case
    using Cons.IH [OF m(2)] fragment_stream_run [OF k, of _ 0] k Cons.prems(3,4)
    by (simp add: m(1) Let_def)
qed

section \<open>Reception in order\<close>

lemma dw_at_receive:
  assumes "u24_inner v"
  shows "\<exists>w. dw_add now v (dw_at v) = (w, True) \<and> dw_shift w = (dw_at (u24_plus v 1), 1)"
proof -
  have succ: "unat (u24 v + 1) = unat (u24 v) + 1" "u24 (u24_new (u24 v + 1)) = u24 v + 1"
    using u24_inner_succ [OF assms] by simp_all
  then have lt: "u24 v < u24 v + 1" by (simp add: word_less_nat_alt)
  have "shift_loop (u24 v + 1) (u24 v) [u24 v \<mapsto> now] 0 = (u24 v + 1, Map.empty, 1)"
    using lt by (simp add: shift_loop.simps [of _ "u24 v"] shift_loop.simps [of _ "u24 v + 1"])
  moreover have "u24_new (u24 v + 1) = u24_plus v 1"
    by (simp add: u24_plus_def u24_new_def and_u24_mask)
  ultimately show ?thesis
    using lt succ by (simp add: dw_at_def dw_add_def dw_seen_def dw_shift_def Let_def)
qed

text \<open>The next expected datagram goes straight to its contents.\<close>

lemma receive_datagram_next_eq:
  assumes "st_win (c_state conn) = dw_at seq" and "u24_inner seq"
  shows "receive_datagram env h (write_uint24 [] seq @ rest) conn = handle_datagram env h rest
    (conn\<lparr>c_reads := Suc (c_reads conn), c_state := (c_state conn)\<lparr>
      st_win := dw_at (u24_plus seq 1), st_ack_slice := st_ack_slice (c_state conn) @ [seq]\<rparr>\<rparr>)"
proof -
  obtain w where w: "dw_add (clock env (c_reads conn)) seq (dw_at seq) = (w, True)"
      "dw_shift w = (dw_at (u24_plus seq 1), 1)"
    using dw_at_receive [OF assms(2)] by blast
  have "u24_ok seq" using assms(2) by (rule u24_inner_ok)
  moreover have "dw_size prof (dw_at v) = Ok 0" for prof v by (simp add: dw_size_def dw_at_def)
  ultimately show ?thesis
    using w assms(1) by (simp add: receive_datagram_def read_clock_def MAX_WINDOW_SIZE_def Let_def)
qed

lemma receive_datagram_next:
  assumes "st_win (c_state conn) = dw_at seq" and "u24_inner seq"
  shows "\<exists>conn'. receive_datagram env h (write_uint24 [] seq @ rest) conn = handle_datagram env h rest conn'
    \<and> receiving_side conn' = receiving_side conn \<and> st_win (c_state conn') = dw_at (u24_plus seq 1)
    \<and> st_ack_slice (c_state conn') = st_ack_slice (c_state conn) @ [seq]"
  unfolding receive_datagram_next_eq [OF assms]
  by (rule exI, intro conjI, rule refl) (simp_all add: receiving_side_def)

definition pq_at :: "Uint24 \<Rightarrow> PacketQueue" where
  "pq_at v = \<lparr>pq_lowest = v, pq_highest = v, pq_queue = Map.empty\<rparr>"

lemma pq_at_receive:
  assumes "u24_inner v"
  shows "\<exists>q. pq_put v c (pq_at v) = (q, True) \<and> pq_window_size prof q = Ok 1
    \<and> pq_fetch q = (pq_at (snd (u24_inc v)), [c])"
proof -
  have succ: "unat (u24 v + 1) = unat (u24 v) + 1" "u24 (u24_new (u24 v + 1)) = u24 v + 1"
    using u24_inner_succ [OF assms] by simp_all
  then have lt: "u24 v < u24 v + 1" by (simp add: word_less_nat_alt)
  have "fetch_loop (u24 v + 1) (u24 v) [u24 v \<mapsto> c] [] = (u24 v + 1, Map.empty, [c])"
    using lt by (simp add: fetch_loop.simps [of _ "u24 v"] fetch_loop.simps [of _ "u24 v + 1"])
  moreover have "sub_ovf prof (u24 v + 1) (u24 v) = Ok 1"
    using lt by (simp add: sub_ovf_le less_imp_le)
  moreover have "u24_new (u24 v + 1) = snd (u24_inc v)" by (simp add: u24_inc_def u24_new_def)
  ultimately show ?thesis
    using lt succ by (simp add: pq_at_def pq_put_def pq_window_size_def pq_fetch_def Let_def)
qed

text \<open>
  The receiver between two datagrams: the first \<open>k\<close> messages delivered, \<open>j\<close> fragments of the
  next one collected, and \<open>seq\<close> the next sequence number.
\<close>

definition aligned :: "nat \<Rightarrow> bytes list \<Rightarrow> nat \<Rightarrow> nat \<Rightarrow> Conn \<Rightarrow> bool" where
  "aligned mtu msgs k j conn \<longleftrightarrow>
     receiving_side conn =
       ((if j = 0 then [] else
           let fs = msg_fragments mtu (msgs ! k)
           in [(msg_split_id mtu msgs k, take j fs @ replicate (length fs - j) [])]),
        pq_at (msg_order k), 0, take k msgs)"

context connection_handler
begin

lemma receive_packet_next:
  assumes side: "receiving_side conn = ([], pq_at (msg_order k), 0, take k msgs)"
    and msgs: "user_messages msgs" and k: "k < length msgs"
    and pk: "reliability pk = RELIABILITY_RELIABLE_ORDERED" "order_index pk = msg_order k"
      "content pk = msgs ! k"
  shows "\<exists>conn'. receive_packet env h pk conn = (conn', Ok ())
    \<and> receiving_side conn' = ([], pq_at (msg_order (Suc k)), 0, take (Suc k) msgs)
    \<and> st_win (c_state conn') = st_win (c_state conn)"
proof -
  have lt: "k < 65536" using msgs k by (simp add: user_messages_def)
  have inner: "u24_inner (msg_order k)" using msg_order_inner [OF lt] by simp
  obtain q where q: "pq_put (msg_order k) (msgs ! k) (pq_at (msg_order k)) = (q, True)"
      "pq_window_size (env_profile env) q = Ok 1"
      "pq_fetch q = (pq_at (msg_order (Suc k)), [msgs ! k])"
    using pq_at_receive [OF inner] msg_order_Suc [OF lt] by metis
  let ?c = "conn\<lparr>c_state := (c_state conn)\<lparr>st_packet_queue := pq_at (msg_order (Suc k))\<rparr>\<rparr>"
  have m: "msgs ! k \<noteq> []" "hd (msgs ! k) \<notin> reserved_ids"
    using user_messages_nth [OF msgs k] by (simp_all add: user_message_def)
  have "handle_packet env h (msgs ! k) ?c = (emit (Delivered (msgs ! k)) ?c, Ok ())"
    using handle_packet_unhandled [OF m] side by (simp add: receiving_side_def)
  with side pk q take_Suc_conv_app_nth [OF k] show ?thesis
    by (simp add: receive_packet_def receiving_side_def MAX_WINDOW_SIZE_def emit_def Let_def)
qed

lemma receive_split_next:
  assumes al: "aligned mtu msgs k j conn" and msgs: "user_messages msgs" and mtu: "24 < mtu"
    and k: "k < length msgs" and j: "j < length (msg_fragments mtu (msgs ! k))"
    and limit: "h_limits_enabled h \<Longrightarrow> length (msg_fragments mtu (msgs ! k)) \<le> 512"
    and pk: "reliability pk = RELIABILITY_RELIABLE_ORDERED" "order_index pk = msg_order k"
      "split_id pk = msg_split_id mtu msgs k" "content pk = msg_fragments mtu (msgs ! k) ! j"
      "split_count pk = of_nat (length (msg_fragments mtu (msgs ! k)))" "split_index pk = of_nat j"
  shows "\<exists>conn'. receive_split_packet env h pk conn = (conn', Ok ())
    \<and> (if Suc j < length (msg_fragments mtu (msgs ! k)) then aligned mtu msgs k (Suc j) conn'
       else aligned mtu msgs (Suc k) 0 conn')
    \<and> st_win (c_state conn') = st_win (c_state conn)"
proof -
  let ?fs = "msg_fragments mtu (msgs ! k)" and ?st = "c_state conn" and ?sid = "msg_split_id mtu msgs k"
  have m: "user_message (msgs ! k)" using user_messages_nth [OF msgs k] .
  note facts = msg_fragments_facts [OF mtu user_message_sendable [OF m]]
  have cnt: "unat (split_count pk) = length ?fs" and idx: "unat (split_index pk) = j"
    using pk(5,6) j facts(5) by (simp_all add: unsigned_of_nat take_bit_nat_eq_self)
  define slots where "slots = take j ?fs @ replicate (length ?fs - j) []"
  define slots' where "slots' = take (Suc j) ?fs @ replicate (length ?fs - Suc j) []"
  have side: "st_splits ?st = (if j = 0 then [] else [(?sid, slots)])"
      "st_packet_queue ?st = pq_at (msg_order k)" "c_closing conn = 0"
      "user_packets (c_log conn) = take k msgs"
    using al by (auto simp: aligned_def receiving_side_def slots_def Let_def)
  have found: "(case map_of (st_splits ?st) (split_id pk) of Some slots \<Rightarrow> slots
      | None \<Rightarrow> replicate (unat (split_count pk)) []) = slots"
    using side(1) pk(3) cnt by (simp add: slots_def)
  have "replicate (length ?fs - j) [] = [] # replicate (length ?fs - Suc j) ([] :: bytes)"
    using j by (simp add: Suc_diff_Suc flip: replicate_Suc)
  then have upd: "slots[j := content pk] = slots'"
    using j pk(4) by (simp add: slots_def slots'_def list_update_append take_Suc_conv_app_nth)
  have one: "AList.update ?sid slots' (st_splits ?st) = [(?sid, slots')]"
    using side(1) by simp
  have no: "(split_count pk > MAX_SPLIT_COUNT \<and> h_limits_enabled h) = False"
      "(length (st_splits ?st) > MAX_CONCURRENT_SPLITS \<and> h_limits_enabled h) = False"
      "(unat (split_index pk) \<ge> length slots) = False"
    using limit cnt side(1) j idx
    by (auto simp: MAX_SPLIT_COUNT_def MAX_CONCURRENT_SPLITS_def word_less_nat_alt slots_def)
  let ?c2 = "conn\<lparr>c_state := ?st\<lparr>st_splits := [(?sid, slots')]\<rparr>\<rparr>"
  let ?c3 = "conn\<lparr>c_state := ?st\<lparr>st_splits := []\<rparr>\<rparr>"
  let ?pk = "packet_new\<lparr>content := concat slots', order_index := order_index pk, reliability := reliability pk\<rparr>"
  have unfold: "receive_split_packet env h pk conn =
      (if list_ex (\<lambda>f. f = []) slots' then (?c2, Ok ()) else receive_packet env h ?pk ?c3)"
    unfolding receive_split_packet_def Let_def found no if_False
    unfolding idx upd by (simp add: pk(3) one)
  show ?thesis
  proof (cases "Suc j < length ?fs")
    case True
    then have "list_ex (\<lambda>f. f = []) slots'" by (auto simp: slots'_def list_ex_iff)
    with unfold True side show ?thesis
      by (simp add: aligned_def receiving_side_def slots'_def Let_def)
  next
    case False
    with j have "slots' = ?fs" by (simp add: slots'_def)
    moreover from this have "\<not> list_ex (\<lambda>f. f = []) slots'" using facts(2) by (auto simp: list_ex_iff)
    moreover have "receiving_side ?c3 = ([], pq_at (msg_order k), 0, take k msgs)"
      using side by (simp add: receiving_side_def)
    ultimately show ?thesis
      using receive_packet_next [of ?c3 k msgs ?pk env] msgs k pk facts(1) unfold False
      by (auto simp: aligned_def)
  qed
qed

lemma dispatch_packet_next:
  assumes al: "aligned mtu msgs k j conn" and msgs: "user_messages msgs" and mtu: "24 < mtu"
    and k: "k < length msgs" and j: "j < length (msg_fragments mtu (msgs ! k))"
    and limit: "h_limits_enabled h \<Longrightarrow> length (msg_fragments mtu (msgs ! k)) \<le> 512"
  shows "\<exists>conn'. dispatch_packet env h (packet_decoded p (msg_packet mtu msgs k j message)) conn = (conn', Ok ())
    \<and> (if Suc j < length (msg_fragments mtu (msgs ! k)) then aligned mtu msgs k (Suc j) conn'
       else aligned mtu msgs (Suc k) 0 conn')
    \<and> st_win (c_state conn') = st_win (c_state conn)"
proof -
  let ?fs = "msg_fragments mtu (msgs ! k)"
  let ?pk = "packet_decoded p (msg_packet mtu msgs k j message)"
  have m: "user_message (msgs ! k)" using user_messages_nth [OF msgs k] .
  note facts = msg_fragments_facts [OF mtu user_message_sendable [OF m]]
  have ordered: "reliability ?pk = RELIABILITY_RELIABLE_ORDERED" "order_index ?pk = msg_order k"
      "content ?pk = ?fs ! j" "split_flag ?pk \<longleftrightarrow> 1 < length ?fs"
    by (simp_all add: packet_decoded_def msg_packet_def fragment_packet_def packet_new_def
        is_sequenced_or_ordered_def Let_def)
  show ?thesis
  proof (cases "1 < length ?fs")
    case True
    then have "split_id ?pk = msg_split_id mtu msgs k" "split_count ?pk = of_nat (length ?fs)"
        "split_index ?pk = of_nat j"
      by (simp_all add: packet_decoded_def msg_packet_def fragment_packet_def Let_def)
    from receive_split_next [OF al msgs mtu k j limit ordered(1,2) this(1) ordered(3) this(2,3), of env]
    show ?thesis using ordered(4) True by (simp add: dispatch_packet_def)
  next
    case False
    then have one: "length ?fs = 1" using facts(4) by linarith
    then have "j = 0" "?fs ! j = msgs ! k" using facts(1) j by (cases ?fs; auto)+
    with al one receive_packet_next [of conn k msgs ?pk env] msgs k ordered show ?thesis
      by (auto simp: dispatch_packet_def aligned_def)
  qed
qed

end

text \<open>Every call succeeds along a sequence of datagrams.\<close>

fun all_received :: "env \<Rightarrow> ConnectionHandler \<Rightarrow> bytes list \<Rightarrow> Conn \<Rightarrow> bool" where
  "all_received env h [] conn \<longleftrightarrow> True"
| "all_received env h (d # ds) conn \<longleftrightarrow>
     snd (conn_receive env h d conn) = Ok () \<and> all_received env h ds (fst (conn_receive env h d conn))"

lemma receive_all_append [simp]:
  "receive_all env h (ds @ ds') conn = receive_all env h ds' (receive_all env h ds conn)"
  by (induction ds arbitrary: conn) auto

lemma all_received_append [simp]:
  "all_received env h (ds @ ds') conn \<longleftrightarrow>
     all_received env h ds conn \<and> all_received env h ds' (receive_all env h ds conn)"
  by (induction ds arbitrary: conn) auto

lemma unat_u24_plus: "unat (u24 v) + n < 2 ^ 24 \<Longrightarrow> unat (u24 (u24_plus v n)) = unat (u24 v) + n"
  by (simp add: u24_plus_def unat_take_bit unat_word_ariths unsigned_of_nat take_bit_eq_mod mod_simps)

lemma u24_plus_1: "u24_ok v \<Longrightarrow> u24_plus v 1 = snd (u24_inc v)"
  using u24_plus_inc [of v 0] by simp

lemma run_stream_length:
  "length (run_stream mtu msgs k seq message ms) = (\<Sum>m\<leftarrow>ms. length (msg_fragments mtu m))"
proof (induction ms arbitrary: k seq message)
  case (Cons m ms)
  have "length (fragment_stream order sid n i s mi cs) = length cs" for order sid n i s mi cs
    by (induction cs arbitrary: i s mi) auto
  with Cons show ?case by (simp add: Let_def)
qed simp

context connection_handler
begin

lemma receive_next:
  assumes al: "aligned mtu msgs k j conn" and win: "st_win (c_state conn) = dw_at seq"
    and msgs: "user_messages msgs" and mtu: "24 < mtu" "mtu < 8192"
    and k: "k < length msgs" and j: "j < length (msg_fragments mtu (msgs ! k))"
    and limit: "h_limits_enabled h \<Longrightarrow> length (msg_fragments mtu (msgs ! k)) \<le> 512"
    and seq: "unat (u24 seq) < 0xFFFFFF" and message: "u24_ok message"
  shows "\<exists>conn'. conn_receive env h (build_datagram seq (msg_packet mtu msgs k j message)) conn = (conn', Ok ())
    \<and> (if Suc j < length (msg_fragments mtu (msgs ! k)) then aligned mtu msgs k (Suc j) conn'
       else aligned mtu msgs (Suc k) 0 conn')
    \<and> st_win (c_state conn') = dw_at (snd (u24_inc seq))"
proof -
  let ?q = "msg_packet mtu msgs k j message"
  let ?c = "conn\<lparr>c_reads := Suc (c_reads conn), c_last_activity := clock env (c_reads conn)\<rparr>"
  have inner: "u24_inner seq" using seq by (simp add: u24_inner_def word_less_nat_alt)
  have wf: "packet_wf ?q" by (rule msg_packet_wf [OF mtu user_messages_sendables [OF msgs] k j message])
  have "st_win (c_state ?c) = dw_at seq" using win by simp
  from receive_datagram_next [OF this inner, of env h "packet_write ?q []"]
  obtain c1 where c1: "receive_datagram env h (write_uint24 [] seq @ packet_write ?q []) ?c
        = handle_datagram env h (packet_write ?q []) c1"
      "receiving_side c1 = receiving_side conn" "st_win (c_state c1) = dw_at (snd (u24_inc seq))"
    using u24_plus_1 [OF u24_inner_ok [OF inner]] by auto
  let ?c2 = "set_pk packet_new c1"
  have "aligned mtu msgs k j ?c2" using al c1(2) by (simp add: aligned_def)
  moreover have "st_win (c_state ?c2) = dw_at (snd (u24_inc seq))" using c1(3) by (simp add: set_pk_def)
  ultimately show ?thesis
    using dispatch_packet_next [of mtu msgs k j ?c2 env "st_pk (c_state c1)" message] msgs mtu(1) k j limit
    by (simp add: conn_receive_datagram c1(1) handle_datagram_one [OF wf])
qed

lemma receive_fragment_stream:
  assumes msgs: "user_messages msgs" and mtu: "24 < mtu" "mtu < 8192" and k: "k < length msgs"
    and limit: "h_limits_enabled h \<Longrightarrow> length (msg_fragments mtu (msgs ! k)) \<le> 512"
  shows "aligned mtu msgs k j conn \<Longrightarrow> st_win (c_state conn) = dw_at seq \<Longrightarrow>
    cs = drop j (msg_fragments mtu (msgs ! k)) \<Longrightarrow> cs \<noteq> [] \<Longrightarrow>
    unat (u24 seq) + length cs < 2 ^ 24 \<Longrightarrow> u24_ok message \<Longrightarrow>
    (let ds = fragment_stream (msg_order k) (msg_split_id mtu msgs k)
                (length (msg_fragments mtu (msgs ! k))) j seq message cs
     in all_received env h ds conn \<and> aligned mtu msgs (Suc k) 0 (receive_all env h ds conn)
        \<and> st_win (c_state (receive_all env h ds conn)) = dw_at (u24_plus seq (length cs)))"
proof (induction cs arbitrary: j seq message conn)
  case Nil
  then show ?case by simp
next
  case (Cons c cs)
  let ?fs = "msg_fragments mtu (msgs ! k)"
  from Cons.prems have j: "j < length ?fs" by (metis drop_eq_Nil2 linorder_not_less list.distinct(1))
  have c: "c = ?fs ! j" "cs = drop (Suc j) ?fs"
    using Cons.prems(3) j by (metis Cons_nth_drop_Suc list.inject)+
  have s: "unat (u24 seq) < 0xFFFFFF" "u24_ok seq"
    using Cons.prems(5) by (simp_all add: u24_ok_iff_unat)
  have d: "build_datagram seq (fragment_packet (msg_order k) (msg_split_id mtu msgs k) (length ?fs) j message c)
      = build_datagram seq (msg_packet mtu msgs k j message)"
    by (simp add: msg_packet_def c(1) Let_def)
  obtain c1 where c1: "conn_receive env h (build_datagram seq (msg_packet mtu msgs k j message)) conn = (c1, Ok ())"
      "if Suc j < length ?fs then aligned mtu msgs k (Suc j) c1 else aligned mtu msgs (Suc k) 0 c1"
      "st_win (c_state c1) = dw_at (snd (u24_inc seq))"
    using receive_next [OF Cons.prems(1,2) msgs mtu k j limit s(1) Cons.prems(6), of env] by blast
  show ?case
  proof (cases "cs = []")
    case True
    with c(2) have "\<not> Suc j < length ?fs" by simp
    with c1 d True s(2) show ?thesis by (simp add: u24_plus_1 [unfolded One_nat_def])
  next
    case False
    with c(2) have "Suc j < length ?fs" by auto
    with c1 have "aligned mtu msgs k (Suc j) c1" by simp
    moreover have "unat (u24 (snd (u24_inc seq))) + length cs < 2 ^ 24"
      using Cons.prems(5) s by (simp add: unat_u24_inc)
    ultimately show ?thesis
      using Cons.IH [OF _ c1(3) c(2) False, of "snd (u24_inc message)"] c1(1) d
      by (simp add: Let_def u24_plus_inc)
  qed
qed

lemma receive_run_stream:
  assumes msgs: "user_messages msgs" and mtu: "24 < mtu" "mtu < 8192"
    and limit: "h_limits_enabled h \<Longrightarrow> list_all (\<lambda>m. length (msg_fragments mtu m) \<le> 512) msgs"
  shows "aligned mtu msgs k 0 conn \<Longrightarrow> st_win (c_state conn) = dw_at seq \<Longrightarrow> ms = drop k msgs \<Longrightarrow>
    k \<le> length msgs \<Longrightarrow> unat (u24 seq) + length (run_stream mtu msgs k seq message ms) < 2 ^ 24 \<Longrightarrow>
    u24_ok message \<Longrightarrow>
    (let ds = run_stream mtu msgs k seq message ms
     in all_received env h ds conn \<and> aligned mtu msgs (length msgs) 0 (receive_all env h ds conn))"
proof (induction ms arbitrary: k seq message conn)
  case Nil
  then have "k = length msgs" by simp
  with Nil show ?case by simp
next
  case (Cons m ms)
  from Cons.prems have k: "k < length msgs" by (metis drop_eq_Nil2 linorder_not_less list.distinct(1))
  have m: "m = msgs ! k" "ms = drop (Suc k) msgs"
    using Cons.prems(3) k by (metis Cons_nth_drop_Suc list.inject)+
  let ?fs = "msg_fragments mtu m"
  have um: "user_message m" using user_messages_nth [OF msgs k] m by simp
  have ne: "?fs \<noteq> []" using msg_fragments_facts(4) [OF mtu(1) user_message_sendable [OF um]] by simp
  have lim: "h_limits_enabled h \<Longrightarrow> length (msg_fragments mtu (msgs ! k)) \<le> 512"
    using limit k by (simp add: list_all_length)
  have len: "unat (u24 seq) + length ?fs < 2 ^ 24"
    using Cons.prems(5) [unfolded run_stream_length] by simp
  note step = receive_fragment_stream [OF msgs mtu k lim Cons.prems(1,2) _ _ _ Cons.prems(6), of ?fs env,
      unfolded Let_def]
  have rest: "unat (u24 (u24_plus seq (length ?fs)))
      + length (run_stream mtu msgs (Suc k) (u24_plus seq (length ?fs)) (u24_plus message (length ?fs)) ms) < 2 ^ 24"
    using Cons.prems(5) [unfolded run_stream_length] unat_u24_plus [OF len]
    by (simp add: run_stream_length)
  show ?case
    using step ne len m(1) Cons.IH [OF _ _ m(2) _ rest] k by (simp add: Let_def)
qed

end

section \<open>Properties\<close>

lemma consistent_prefix:
  "user_messages msgs \<Longrightarrow> consistent mtu msgs conn \<Longrightarrow> \<exists>k. user_packets (c_log conn) = take k msgs"
  by (auto simp: consistent_def queue_consistent_def for_user_messages)

lemma run_datagram_length:
  assumes "sendables msgs" and "24 < mtu" and "run_datagram mtu msgs d"
  shows "length d \<le> mtu"
proof -
  obtain o' i message seq where o': "o' < length msgs" and i: "i < length (msg_fragments mtu (msgs ! o'))"
    and d: "d = build_datagram seq (msg_packet mtu msgs o' i message)"
    using assms(3) by (auto simp: run_datagram_def)
  let ?m = "msgs ! o'" and ?q = "msg_packet mtu msgs o' i message"
  have m: "sendable ?m" using sendables_nth [OF assms(1) o'] .
  have "?m \<noteq> []" using m by (simp add: sendable_def)
  have "0 < fragment_limit (length ?m) mtu" using assms(2) by (simp add: fragment_limit_def)
  from fragments_of_facts(3) [OF this \<open>?m \<noteq> []\<close>] i
  have "length (msg_fragments mtu ?m ! i) \<le> fragment_limit (length ?m) mtu"
    by (simp add: msg_fragments_def)
  moreover have q: "reliability ?q = RELIABILITY_RELIABLE_ORDERED" "content ?q = msg_fragments mtu ?m ! i"
      "split_flag ?q \<longleftrightarrow> msg_split mtu ?m"
    using msg_fragments_facts(3) [OF assms(2) m]
    by (simp_all add: msg_packet_def fragment_packet_def packet_new_def Let_def)
  ultimately show ?thesis
    using assms(2) length_parts_ordered [OF q(1)]
    by (auto simp: d build_datagram_bytes fragment_limit_def msg_split_def split: if_splits)
qed

text \<open>
  C16. What a connection sends for a run of messages: every write returns the length of its
  message, and the datagrams put into the send channel are, in order, the fragments of the
  messages under consecutive sequence numbers, each no longer than the effective MTU.
\<close>

theorem writes_send_the_run:
  assumes "\<And>es. send_ok env es" and "user_messages msgs"
  shows "let conn = conn_new addr m now; mtu = unat (effective_mtu conn);
             sent = sent_datagrams (c_log (write_all env msgs conn))
         in sent = run_stream mtu msgs 0 (Uint24 0) (Uint24 0) msgs
            \<and> list_all (\<lambda>d. run_datagram mtu msgs d \<and> length d \<le> mtu) sent
            \<and> (\<forall>k < length msgs. snd (conn_write env (msgs ! k) (write_all env (take k msgs) conn))
                 = Ok (length (msgs ! k)))"
proof -
  let ?conn = "conn_new addr m now"
  let ?mtu = "effective_mtu ?conn"
  have mtu: "24 < unat ?mtu" using effective_mtu_new by blast
  have zero: "st_seq (c_state ?conn) = Uint24 0" "st_message_index (c_state ?conn) = Uint24 0"
      "sent_datagrams (c_log ?conn) = []"
    by (simp_all add: conn_new_def conn_state_new_def u24_new_def)
  have sent: "sent_datagrams (c_log (write_all env msgs ?conn)) = run_stream (unat ?mtu) msgs 0 (Uint24 0) (Uint24 0) msgs"
    using write_all_sent [OF assms(1) user_messages_sendables [OF assms(2)] mtu sender_at_new] zero by simp
  have "list_all (run_datagram (unat ?mtu) msgs) (run_stream (unat ?mtu) msgs 0 (Uint24 0) (Uint24 0) msgs)"
    by (rule run_stream_run) (simp_all add: u24_ok_def)
  then have all: "list_all (\<lambda>d. run_datagram (unat ?mtu) msgs d \<and> length d \<le> unat ?mtu)
      (run_stream (unat ?mtu) msgs 0 (Uint24 0) (Uint24 0) msgs)"
    using run_datagram_length [OF user_messages_sendables [OF assms(2)] mtu] by (simp add: list_all_iff)
  have at: "sender_at ?mtu msgs k (write_all env (take k msgs) ?conn)" if "k \<le> length msgs" for k
    using that
  proof (induction k)
    case 0
    then show ?case by (simp add: sender_at_new)
  next
    case (Suc k)
    have snoc: "write_all env (ms @ [x]) c = fst (conn_write env x (write_all env ms c))" for ms x c
      by (induction ms arbitrary: c) auto
    from Suc have "sender_at ?mtu msgs k (write_all env (take k msgs) ?conn)" "k < length msgs" by simp_all
    from sender_at_write [OF assms(1) user_messages_sendables [OF assms(2)] mtu this] \<open>k < length msgs\<close> show ?case
      by (auto simp: take_Suc_conv_app_nth snoc)
  qed
  have "snd (conn_write env (msgs ! k) (write_all env (take k msgs) ?conn)) = Ok (length (msgs ! k))"
    if "k < length msgs" for k
    using sender_at_write [OF assms(1) user_messages_sendables [OF assms(2)] mtu at that] that by auto
  with sent all show ?thesis by (simp add: Let_def)
qed

theorem writes_send_the_run_witness:
  "list_all (\<lambda>d. length d \<le> 1372)
     (sent_datagrams (c_log (write_all (still_env Debug) [[0xfe, 1], [0xfe, 2]] (conn_new (V4 1 2) 1400 0))))
   \<and> snd (conn_write (still_env Debug) [0xfe, 1] (conn_new (V4 1 2) 1400 0)) = Ok 2"
proof -
  have m: "user_messages [[0xfe, 1], [0xfe, 2]]"
    by (simp add: user_messages_def user_message_def reserved_ids_def id_defs)
  have e: "unat (effective_mtu (conn_new (V4 1 2) 1400 0)) = 1372"
    by (simp add: effective_mtu_def conn_new_def clamp_mtu_def MIN_MTU_SIZE_def MAX_MTU_SIZE_def)
  from writes_send_the_run [OF _ m, where env = "still_env Debug" and addr = "V4 1 2" and m = 1400 and now = 0]
  have "list_all (\<lambda>d. length d \<le> 1372)
      (sent_datagrams (c_log (write_all (still_env Debug) [[0xfe, 1], [0xfe, 2]] (conn_new (V4 1 2) 1400 0))))"
    and "\<forall>k < 2. snd (conn_write (still_env Debug) ([[0xfe, 1], [0xfe, 2]] ! k)
      (write_all (still_env Debug) (take k [[0xfe, 1], [0xfe, 2]]) (conn_new (V4 1 2) 1400 0)))
      = Ok (length ([[0xfe, 1], [0xfe, 2 :: u8]] ! k))"
    by (simp_all add: e Let_def list_all_iff numeral_2_eq_2 del: write_all.simps run_stream.simps)
  from this(1) spec [OF this(2), of 0] show ?thesis by simp
qed

text \<open>
  C6. Whatever the network does, the user of the peer sees a prefix of the messages written:
  for every list of datagrams of the run, with losses, repetitions, any order and any sequence
  numbers (retransmissions have new ones), what either side delivers are the first messages, in
  order and each once.
\<close>

theorem delivered_is_prefix:
  assumes "user_messages msgs" and "24 < mtu" and "mtu < 8192" and "list_all (run_datagram mtu msgs) ds"
  shows "(\<exists>k. user_packets (c_log (receive_all env listener_handler ds (conn_new addr m now))) = take k msgs)
    \<and> (\<exists>k. user_packets (c_log (receive_all env dialer_handler ds (conn_new addr m now))) = take k msgs)"
proof -
  note ok = user_messages_sendables [OF assms(1)]
  show ?thesis
    using consistent_prefix [OF assms(1) listener.consistent_receive_all [OF ok listener.takes_user_messages [OF assms(1)]
        assms(2,3) consistent_new [OF ok] assms(4)]]
      consistent_prefix [OF assms(1) dialer.consistent_receive_all [OF ok dialer.takes_user_messages [OF assms(1)]
        assms(2,3) consistent_new [OF ok] assms(4)]]
    by blast
qed

theorem delivered_is_prefix_witness:
  "\<exists>k. user_packets (c_log (receive_all (still_env Release) listener_handler
     [build_datagram (Uint24 5) (msg_packet 1372 [[0xfe], [0xff]] 1 0 (Uint24 3)),
      build_datagram (Uint24 2) (msg_packet 1372 [[0xfe], [0xff]] 0 0 (Uint24 9))]
     (conn_new (V4 1 2) 1400 0))) = take k [[0xfe], [0xff]]"
proof -
  have m: "user_messages [[0xfe], [0xff]]"
    by (simp add: user_messages_def user_message_def reserved_ids_def id_defs)
  have f: "0 < length (msg_fragments 1372 [0xfe])" "0 < length (msg_fragments 1372 [0xff])"
    by (rule msg_fragments_facts(4); simp add: sendable_def)+
  have "run_datagram 1372 [[0xfe], [0xff]] (build_datagram (Uint24 5) (msg_packet 1372 [[0xfe], [0xff]] 1 0 (Uint24 3)))"
    unfolding run_datagram_def using f
    by (intro exI [of _ 1] exI [of _ 0] exI [of _ "Uint24 3"] exI [of _ "Uint24 5"]) (simp add: u24_ok_def)
  moreover have "run_datagram 1372 [[0xfe], [0xff]] (build_datagram (Uint24 2) (msg_packet 1372 [[0xfe], [0xff]] 0 0 (Uint24 9)))"
    unfolding run_datagram_def using f
    by (intro exI [of _ 0] exI [of _ "Uint24 9"] exI [of _ "Uint24 2"]) (simp add: u24_ok_def)
  ultimately show ?thesis
    using delivered_is_prefix [OF m, of 1372] by (simp del: receive_all.simps)
qed

text \<open>
  C15. On a network that keeps the datagrams in order and loses none, everything arrives: both
  kinds of peer accept every datagram without an error and deliver exactly the messages, in
  order; a listener's peer must not split a message into more than 512 fragments. The total
  number of datagrams stays below the range of the sequence numbers.
\<close>

theorem in_order_delivery:
  assumes "\<And>es. send_ok env es" and "user_messages msgs"
    and "(\<Sum>m\<leftarrow>msgs. length (msg_fragments (unat (effective_mtu (conn_new addr m' now))) m)) < 2 ^ 24"
  shows "let conn = conn_new addr m' now; peer = conn_new addr' m'' now';
             sent = sent_datagrams (c_log (write_all env msgs conn))
         in all_received env' dialer_handler sent peer
            \<and> user_packets (c_log (receive_all env' dialer_handler sent peer)) = msgs
            \<and> (list_all (\<lambda>m. length (msg_fragments (unat (effective_mtu conn)) m) \<le> 512) msgs \<longrightarrow>
                 all_received env' listener_handler sent peer
                 \<and> user_packets (c_log (receive_all env' listener_handler sent peer)) = msgs)"
proof -
  let ?conn = "conn_new addr m' now" and ?peer = "conn_new addr' m'' now'"
  let ?mtu = "unat (effective_mtu ?conn)"
  let ?ds = "run_stream ?mtu msgs 0 (Uint24 0) (Uint24 0) msgs"
  have mtu: "24 < ?mtu" "?mtu < 8192" using effective_mtu_new by blast+
  have sent: "sent_datagrams (c_log (write_all env msgs ?conn)) = ?ds"
    using write_all_sent [OF assms(1) user_messages_sendables [OF assms(2)] mtu(1) sender_at_new]
    by (simp add: conn_new_def conn_state_new_def u24_new_def)
  have peer: "aligned ?mtu msgs 0 0 ?peer" "st_win (c_state ?peer) = dw_at (Uint24 0)"
    by (simp_all add: aligned_def receiving_side_def conn_new_def conn_state_new_def pq_at_def pq_new_def
        msg_order_def dw_at_def dw_new_def u24_new_def)
  have len: "unat (u24 (Uint24 0)) + length ?ds < 2 ^ 24" using assms(3) by (simp add: run_stream_length)
  have user: "aligned ?mtu msgs (length msgs) 0 c \<Longrightarrow> user_packets (c_log c) = msgs" for c
    by (simp add: aligned_def receiving_side_def)
  have "h_limits_enabled dialer_handler \<Longrightarrow> list_all (\<lambda>m. length (msg_fragments ?mtu m) \<le> 512) msgs"
    by (simp add: dialer_handler_def)
  from dialer.receive_run_stream [OF assms(2) mtu this peer _ _ len, of env']
    listener.receive_run_stream [OF assms(2) mtu _ peer _ _ len, of env'] user
  show ?thesis by (simp add: sent Let_def u24_ok_def)
qed

theorem in_order_delivery_witness:
  "user_packets (c_log (receive_all (still_env Debug) dialer_handler
     (sent_datagrams (c_log (write_all (still_env Debug) [[0xfe, 1]] (conn_new (V4 1 2) 1400 0))))
     (conn_new (V4 3 4) 1400 0))) = [[0xfe, 1]]"
proof -
  let ?mtu = "unat (effective_mtu (conn_new (V4 1 2) 1400 0))"
  have m: "user_messages [[0xfe, 1]]"
    by (simp add: user_messages_def user_message_def reserved_ids_def id_defs)
  have "24 < ?mtu" using effective_mtu_new by blast
  then have "length (msg_fragments ?mtu [0xfe, 1]) < 2 \<or> length (msg_fragments ?mtu [0xfe, 1]) < 2 ^ 24"
    using msg_fragments_facts(3) [of ?mtu "[0xfe, 1]"] m
    by (auto simp: msg_split_def sendable_def user_messages_def effective_mtu_def conn_new_def clamp_mtu_def
        MIN_MTU_SIZE_def MAX_MTU_SIZE_def)
  then have "(\<Sum>m\<leftarrow>[[0xfe, 1]]. length (msg_fragments ?mtu m)) < 2 ^ 24" by auto
  from in_order_delivery [OF _ m this, where env = "still_env Debug" and env' = "still_env Debug"
      and addr' = "V4 3 4" and m'' = 1400 and now' = 0]
  show ?thesis by (simp add: Let_def)
qed

end
