(* ===== verification/Reassembly.thy ===== *)
theory Reassembly
  imports Delivery Conn_Life
begin

text \<open>
  The reassembly of split packets over the life of a connection: its bound, and the ways it can
  be brought to a halt. An entry of the reassembly map is removed only when all its fragments are
  there, and the limit of concurrent split packets refuses fragments of the packets it counts.
\<close>

section \<open>Opening and completing an entry\<close>

lemma alist_update_new: "k \<notin> fst ` set al \<Longrightarrow> AList.update k v al = al @ [(k, v)]"
  by (induction al) auto

lemma alist_update_last: "k \<notin> fst ` set al \<Longrightarrow> AList.update k v (al @ [(k, w)]) = al @ [(k, v)]"
  by (induction al) auto

lemma alist_update_twice: "AList.update k v (AList.update k w al) = AList.update k v al"
  by (induction al) auto

lemma map_of_None_fst: "map_of al k = None \<Longrightarrow> k \<notin> fst ` set al"
  by (simp add: map_of_eq_None_iff)

text \<open>A fragment of a packet with several, within the limits.\<close>

definition proper_fragment :: "Packet \<Rightarrow> bool" where
  "proper_fragment pk \<longleftrightarrow>
     split_flag pk \<and> 1 < split_count pk \<and> split_count pk \<le> 512 \<and> split_index pk < split_count pk
     \<and> content pk \<noteq> []"

lemma proper_fragment_unat:
  "proper_fragment pk \<Longrightarrow> 1 < unat (split_count pk) \<and> unat (split_index pk) < unat (split_count pk)"
  unfolding proper_fragment_def word_less_nat_alt unsigned_1 by blast

lemma one_slot_incomplete:
  assumes "1 < n" and "i < n"
  shows "list_ex (\<lambda>f. f = []) ((replicate n [])[i := c])"
proof -
  have "(replicate n [])[i := c] ! (if i = 0 then 1 else 0) = []"
    using assms by (cases "i = 0") simp_all
  moreover have "(if i = 0 then 1 else 0) < length ((replicate n [])[i := c])"
    using assms by simp
  ultimately have "[] \<in> set ((replicate n [])[i := c])" by (metis nth_mem)
  then show ?thesis unfolding list_ex_iff by blast
qed

context connection_handler
begin

lemma first_fragment_opens:
  assumes "proper_fragment pk" and "map_of (st_splits (c_state conn)) (split_id pk) = None"
    and "length (st_splits (c_state conn)) \<le> 16"
  shows "dispatch_packet env h pk conn =
    (conn\<lparr>c_state := (c_state conn)\<lparr>st_splits := st_splits (c_state conn) @
       [(split_id pk, (replicate (unat (split_count pk)) [])[unat (split_index pk) := content pk])]\<rparr>\<rparr>, Ok ())"
proof -
  have lim: "\<not> split_count pk > MAX_SPLIT_COUNT"
      "\<not> length (st_splits (c_state conn)) > MAX_CONCURRENT_SPLITS" "split_flag pk"
    using assms by (simp_all add: proper_fragment_def MAX_SPLIT_COUNT_def MAX_CONCURRENT_SPLITS_def not_less)
  show ?thesis
    using lim assms(2) proper_fragment_unat [OF assms(1)] map_of_None_fst [OF assms(2)]
      one_slot_incomplete [of "unat (split_count pk)" "unat (split_index pk)" "content pk"]
    by (simp add: dispatch_packet_def receive_split_packet_def Let_def alist_update_new alist_update_last)
qed

lemma last_fragment_completes:
  assumes "proper_fragment pk" and "map_of (st_splits (c_state conn)) (split_id pk) = Some fs"
    and "length fs = unat (split_count pk)" and "list_all (\<lambda>f. f \<noteq> []) (fs[unat (split_index pk) := content pk])"
    and "length (st_splits (c_state conn)) \<le> 16"
  shows "st_splits (c_state (fst (dispatch_packet env h pk conn))) =
    AList.delete (split_id pk) (st_splits (c_state conn))"
proof -
  have lim: "\<not> split_count pk > MAX_SPLIT_COUNT"
      "\<not> length (st_splits (c_state conn)) > MAX_CONCURRENT_SPLITS" "split_flag pk"
    using assms by (simp_all add: proper_fragment_def MAX_SPLIT_COUNT_def MAX_CONCURRENT_SPLITS_def not_less)
  have full: "\<not> list_ex (\<lambda>f. f = []) (fs[unat (split_index pk) := content pk])"
    using assms(4) by (simp add: list_all_iff list_ex_iff)
  have del: "AList.delete k (AList.update k v al) = AList.delete k al" for k v and al :: "(u16 \<times> bytes list) list"
    by (induction al) auto
  show ?thesis
    using lim assms(2,3) full proper_fragment_unat [OF assms(1)]
    by (simp add: dispatch_packet_def receive_split_packet_def Let_def alist_update_twice
        receive_packet_splits del)
qed

end

section \<open>Stray fragments\<close>

lemma two_slots: "(replicate 2 [])[0 := c] = [c, []]"
  by (simp add: eval_nat_numeral)

text \<open>The first of two fragments of a packet; the second never comes.\<close>

definition stray :: "nat \<Rightarrow> Packet" where
  "stray i = fragment_packet (Uint24 0) (of_nat i) 2 0 (Uint24 0) [0xfe]"

definition stray_datagram :: "nat \<Rightarrow> bytes" where
  "stray_datagram i = build_datagram (u24_new (of_nat i)) (stray i)"

lemma stray_wf: "packet_wf (stray i)"
  by (simp add: stray_def packet_wf_def fragment_packet_def packet_new_def Let_def reliability_defs u24_ok_def)

context connection_handler
begin

lemma receive_strays:
  assumes "n \<le> 17"
  shows "st_splits (c_state (receive_all env h (map stray_datagram [0..<n]) (conn_new addr mtu now)))
      = map (\<lambda>i. (of_nat i, [[0xfe], []])) [0..<n]
    \<and> st_win (c_state (receive_all env h (map stray_datagram [0..<n]) (conn_new addr mtu now)))
      = dw_at (u24_new (of_nat n))"
  using assms
proof (induction n)
  case 0
  then show ?case by (simp add: conn_new_def conn_state_new_def dw_new_def dw_at_def u24_new_def)
next
  case (Suc n)
  let ?c = "receive_all env h (map stray_datagram [0..<n]) (conn_new addr mtu now)"
  let ?seq = "u24_new (of_nat n)"
  have IH: "st_splits (c_state ?c) = map (\<lambda>i. (of_nat i, [[0xfe], []])) [0..<n]"
      "st_win (c_state ?c) = dw_at ?seq"
    using Suc by simp_all
  have n: "unat (u24 ?seq) = n" using Suc.prems by (simp add: unat_u24_new_of_nat)
  then have inner: "u24_inner ?seq" using Suc.prems by (simp add: u24_inner_def word_less_nat_alt)
  have next_seq: "u24_plus ?seq 1 = u24_new (of_nat (Suc n))"
    using n Suc.prems by (simp add: u24_eq_iff unat_u24_plus unat_u24_new_of_nat del: of_nat_Suc)
  let ?touched = "?c\<lparr>c_reads := Suc (c_reads ?c), c_last_activity := clock env (c_reads ?c)\<rparr>"
  obtain c1 where c1: "receive_datagram env h (write_uint24 [] ?seq @ packet_write (stray n) []) ?touched
        = handle_datagram env h (packet_write (stray n) []) c1"
      "receiving_side c1 = receiving_side ?touched" "st_win (c_state c1) = dw_at (u24_plus ?seq 1)"
    using receive_datagram_next [of ?touched ?seq env h "packet_write (stray n) []"] IH(2) inner by auto
  let ?pk = "packet_decoded (st_pk (c_state c1)) (stray n)"
  have pk: "proper_fragment ?pk" "split_id ?pk = of_nat n" "split_count ?pk = 2" "split_index ?pk = 0"
      "content ?pk = [0xfe]"
    by (simp_all add: stray_def fragment_packet_def packet_new_def packet_decoded_def proper_fragment_def
        reliability_defs Let_def)
  have s1: "st_splits (c_state (set_pk packet_new c1)) = map (\<lambda>i. (of_nat i, [[0xfe], []])) [0..<n]"
    using c1(2) IH(1) by (simp add: receiving_side_def set_pk_def)
  have "(of_nat n :: u16) \<noteq> of_nat i" if "i < n" for i
    using that Suc.prems by (simp add: word_unat_eq_iff unsigned_of_nat take_bit_nat_eq_self)
  then have "(of_nat n :: u16) \<notin> of_nat ` {0..<n}" by (metis atLeastLessThan_iff imageE)
  then have fresh: "map_of (st_splits (c_state (set_pk packet_new c1))) (split_id ?pk) = None"
    by (simp add: s1 pk map_of_eq_None_iff image_image)
  have "conn_receive env h (stray_datagram n) ?c =
      receive_datagram env h (write_uint24 [] ?seq @ packet_write (stray n) []) ?touched"
    using conn_receive_datagram [of env h ?seq "stray n" ?c] by (simp only: stray_datagram_def)
  also have "\<dots> = dispatch_packet env h ?pk (set_pk packet_new c1)"
    unfolding c1(1) by (rule handle_datagram_one [OF stray_wf])
  also have "\<dots> = ((set_pk packet_new c1)\<lparr>c_state := (c_state (set_pk packet_new c1))\<lparr>st_splits :=
      map (\<lambda>i. (of_nat i, [[0xfe], []])) [0..<Suc n]\<rparr>\<rparr>, Ok ())"
    using first_fragment_opens [OF pk(1) fresh] Suc.prems s1 by (simp add: pk two_slots)
  finally have "fst (conn_receive env h (stray_datagram n) ?c) = (set_pk packet_new c1)\<lparr>c_state :=
      (c_state (set_pk packet_new c1))\<lparr>st_splits := map (\<lambda>i. (of_nat i, [[0xfe], []])) [0..<Suc n]\<rparr>\<rparr>"
    by simp
  then show ?case
    using c1(3) next_seq by (simp add: set_pk_def receive_all_append)
qed

end

section \<open>Properties\<close>

lemma listener_handler_limits: "h_limits_enabled listener_handler"
  by (simp add: listener_handler_def)

text \<open>
  C35. A listener's connection holds a bounded reassembly state in every reachable state: at most
  seventeen split packets, under different identifiers, each with at most 512 slots. (The limit
  the code names is sixteen; the test is made before an entry is added.)
\<close>

theorem listener_reassembly_bounded:
  assumes "conn_steps env listener_handler (conn_new addr mtu now) conn"
  shows "distinct (map fst (st_splits (c_state conn))) \<and> length (st_splits (c_state conn)) \<le> 17
    \<and> list_all (\<lambda>(sid, fragments). length fragments \<le> 512) (st_splits (c_state conn))"
proof -
  have "splits_bounded (conn_new addr mtu now)"
    by (simp add: splits_bounded_def reassembly_bounded_def conn_new_def conn_state_new_def)
  from listener_life.conn_steps_splits_bounded [OF assms _ this] show ?thesis
    by (simp add: splits_bounded_def reassembly_bounded_def listener_handler_def)
qed

theorem listener_reassembly_bounded_witness:
  "length (st_splits (c_state (fst (conn_receive (still_env Debug) listener_handler (stray_datagram 3)
     (conn_new (V4 1 2) 1400 0))))) \<le> 17"
  using listener_reassembly_bounded [where addr = "V4 1 2" and mtu = 1400 and now = 0,
      OF r_into_rtranclp, OF conn_step.Received] by blast

text \<open>
  C40. Seventeen datagrams bring the reassembly of a listener's connection to a halt for good.
  After the first fragments of seventeen packets, whatever happens next, including the arrival
  of the missing fragments, the seventeen entries stay and every fragment is refused with an
  error: an entry of a complete packet is the only one removed, and the limit is tested before
  the fragment is looked up.
\<close>

theorem strays_halt_reassembly:
  assumes "conn_steps env listener_handler
      (receive_all env listener_handler (map stray_datagram [0..<17]) (conn_new addr mtu now)) conn"
  shows "st_splits (c_state conn) = map (\<lambda>i. (of_nat i, [[0xfe], []])) [0..<17]
    \<and> (split_flag pk \<longrightarrow> (\<exists>msg. dispatch_packet env' listener_handler pk conn = (conn, Err (SplitPacket msg))))"
proof -
  let ?c = "receive_all env listener_handler (map stray_datagram [0..<17]) (conn_new addr mtu now)"
  have c: "st_splits (c_state ?c) = map (\<lambda>i. (of_nat i, [[0xfe], []])) [0..<17]"
    by (rule listener.receive_strays [THEN conjunct1]) simp
  then have "16 < length (st_splits (c_state ?c))" by (simp del: upt_rec_numeral)
  with listener_life.conn_steps_blocked [OF assms _ this]
  have conn: "st_splits (c_state conn) = map (\<lambda>i. (of_nat i, [[0xfe], []])) [0..<17]"
    using c listener_handler_limits by (simp del: upt_rec_numeral)
  then have "MAX_CONCURRENT_SPLITS < length (st_splits (c_state conn))"
    by (simp add: MAX_CONCURRENT_SPLITS_def del: upt_rec_numeral)
  then show ?thesis
    using conn listener_handler_limits by (simp add: dispatch_packet_def receive_split_packet_def Let_def del: upt_rec_numeral)
qed

theorem strays_halt_reassembly_witness:
  "\<exists>msg. dispatch_packet (still_env Debug) listener_handler ((stray 0)\<lparr>split_index := 1\<rparr>)
     (receive_all (still_env Debug) listener_handler (map stray_datagram [0..<17]) (conn_new (V4 1 2) 1400 0))
   = (receive_all (still_env Debug) listener_handler (map stray_datagram [0..<17]) (conn_new (V4 1 2) 1400 0),
      Err (SplitPacket msg))"
proof -
  have "split_flag ((stray 0)\<lparr>split_index := 1\<rparr>)"
    by (simp add: stray_def fragment_packet_def packet_new_def Let_def)
  with strays_halt_reassembly [OF rtranclp.rtrancl_refl, of "still_env Debug" "V4 1 2" 1400 0
      "(stray 0)\<lparr>split_index := 1\<rparr>" "still_env Debug"]
  show ?thesis by blast
qed

text \<open>
  A fragment that arrives once more after its packet was completed (its acknowledgement was
  lost and it was sent again under a new sequence number) opens an entry that only one of its
  fragments fills: the reassembly of a completed packet is not remembered.
\<close>

theorem late_fragment_opens_entry:
  assumes "proper_fragment pk" and "map_of (st_splits (c_state conn)) (split_id pk) = Some fs"
    and "length fs = unat (split_count pk)" and "list_all (\<lambda>f. f \<noteq> []) (fs[unat (split_index pk) := content pk])"
    and "length (st_splits (c_state conn)) \<le> 16"
  shows "let completed = fst (dispatch_packet env listener_handler pk conn);
             (again, result) = dispatch_packet env' listener_handler pk completed
         in map_of (st_splits (c_state completed)) (split_id pk) = None \<and> result = Ok ()
            \<and> map_of (st_splits (c_state again)) (split_id pk) =
                Some ((replicate (unat (split_count pk)) [])[unat (split_index pk) := content pk])
            \<and> user_packets (c_log again) = user_packets (c_log completed)"
proof -
  let ?completed = "fst (dispatch_packet env listener_handler pk conn)"
  have splits: "st_splits (c_state ?completed) = AList.delete (split_id pk) (st_splits (c_state conn))"
    by (rule listener.last_fragment_completes [OF assms])
  then have none: "map_of (st_splits (c_state ?completed)) (split_id pk) = None"
    by (simp add: delete_conv')
  moreover have "length (st_splits (c_state ?completed)) \<le> 16"
    using splits assms(5) length_delete_le [of "split_id pk" "st_splits (c_state conn)"] by simp
  ultimately show ?thesis
    using listener.first_fragment_opens [OF assms(1) none] by (simp add: Let_def map_add_def)
qed

theorem late_fragment_opens_entry_witness:
  "map_of (st_splits (c_state (fst (dispatch_packet (still_env Debug) listener_handler (stray 7)
      (fst (dispatch_packet (still_env Debug) listener_handler (stray 7)
        ((conn_new (V4 1 2) 1400 0)\<lparr>c_state := conn_state_new\<lparr>st_splits := [(7, [[], [0xff]])]\<rparr>\<rparr>))))))) 7
   = Some [[0xfe], []]"
proof -
  let ?conn = "(conn_new (V4 1 2) 1400 0)\<lparr>c_state := conn_state_new\<lparr>st_splits := [(7, [[], [0xff]])]\<rparr>\<rparr>"
  have pk: "proper_fragment (stray 7)" "split_id (stray 7) = 7" "split_count (stray 7) = 2"
      "split_index (stray 7) = 0" "content (stray 7) = [0xfe]"
    by (simp_all add: stray_def fragment_packet_def packet_new_def proper_fragment_def Let_def)
  from late_fragment_opens_entry [OF pk(1), of ?conn "[[], [0xff]]" "still_env Debug" "still_env Debug"]
  show ?thesis by (simp add: pk Let_def two_slots split: prod.splits)
qed

text \<open>
  A fragment of no fragments is out of range, and the error message subtracts one from the number
  of slots: with overflow checks the task panics.
\<close>

theorem empty_split_panics:
  assumes "env_profile env = Debug" and "split_count pk = 0" and "length (st_splits (c_state conn)) \<le> 16"
    and "map_of (st_splits (c_state conn)) (split_id pk) = None"
  shows "snd (receive_split_packet env h pk conn) = Panic"
  using assms by (simp add: receive_split_packet_def MAX_CONCURRENT_SPLITS_def sub_ovf_def Let_def)

theorem empty_split_panics_witness:
  "snd (conn_receive (still_env Debug) listener_handler
     [0x84, 0, 0, 0, 0x70, 0, 8, 0, 0, 0, 0, 0, 0, 0, 0, 0, 0, 0, 0, 0, 0, 0, 0, 0, 0xfe] (conn_new (V4 1 2) 1400 0)) = Panic"
  by code_simp

end
