(* ===== verification/Listener_Life.thy ===== *)
theory Listener_Life
  imports Listener Reassembly
begin

text \<open>
  The listener as a system: a step relation over everything that can happen to it and its
  connections, and the invariant of its reachable states. The invariant says how the table, the
  store and the waiting tasks agree, and that every connection in the store is a connection that
  the steps of \<open>Conn_Life\<close> reach, so that what holds of those holds of each of them.
\<close>

section \<open>Steps\<close>

inductive listener_step :: "listen_env \<Rightarrow> Listener \<Rightarrow> Listener \<Rightarrow> bool" for env where
  Check: "l_pc l = Checking \<Longrightarrow> listener_step env l (listen_check l)"
| Datagram: "l_pc l = Receiving \<Longrightarrow> listener_step env l (listen_received env data addr l)"
| Socket_error: "l_pc l = Receiving \<Longrightarrow> listener_step env l (listen_failed l)"
| Wait_over: "k \<in> set (l_waiting l) \<Longrightarrow> is_connected (l_conns l ! k) \<Longrightarrow>
    listener_step env l (wait_over k l)"
| Wait_timeout: "k \<in> set (l_waiting l) \<Longrightarrow> listener_step env l (wait_timeout k l)"
| Incoming: "k \<in> set (l_sending l) \<Longrightarrow> length (l_incoming l) < 64 \<Longrightarrow>
    listener_step env l (send_incoming k l)"
| Accepted: "listener_step env l (fst (accept l))"
| Pong_data: "listener_step env l (fst (set_pong_data data l))"
| Shutdown: "listener_step env l (listener_shutdown env l)"
| Collected: "listener_step env l (fst (gc_blocks env l))"
| Conn_moved: "k < length (l_conns l) \<Longrightarrow>
    conn_step (le_conn env k) listener_handler (l_conns l ! k) conn \<Longrightarrow>
    listener_step env l (fst (with_conn k (\<lambda>_. (conn, ())) l))"

inductive_cases listener_stepE: "listener_step env l l'"

abbreviation listener_steps :: "listen_env \<Rightarrow> Listener \<Rightarrow> Listener \<Rightarrow> bool" where
  "listener_steps env \<equiv> (listener_step env)\<^sup>*\<^sup>*"

section \<open>The invariant\<close>

definition table_ok :: "Listener \<Rightarrow> bool" where
  "table_ok l \<longleftrightarrow> distinct (map fst (l_connections l))
     \<and> (\<forall>(addr, k) \<in> set (l_connections l). k < length (l_conns l)
          \<and> c_remote_addr (l_conns l ! k) = addr \<and> \<not> c_closed (l_conns l ! k))"

definition tasks_ok :: "Listener \<Rightarrow> bool" where
  "tasks_ok l \<longleftrightarrow> distinct (l_waiting l @ l_sending l @ l_incoming l)
     \<and> (\<forall>k \<in> set (l_waiting l @ l_sending l @ l_incoming l). k < length (l_conns l))
     \<and> (\<forall>k \<in> set (l_sending l @ l_incoming l). c_connected (l_conns l ! k))"

definition store_ok :: "listen_env \<Rightarrow> Listener \<Rightarrow> bool" where
  "store_ok env l \<longleftrightarrow> (\<forall>k < length (l_conns l). \<exists>addr mtu now.
     conn_steps (le_conn env k) listener_handler (conn_new addr mtu now) (l_conns l ! k))"

definition listener_ok :: "listen_env \<Rightarrow> Listener \<Rightarrow> bool" where
  "listener_ok env l \<longleftrightarrow> table_ok l \<and> tasks_ok l \<and> store_ok env l"

lemma listener_ok_new: "listener_ok env (listener_new config guid salt)"
  by (simp add: listener_ok_def table_ok_def tasks_ok_def store_ok_def listener_new_def)

text \<open>The fields the invariant looks at.\<close>

definition live_part :: "Listener \<Rightarrow> (SocketAddr \<times> nat) list \<times> Conn list \<times> nat list \<times> nat list \<times> nat list" where
  "live_part l = (l_connections l, l_conns l, l_waiting l, l_sending l, l_incoming l)"

lemma listener_ok_live: "live_part l' = live_part l \<Longrightarrow> listener_ok env l' = listener_ok env l"
  by (simp add: live_part_def listener_ok_def table_ok_def tasks_ok_def store_ok_def)

section \<open>Working on a connection keeps the invariant\<close>

lemma conn_step_life:
  assumes "conn_step env listener_handler conn conn'"
  shows "c_remote_addr conn' = c_remote_addr conn" and "c_closed conn \<Longrightarrow> c_closed conn'"
    and "c_connected conn \<Longrightarrow> c_connected conn'"
    and "removals (drop (length (c_log conn)) (c_log conn')) =
      (if c_closed conn' \<and> \<not> c_closed conn then [c_remote_addr conn] else [])"
proof -
  have "evolves True conn conn'" using assms by (rule listener_life.evolves_conn_step)
  then obtain es where es: "life_log True conn conn' es"
    and rest: "c_remote_addr conn' = c_remote_addr conn" "c_closed conn \<longrightarrow> c_closed conn'"
      "c_connected conn \<longrightarrow> c_connected conn'"
    unfolding evolves_def by blast
  then show "c_remote_addr conn' = c_remote_addr conn" "c_closed conn \<Longrightarrow> c_closed conn'"
    "c_connected conn \<Longrightarrow> c_connected conn'" by simp_all
  show "removals (drop (length (c_log conn)) (c_log conn')) =
      (if c_closed conn' \<and> \<not> c_closed conn then [c_remote_addr conn] else [])"
    using es by (simp add: life_log_def)
qed

text \<open>What a step of a connection does to the listener.\<close>

lemma with_conn_step:
  assumes "conn_step env listener_handler (l_conns l ! k) (fst (op (l_conns l ! k)))"
  shows "with_conn k op l =
    (l\<lparr>l_conns := (l_conns l)[k := fst (op (l_conns l ! k))],
       l_connections :=
         (if c_closed (fst (op (l_conns l ! k))) \<and> \<not> c_closed (l_conns l ! k)
          then AList.delete (c_remote_addr (l_conns l ! k)) (l_connections l) else l_connections l)\<rparr>,
     snd (op (l_conns l ! k)))"
  using conn_step_life(4) [OF assms] by (cases "op (l_conns l ! k)") (simp add: with_conn_def Let_def)

lemma set_alist_delete: "set (AList.delete k al) = {(a, b) \<in> set al. a \<noteq> k}"
  by (auto simp: AList.delete_eq)

lemma table_ok_with_conn:
  assumes ok: "table_ok l" and k: "k < length (l_conns l)"
    and step: "conn_step env listener_handler (l_conns l ! k) conn"
  shows "table_ok (l\<lparr>l_conns := (l_conns l)[k := conn], l_connections :=
     (if c_closed conn \<and> \<not> c_closed (l_conns l ! k)
      then AList.delete (c_remote_addr (l_conns l ! k)) (l_connections l) else l_connections l)\<rparr>)"
proof -
  note life = conn_step_life [OF step]
  have kept: "k' < length (l_conns l) \<and> c_remote_addr ((l_conns l)[k := conn] ! k') = addr
      \<and> \<not> c_closed ((l_conns l)[k := conn] ! k')"
    if "(addr, k') \<in> set (l_connections l)"
      and "\<not> (c_closed conn \<and> \<not> c_closed (l_conns l ! k)) \<or> addr \<noteq> c_remote_addr (l_conns l ! k)"
    for addr k'
  proof -
    have "k' < length (l_conns l)" "c_remote_addr (l_conns l ! k') = addr" "\<not> c_closed (l_conns l ! k')"
      using ok that(1) by (auto simp: table_ok_def)
    with that(2) life(1) k show ?thesis by (cases "k' = k") auto
  qed
  have "distinct (map fst (AList.delete a (l_connections l)))" for a
    using ok by (simp add: table_ok_def distinct_delete)
  with ok kept show ?thesis by (auto simp: table_ok_def set_alist_delete)
qed

lemma tasks_ok_with_conn:
  assumes "tasks_ok l" and "k < length (l_conns l)"
    and "conn_step env listener_handler (l_conns l ! k) conn"
  shows "tasks_ok (l\<lparr>l_conns := (l_conns l)[k := conn], l_connections := table\<rparr>)"
  using assms conn_step_life(3) [OF assms(3)]
  by (auto simp: tasks_ok_def nth_list_update)

lemma store_ok_with_conn:
  assumes "store_ok env l" and "k < length (l_conns l)"
    and "conn_step (le_conn env k) listener_handler (l_conns l ! k) conn"
  shows "store_ok env (l\<lparr>l_conns := (l_conns l)[k := conn], l_connections := table\<rparr>)"
proof -
  obtain addr mtu now where
    "conn_steps (le_conn env k) listener_handler (conn_new addr mtu now) (l_conns l ! k)"
    using assms(1,2) by (auto simp: store_ok_def)
  then have "conn_steps (le_conn env k) listener_handler (conn_new addr mtu now) conn"
    using assms(3) by (rule rtranclp.rtrancl_into_rtrancl)
  then have "\<exists>addr mtu now. conn_steps (le_conn env i) listener_handler (conn_new addr mtu now)
      ((l_conns l)[k := conn] ! i)" if "i < length (l_conns l)" for i
    using assms(1) that by (cases "i = k") (auto simp: store_ok_def)
  then show ?thesis by (simp add: store_ok_def)
qed

lemma listener_ok_with_conn:
  assumes "listener_ok env l" and "k < length (l_conns l)"
    and "conn_step (le_conn env k) listener_handler (l_conns l ! k) (fst (op (l_conns l ! k)))"
  shows "listener_ok env (fst (with_conn k op l))"
  using assms table_ok_with_conn [OF _ assms(2,3)] tasks_ok_with_conn [OF _ assms(2,3)]
    store_ok_with_conn [OF _ assms(2,3)]
  by (simp add: listener_ok_def with_conn_step [where op = op and l = l and k = k, OF assms(3)])

lemma conn_step_closed_listener: "conn_step env listener_handler conn (close_immediately listener_close conn)"
  using conn_step.Closed [of env listener_handler conn] by (simp add: listener_handler_def)

lemma listener_ok_close_conn:
  "listener_ok env l \<Longrightarrow> k < length (l_conns l) \<Longrightarrow> listener_ok env (close_conn k l)"
  unfolding close_conn_def by (rule listener_ok_with_conn) (simp_all add: conn_step_closed_listener)

section \<open>Every step keeps the invariant\<close>

lemma live_part_send_to [simp]: "live_part (fst (send_to env data addr l)) = live_part l"
  by (simp add: send_to_def live_part_def Let_def split: option.split)

lemma live_part_block [simp]: "live_part (block_addr env addr l) = live_part l"
  by (simp add: block_addr_def block_insert_def block_counted_def listener_now_def live_part_def)

lemma live_part_gc [simp]: "live_part (fst (gc_blocks env l)) = live_part l"
  by (simp add: gc_blocks_def listener_now_def live_part_def Let_def)

lemma live_part_pong [simp]: "live_part (fst (set_pong_data data l)) = live_part l"
  by (simp add: set_pong_data_def live_part_def)

lemma live_part_pc [simp]: "live_part (l\<lparr>l_pc := pc\<rparr>) = live_part l"
  by (simp add: live_part_def)

lemma live_part_ping: "live_part (fst (handle_unconnected_ping env data addr l)) = live_part l"
  by (cases "unconnected_ping_read data")
    (simp_all add: handle_unconnected_ping_def unconnected_pong_write_def)

lemma live_part_request_1:
  "live_part (fst (handle_open_connection_request_1 env data addr l)) = live_part l"
proof -
  have and_then: "live_part (fst (and_then_st (send_to env response addr l) (\<lambda>l _. (l, r)))) = live_part l"
    for response and r :: "unit outcome"
    using live_part_send_to [of env response addr l]
    by (cases "send_to env response addr l"; cases "snd (send_to env response addr l)") auto
  then show ?thesis
    by (cases "ocr1_read data")
      (simp_all add: handle_open_connection_request_1_def ipv_write_def reply1_write_def Let_def)
qed

lemma listener_ok_register:
  assumes "listener_ok env l" and "map_of (l_connections l) addr = None"
  shows "listener_ok env (register_conn env addr mtu l)"
proof -
  let ?n = "length (l_conns l)" and ?c = "conn_new addr mtu (le_now env (l_reads l))"
  have new: "addr \<notin> fst ` set (l_connections l)" using assms(2) by (simp add: map_of_eq_None_iff)
  have update: "AList.update addr ?n (l_connections l) = l_connections l @ [(addr, ?n)]"
    using new by (rule alist_update_new)
  let ?l = "register_conn env addr mtu l"
  have fields: "l_conns ?l = l_conns l @ [?c]" "l_connections ?l = l_connections l @ [(addr, ?n)]"
    "l_waiting ?l = l_waiting l @ [?n]" "l_sending ?l = l_sending l" "l_incoming ?l = l_incoming l"
    using update by (simp_all add: register_conn_def listener_now_def Let_def)
  have c: "c_remote_addr ?c = addr" "\<not> c_closed ?c" by (simp_all add: conn_new_def)
  have ok: "table_ok l" "tasks_ok l" "store_ok env l" using assms(1) by (simp_all add: listener_ok_def)
  have "k < length (l_conns ?l) \<and> c_remote_addr (l_conns ?l ! k) = a \<and> \<not> c_closed (l_conns ?l ! k)"
    if "(a, k) \<in> set (l_connections ?l)" for a k
  proof (cases "k = ?n \<and> a = addr")
    case False
    then have "(a, k) \<in> set (l_connections l)" using that by (auto simp: fields)
    then have "k < ?n \<and> c_remote_addr (l_conns l ! k) = a \<and> \<not> c_closed (l_conns l ! k)"
      using ok(1) by (auto simp: table_ok_def)
    then show ?thesis by (simp add: fields nth_append)
  qed (simp add: fields c)
  moreover have "distinct (map fst (l_connections ?l))"
    using ok(1) new by (simp add: fields table_ok_def)
  ultimately have "table_ok ?l" by (auto simp: table_ok_def)
  moreover have "tasks_ok ?l"
  proof -
    have tasks: "set (l_waiting l @ l_sending l @ l_incoming l) \<subseteq> {..<?n}"
      and "distinct (l_waiting l @ l_sending l @ l_incoming l)"
      and conn: "\<forall>k \<in> set (l_sending l @ l_incoming l). c_connected (l_conns l ! k)"
      using ok(2) by (auto simp: tasks_ok_def)
    moreover have "\<forall>k \<in> set (l_sending l @ l_incoming l). l_conns ?l ! k = l_conns l ! k"
      using tasks by (auto simp: fields nth_append)
    ultimately show ?thesis
      unfolding tasks_ok_def by (auto simp: fields less_Suc_eq)
  qed
  moreover have "\<exists>a m t. conn_steps (le_conn env k) listener_handler (conn_new a m t) (l_conns ?l ! k)"
    if "k < length (l_conns ?l)" for k
  proof (cases "k = ?n")
    case True
    then show ?thesis by (intro exI [of _ addr] exI [of _ mtu] exI [of _ "le_now env (l_reads l)"]) (simp add: fields)
  next
    case False
    with that have "k < ?n" "l_conns ?l ! k = l_conns l ! k" by (simp_all add: fields nth_append)
    then show ?thesis using ok(3) by (simp add: store_ok_def)
  qed
  then have "store_ok env ?l" by (simp add: store_ok_def)
  ultimately show ?thesis by (simp add: listener_ok_def)
qed

text \<open>
  The second request: it either stops before anything is registered or registers one connection
  after the reply.
\<close>

definition ocr2_blank :: "Listener \<Rightarrow> OpenConnectionRequest2" where
  "ocr2_blank l = ocr2_default\<lparr>ocr2_server_has_security := \<not> cfg_disable_cookies (l_config l)\<rparr>"

lemma reply2_write_Ok: "\<exists>response. reply2_write m = Ok response"
  using reply2.dec_enc [of m] by auto

lemma request_2_cases:
  obtains (stop) r l' where "handle_open_connection_request_2 env data addr l = (l', r)"
      and "live_part l' = live_part l" and "r \<noteq> Ok ()"
    | (created) pk response l' where "ocr2_read (ocr2_blank l) data = (pk, Ok ())"
      and "ocr2_cookie pk = listener_cookie env addr l"
      and "reply2_write (reply2_new (l_id l) addr (min (ocr2_mtu pk) MAX_MTU_SIZE)) = Ok response"
      and "send_to env response addr l = (l', Ok ())"
      and "handle_open_connection_request_2 env data addr l =
        (register_conn env addr (min (ocr2_mtu pk) MAX_MTU_SIZE) l', Ok ())"
proof (cases "ocr2_read (ocr2_blank l) data")
  case (Pair pk r)
  show ?thesis
  proof (cases "r = Ok () \<and> ocr2_cookie pk = listener_cookie env addr l")
    case False
    then show ?thesis
      using Pair by (cases r)
        (intro stop; simp add: handle_open_connection_request_2_def ocr2_blank_def Let_def; simp)+
  next
    case True
    let ?mtu = "min (ocr2_mtu pk) MAX_MTU_SIZE"
    obtain response where w: "reply2_write (reply2_new (l_id l) addr ?mtu) = Ok response"
      using reply2_write_Ok by blast
    obtain l' r' where s: "send_to env response addr l = (l', r')" by (cases "send_to env response addr l")
    have unfold: "handle_open_connection_request_2 env data addr l =
        and_then_st (l', r') (\<lambda>l _. (register_conn env addr ?mtu l, Ok ()))"
      using Pair True w s by (simp add: handle_open_connection_request_2_def ocr2_blank_def Let_def)
    have "live_part l' = live_part l" using live_part_send_to [of env response addr l] s by simp
    then show ?thesis
      using unfold Pair True w s by (cases r') (auto intro: created stop)
  qed
qed

lemma listener_ok_request_2:
  assumes "listener_ok env l" and "map_of (l_connections l) addr = None"
  shows "listener_ok env (fst (handle_open_connection_request_2 env data addr l))"
proof (cases rule: request_2_cases [of env data addr l])
  case (stop r l')
  then show ?thesis using assms(1) listener_ok_live [of l' l env] by simp
next
  case (created pk response l')
  have "live_part l' = live_part l" using live_part_send_to [of env response addr l] created(4) by simp
  then have "listener_ok env l'" "map_of (l_connections l') addr = None"
    using assms listener_ok_live [of l' l env] by (simp_all add: live_part_def)
  then show ?thesis using listener_ok_register created(5) by simp
qed

lemma listener_ok_handle:
  assumes "listener_ok env l"
  shows "listener_ok env (fst (handle env data addr l))"
proof (cases "map_of (l_connections l) addr")
  case None
  have live: "live_part l' = live_part l \<Longrightarrow> listener_ok env l'" for l'
    using assms listener_ok_live by blast
  show ?thesis
    using None listener_ok_request_2 [OF assms None] assms
      live [OF live_part_ping] live [OF live_part_request_1]
    by (auto simp: handle_def handle_unconnected_def split: list.split)
next
  case (Some k)
  then have "k < length (l_conns l)"
    using assms by (auto simp: listener_ok_def table_ok_def dest: map_of_SomeD)
  then have "listener_ok env (fst (with_conn k (conn_receive (le_conn env k) listener_handler data) l))"
    by (rule listener_ok_with_conn [OF assms]) (rule conn_step.Received)
  then show ?thesis using Some by (simp add: handle_def)
qed

lemma listener_ok_received:
  assumes "listener_ok env l"
  shows "listener_ok env (listen_received env data addr l)"
proof -
  let ?l = "l\<lparr>l_pc := Checking\<rparr>"
  have l: "listener_ok env ?l" using assms listener_ok_live [of ?l l env] by simp
  obtain l' r where h: "handle env (take 1500 data) addr ?l = (l', r)"
    by (cases "handle env (take 1500 data) addr ?l")
  have l': "listener_ok env l'" using listener_ok_handle [OF l, of "take 1500 data" addr] h by simp
  have "listener_ok env (block_addr env addr l')" "listener_ok env (l'\<lparr>l_pc := Returned\<rparr>)"
    using l' listener_ok_live [of "block_addr env addr l'" l' env]
      listener_ok_live [of "l'\<lparr>l_pc := Returned\<rparr>" l' env] by simp_all
  with l l' h show ?thesis by (cases r) (simp_all add: listen_received_def Let_def)
qed

lemma listener_ok_wait_over:
  assumes "listener_ok env l" and "k \<in> set (l_waiting l)" and "c_connected (l_conns l ! k)"
  shows "listener_ok env (wait_over k l)"
  using assms by (auto simp: listener_ok_def table_ok_def tasks_ok_def store_ok_def wait_over_def
      dest: notin_set_remove1)

lemma listener_ok_send_incoming:
  assumes "listener_ok env l" and "k \<in> set (l_sending l)"
  shows "listener_ok env (send_incoming k l)"
  using assms by (auto simp: listener_ok_def table_ok_def tasks_ok_def store_ok_def send_incoming_def
      dest: notin_set_remove1)

lemma listener_ok_delete:
  assumes "listener_ok env l"
  shows "listener_ok env (l\<lparr>l_connections := AList.delete addr (l_connections l)\<rparr>)"
  using assms
  by (auto simp: listener_ok_def table_ok_def tasks_ok_def store_ok_def set_alist_delete distinct_delete)

lemma listener_ok_wait_timeout:
  assumes "listener_ok env l" and "k \<in> set (l_waiting l)"
  shows "listener_ok env (wait_timeout k l)"
proof -
  have "listener_ok env (l\<lparr>l_waiting := remove1 k (l_waiting l)\<rparr>)"
    using assms(1)
    by (auto simp: listener_ok_def table_ok_def tasks_ok_def store_ok_def dest: notin_set_remove1)
  moreover have "k < length (l_conns l)" using assms by (auto simp: listener_ok_def tasks_ok_def)
  ultimately have "listener_ok env (close_conn k (l\<lparr>l_waiting := remove1 k (l_waiting l)\<rparr>))"
    by (simp add: listener_ok_close_conn)
  then show ?thesis unfolding wait_timeout_def Let_def by (rule listener_ok_delete)
qed

lemma length_conns_close_conn [simp]: "length (l_conns (close_conn k l)) = length (l_conns l)"
  by (simp add: close_conn_def with_conn_def Let_def split: prod.split)

lemma listener_ok_close_all:
  "listener_ok env l \<Longrightarrow> \<forall>k \<in> set ks. k < length (l_conns l) \<Longrightarrow> listener_ok env (fold close_conn ks l)"
  by (induction ks arbitrary: l) (simp_all add: listener_ok_close_conn)

lemma listener_ok_shutdown:
  assumes "listener_ok env l" and "set (le_order env (map snd (l_connections l))) = set (map snd (l_connections l))"
  shows "listener_ok env (listener_shutdown env l)"
proof -
  have "listener_ok env (l\<lparr>l_closed := True\<rparr>)"
    using assms(1) listener_ok_live [of "l\<lparr>l_closed := True\<rparr>" l env] by (simp add: live_part_def)
  moreover have "\<forall>k \<in> set (le_order env (map snd (l_connections l))). k < length (l_conns l)"
    using assms by (auto simp: listener_ok_def table_ok_def)
  ultimately show ?thesis
    using assms(1) by (simp add: listener_shutdown_def Let_def listener_ok_close_all)
qed

lemma listener_ok_accept: "listener_ok env l \<Longrightarrow> listener_ok env (fst (accept l))"
  by (auto simp: accept_def listener_ok_def table_ok_def tasks_ok_def store_ok_def split: list.split)

text \<open>Iterating a hash map visits its entries, whatever their order.\<close>

definition visits_all :: "listen_env \<Rightarrow> bool" where
  "visits_all env \<longleftrightarrow> (\<forall>ks. set (le_order env ks) = set ks)"

lemma visits_all_still [simp]: "visits_all (still_listen_env crc)"
  by (simp add: visits_all_def)

lemma listener_step_ok:
  assumes "listener_step env l l'" and "listener_ok env l" and "visits_all env"
  shows "listener_ok env l'"
  using assms(1)
proof (cases rule: listener_step.cases)
  case (Conn_moved k conn)
  then show ?thesis using listener_ok_with_conn [OF assms(2), of k "\<lambda>_. (conn, ())"] by simp
next
  case Shutdown
  then show ?thesis using assms listener_ok_shutdown by (simp add: visits_all_def)
qed (use assms(2) listener_ok_live [of l' l env] in
    \<open>simp_all add: listen_check_def listen_failed_def listener_ok_received listener_ok_wait_over
       listener_ok_send_incoming listener_ok_wait_timeout listener_ok_accept is_connected_def\<close>)

lemma listener_steps_ok:
  assumes "listener_steps env l l'" and "listener_ok env l" and "visits_all env"
  shows "listener_ok env l'"
  using assms by induction (simp_all add: listener_step_ok)

lemma listener_reassembly_bound:
  assumes "conn_steps env listener_handler (conn_new addr mtu now) conn"
  shows "length (st_splits (c_state conn)) \<le> 17"
proof -
  have "splits_bounded (conn_new addr mtu now)"
    by (simp add: splits_bounded_def reassembly_bounded_def conn_new_def conn_state_new_def)
  from listener_life.conn_steps_splits_bounded [OF assms listener_handler_limits this] show ?thesis
    unfolding splits_bounded_def reassembly_bounded_def by blast
qed

lemma store_ok_conn:
  assumes "store_ok env l" and "conn \<in> set (l_conns l)"
  shows "400 \<le> c_mtu conn \<and> c_mtu conn \<le> 1492 \<and> length (st_splits (c_state conn)) \<le> 17"
proof -
  obtain k where k: "k < length (l_conns l)" "conn = l_conns l ! k"
    using assms(2) by (metis in_set_conv_nth)
  then obtain addr mtu now where steps:
    "conn_steps (le_conn env k) listener_handler (conn_new addr mtu now) conn"
    using assms(1) unfolding store_ok_def by blast
  have "c_mtu conn = clamp_mtu mtu" using listener_life.reachable_life [OF steps] by blast
  moreover have "400 \<le> clamp_mtu mtu \<and> clamp_mtu mtu \<le> 1492"
    by (simp add: clamp_mtu_def MIN_MTU_SIZE_def MAX_MTU_SIZE_def)
  moreover have "length (st_splits (c_state conn)) \<le> 17"
    using listener_reassembly_bound [OF steps] .
  ultimately show ?thesis by simp
qed

section \<open>Properties\<close>

text \<open>
  C14. The invariant of a listener, in every state it can reach: every address of the table has
  one connection, of that remote address and open; no connection is handed to the channel of
  incoming connections twice, and only established ones are; and every connection the listener
  ever made has an MTU between 400 and 1492 and at most seventeen split packets in reassembly.
\<close>

theorem listener_invariant:
  assumes "listener_steps env (listener_new config guid salt) l" and "visits_all env"
  shows "distinct (map fst (l_connections l))
    \<and> list_all (\<lambda>(addr, k). k < length (l_conns l) \<and> c_remote_addr (l_conns l ! k) = addr
         \<and> \<not> c_closed (l_conns l ! k)) (l_connections l)
    \<and> distinct (l_waiting l @ l_sending l @ l_incoming l)
    \<and> list_all (\<lambda>k. k < length (l_conns l) \<and> c_connected (l_conns l ! k)) (l_sending l @ l_incoming l)
    \<and> list_all (\<lambda>conn. 400 \<le> c_mtu conn \<and> c_mtu conn \<le> 1492
         \<and> length (st_splits (c_state conn)) \<le> 17) (l_conns l)"
proof -
  have ok: "listener_ok env l" using listener_steps_ok [OF assms(1) listener_ok_new assms(2)] .
  then have table: "table_ok l" and tasks: "tasks_ok l" and store: "store_ok env l"
    by (simp_all add: listener_ok_def)
  have "k < length (l_conns l) \<and> c_connected (l_conns l ! k)" if "k \<in> set (l_sending l @ l_incoming l)" for k
    using tasks that unfolding tasks_ok_def by simp
  moreover have "distinct (l_waiting l @ l_sending l @ l_incoming l)"
    using tasks unfolding tasks_ok_def by (rule conjunct1)
  ultimately show ?thesis
    using table [unfolded table_ok_def] store_ok_conn [OF store] by (simp only: list_all_iff) simp
qed

theorem listener_invariant_witness:
  "distinct (map fst (l_connections (listen_check (listener_new listen_config_default 7 9))))"
proof -
  have "listener_step (still_listen_env (\<lambda>_. 5)) (listener_new listen_config_default 7 9)
      (listen_check (listener_new listen_config_default 7 9))"
    by (rule listener_step.Check) (simp add: listener_new_def)
  with listener_invariant [where env = "still_listen_env (\<lambda>_. 5)", OF r_into_rtranclp] show ?thesis by simp
qed

end
