(* ===== verification/Listener_Security.thy ===== *)
theory Listener_Security
  imports Listener_Life
begin

text \<open>
  What the listener grants to whom: connections only against its cookie, an answer to every
  unconnected ping, nothing to blocked addresses; and where its bookkeeping fails.
\<close>

section \<open>What handling a datagram leaves alone\<close>

definition fixed_part :: "Listener \<Rightarrow> ListenConfig \<times> i64 \<times> u32 \<times> bool \<times> (bytes \<times> instant) list \<times> u32 \<times> bytes" where
  "fixed_part l = (l_config l, l_id l, l_cookie_salt l, l_closed l, l_blocks l, l_block_count l, l_pong_data l)"

lemma fixed_part_with_conn [simp]: "fixed_part (fst (with_conn k op l)) = fixed_part l"
  by (simp add: with_conn_def fixed_part_def Let_def split: prod.split)

lemma fixed_part_send_to [simp]: "fixed_part (fst (send_to env data addr l)) = fixed_part l"
  by (simp add: send_to_def fixed_part_def Let_def split: option.split)

lemma fixed_part_send_toE: "send_to env data addr l = (l', r) \<Longrightarrow> fixed_part l' = fixed_part l"
  using fixed_part_send_to [of env data addr l] by simp

lemma fixed_part_register [simp]: "fixed_part (register_conn env addr mtu l) = fixed_part l"
  by (simp add: register_conn_def listener_now_def fixed_part_def Let_def)

lemma fixed_part_and_then:
  assumes "fixed_part (fst m) = fixed_part l" and "\<And>l' a. fixed_part l' = fixed_part l \<Longrightarrow> fixed_part (fst (f l' a)) = fixed_part l"
  shows "fixed_part (fst (and_then_st m f)) = fixed_part l"
  using assms by (cases m; cases "snd m") auto

lemma fixed_part_handle: "fixed_part (fst (handle env data addr l)) = fixed_part l"
proof -
  have ping: "fixed_part (fst (handle_unconnected_ping env rest addr l)) = fixed_part l" for rest
    unfolding handle_unconnected_ping_def by (intro fixed_part_and_then) simp_all
  have request_1: "fixed_part (fst (handle_open_connection_request_1 env rest addr l)) = fixed_part l" for rest
    unfolding handle_open_connection_request_1_def Let_def
    by (intro fixed_part_and_then) (auto intro!: fixed_part_and_then)
  have request_2: "fixed_part (fst (handle_open_connection_request_2 env rest addr l)) = fixed_part l" for rest
    unfolding handle_open_connection_request_2_def Let_def
    by (cases "ocr2_read (ocr2_default\<lparr>ocr2_server_has_security := \<not> cfg_disable_cookies (l_config l)\<rparr>) rest")
      (auto split: outcome.split intro!: fixed_part_and_then)
  show ?thesis
    by (auto simp: handle_def handle_unconnected_def ping request_1 request_2 split: option.split list.split)
qed

lemma received_closed: "l_closed (listen_received env data addr l) = l_closed l"
proof (cases "handle env (take 1500 data) addr (l\<lparr>l_pc := Checking\<rparr>)")
  case (Pair l' r)
  have "l_closed l' = l_closed l"
    using fixed_part_handle [of env "take 1500 data" addr "l\<lparr>l_pc := Checking\<rparr>"] Pair
    by (simp add: fixed_part_def)
  with Pair show ?thesis
    by (cases r) (simp_all add: listen_received_def block_addr_def block_insert_def block_counted_def
        listener_now_def Let_def)
qed

section \<open>The cookie\<close>

lemma ocr2_read_rest_cookie: "ocr2_cookie (fst (ocr2_read_rest self data offset)) = ocr2_cookie self"
proof -
  have step: "ocr2_cookie (fst (and_then_st (self', m) f)) = ocr2_cookie self"
    if "ocr2_cookie self' = ocr2_cookie self" and "\<And>a. ocr2_cookie (fst (f self' a)) = ocr2_cookie self"
    for self' and m :: "'a outcome" and f :: "_ \<Rightarrow> 'a \<Rightarrow> _ \<times> unit outcome"
    using that by (cases m) auto
  show ?thesis
    unfolding ocr2_read_rest_def Let_def by (auto intro!: step split: prod.split)
qed

text \<open>With security, the cookie a request carries is its bytes 17 to 20.\<close>

lemma ocr2_read_cookie:
  assumes "ocr2_read self data = (pk, Ok ())" and "ocr2_server_has_security self"
  shows "get_be 4 data 16 = Ok (ocr2_cookie pk)"
proof -
  have len: "21 \<le> length data" using assms by (auto simp: ocr2_read_def Let_def split: if_splits)
  then obtain c where c: "get_be 4 data 16 = Ok (c :: u32)" by simp
  then have "(pk, Ok ()) = ocr2_read_rest (self\<lparr>ocr2_cookie := c\<rparr>) data 21"
    using assms len by (simp add: ocr2_read_def)
  then have "ocr2_cookie pk = c"
    using ocr2_read_rest_cookie [of "self\<lparr>ocr2_cookie := c\<rparr>" data 21]
    by (metis fst_conv OpenConnectionRequest2.select_convs(5) OpenConnectionRequest2.surjective
        OpenConnectionRequest2.update_convs(5))
  with c show ?thesis by simp
qed

lemma conns_with_conn: "length (l_conns (fst (with_conn k op l))) = length (l_conns l)"
  by (simp add: with_conn_def Let_def split: prod.split)

text \<open>What a datagram that creates a connection is.\<close>

lemma handle_creates:
  assumes "length (l_conns l) < length (l_conns (fst (handle env data addr l)))"
  shows "map_of (l_connections l) addr = None
    \<and> (\<exists>body pk. data = OPEN_CONNECTION_REQUEST_2 # body \<and> ocr2_read (ocr2_blank l) body = (pk, Ok ())
         \<and> ocr2_cookie pk = listener_cookie env addr l
         \<and> (\<exists>now. l_conns (fst (handle env data addr l)) =
                l_conns l @ [conn_new addr (min (ocr2_mtu pk) MAX_MTU_SIZE) now]))"
proof (cases "map_of (l_connections l) addr")
  case (Some k)
  then show ?thesis using assms by (simp add: handle_def conns_with_conn)
next
  case None
  have same: "l_conns l' = l_conns l" if "live_part l' = live_part l" for l'
    using that by (simp add: live_part_def)
  obtain body where data: "data = OPEN_CONNECTION_REQUEST_2 # body"
    and h: "fst (handle env data addr l) = fst (handle_open_connection_request_2 env body addr l)"
    using assms None same [OF live_part_ping] same [OF live_part_request_1]
    by (auto simp: handle_def handle_unconnected_def id_defs split: list.splits if_splits)
  show ?thesis
  proof (cases rule: request_2_cases [of env body addr l])
    case (stop r l')
    then show ?thesis using assms h same [OF stop(2)] by simp
  next
    case (created pk response l')
    have "live_part l' = live_part l" using live_part_send_to [of env response addr l] created(4) by simp
    then have "l_conns l' = l_conns l" by (rule same)
    with created data h None show ?thesis
      by (auto simp: register_conn_def listener_now_def Let_def)
  qed
qed

lemma conns_close_all: "length (l_conns (fold close_conn ks l)) = length (l_conns l)"
  by (induction ks arbitrary: l) simp_all

lemma step_creates:
  assumes "listener_step env l l'" and "length (l_conns l) < length (l_conns l')"
  shows "\<exists>data addr. l' = listen_received env data addr l \<and> take 1500 data \<noteq> [] \<and> \<not> is_blocked addr l
    \<and> l_conns l' = l_conns (fst (handle env (take 1500 data) addr (l\<lparr>l_pc := Checking\<rparr>)))"
  using assms
proof (cases rule: listener_step.cases)
  case (Datagram data addr)
  let ?h = "handle env (take 1500 data) addr (l\<lparr>l_pc := Checking\<rparr>)"
  have blk: "l_conns (block_addr env addr m) = l_conns m" for m
    using live_part_block [of env addr m] by (simp add: live_part_def)
  have b: "is_blocked addr (l\<lparr>l_pc := Checking\<rparr>) = is_blocked addr l" by (simp add: is_blocked_def)
  have "take 1500 data \<noteq> [] \<and> \<not> is_blocked addr l"
    using Datagram(1) assms(2) b by (auto simp: listen_received_def Let_def)
  moreover from this have "l_conns l' = l_conns (fst ?h)"
    unfolding Datagram(1) listen_received_def Let_def
    by (cases ?h; cases "snd ?h") (simp_all add: b blk)
  ultimately show ?thesis using Datagram(1) by blast
qed (use assms(2) in \<open>simp_all add: listen_check_def listen_failed_def wait_over_def wait_timeout_def
    send_incoming_def accept_def set_pong_data_def listener_shutdown_def gc_blocks_def listener_now_def
    conns_with_conn conns_close_all Let_def split: list.splits if_splits\<close>)

section \<open>Blocked addresses\<close>

lemma block_fields:
  assumes "cfg_block_duration (l_config l) \<noteq> 0"
  shows "l_blocks (block_addr env addr l) = AList.update (block_key addr) (le_now env (l_reads l)) (l_blocks l)"
    and "l_block_count (block_addr env addr l) = l_block_count l + 1"
    and "l_config (block_addr env addr l) = l_config l"
    and "l_closed (block_addr env addr l) = l_closed l"
    and "l_pc (block_addr env addr l) = l_pc l"
  using assms by (simp_all add: block_addr_def block_insert_def block_counted_def listener_now_def)

lemma count_not_zero:
  assumes "unat (n :: u32) + 1 < 2 ^ 32"
  shows "n + 1 \<noteq> 0"
proof -
  have "unat (n + 1) = unat n + 1" using assms by (simp add: unat_word_ariths)
  then show ?thesis by auto
qed

lemma is_blocked_pc [simp]: "is_blocked addr (l\<lparr>l_pc := pc\<rparr>) = is_blocked addr l"
  by (simp add: is_blocked_def)

lemma is_blocked_fixed: "fixed_part l' = fixed_part l \<Longrightarrow> is_blocked addr l' = is_blocked addr l"
  by (simp add: is_blocked_def fixed_part_def)

lemma received_blocked:
  "is_blocked addr l \<Longrightarrow> listen_received env data addr l = l\<lparr>l_pc := Checking\<rparr>"
  by (auto simp: listen_received_def is_blocked_def Let_def split: if_splits)

lemma map_of_filter_distinct:
  "distinct (map fst al) \<Longrightarrow>
     map_of (filter (\<lambda>(_, v). P v) al) k = (case map_of al k of Some v \<Rightarrow> if P v then Some v else None | None \<Rightarrow> None)"
  by (induction al) (auto split: option.splits simp: map_of_eq_None_iff)

text \<open>A round of the collector, when there is something to collect.\<close>

lemma gc_blocks_blocked:
  assumes "\<not> l_closed l" and "l_block_count l \<noteq> 0" and "cfg_block_duration (l_config l) \<noteq> 0"
    and "distinct (map fst (l_blocks l))" and "length (l_blocks l) < 2 ^ 32"
  shows "is_blocked addr (fst (gc_blocks env l)) \<longleftrightarrow>
    (\<exists>t. map_of (l_blocks l) (block_key addr) = Some t
       \<and> duration_since (le_now env (l_reads l)) t \<le> cfg_block_duration (l_config l))"
proof -
  let ?P = "\<lambda>t. duration_since (le_now env (l_reads l)) t \<le> cfg_block_duration (l_config l)"
  let ?blocks = "filter (\<lambda>(_, t). ?P t) (l_blocks l)"
  have l': "fst (gc_blocks env l) = l\<lparr>l_reads := Suc (l_reads l), l_blocks := ?blocks,
      l_block_count := of_nat (length ?blocks)\<rparr>"
    using assms(1,2) by (simp add: gc_blocks_def listener_now_def Let_def)
  have "length ?blocks < 2 ^ 32" using length_filter_le assms(5) by (rule le_less_trans)
  then have "(of_nat (length ?blocks) :: u32) = 0 \<longleftrightarrow> ?blocks = []"
    by (simp add: word_unat_eq_iff unsigned_of_nat take_bit_nat_eq_self)
  then have "is_blocked addr (fst (gc_blocks env l)) \<longleftrightarrow> map_of ?blocks (block_key addr) \<noteq> None"
    using assms(3) by (auto simp: l' is_blocked_def)
  then show ?thesis
    using map_of_filter_distinct [OF assms(4), of ?P "block_key addr"] by (auto split: option.splits)
qed

section \<open>Requests that are granted\<close>

lemma ocr2_write_bytes:
  assumes "ocr2_write m = Ok data"
  shows "\<exists>body. data = OPEN_CONNECTION_REQUEST_2 # body"
    and "length data \<le> 61"
proof -
  obtain body where "ocr2_write m = Ok (OPEN_CONNECTION_REQUEST_2 # body)"
    using ocr2.dec_enc [of m m] by blast
  then show "\<exists>body. data = OPEN_CONNECTION_REQUEST_2 # body" using assms by simp
  show "length data \<le> 61"
    using assms append_addr_Ok [of "replicate 29 0" "ocr2_server_address m"
        "[OPEN_CONNECTION_REQUEST_2] @ UNCONNECTED_MESSAGE_SEQUENCE
         @ (if ocr2_server_has_security m then to_be 4 (ocr2_cookie m) @ [0] else [])"]
      sizeof_addr_bounds [of "ocr2_server_address m"]
    by (auto simp: ocr2_write_def Let_def)
qed

text \<open>The request a client of the listener sends from an address.\<close>

definition granted_request :: "listen_env \<Rightarrow> SocketAddr \<Rightarrow> Listener \<Rightarrow> OpenConnectionRequest2 \<Rightarrow> bool" where
  "granted_request env addr l m \<longleftrightarrow>
     ocr2_server_has_security m = (\<not> cfg_disable_cookies (l_config l))
     \<and> (\<not> cfg_disable_cookies (l_config l) \<longrightarrow> ocr2_cookie m = listener_cookie env addr l)"

lemma granted_request_fixed:
  "fixed_part l' = fixed_part l \<Longrightarrow> granted_request env addr l' m = granted_request env addr l m"
  by (simp add: granted_request_def listener_cookie_def fixed_part_def)

lemma handle_granted:
  assumes "granted_request env addr l m" and "ocr2_write m = Ok data"
    and "map_of (l_connections l) addr = None" and "le_send_to env (l_reads l) = None"
  shows "\<exists>response. reply2_write (reply2_new (l_id l) addr (min (ocr2_mtu m) MAX_MTU_SIZE)) = Ok response
    \<and> handle env data addr l = (register_conn env addr (min (ocr2_mtu m) MAX_MTU_SIZE)
         (l\<lparr>l_reads := Suc (l_reads l), l_out := l_out l @ [(addr, response)]\<rparr>), Ok ())"
proof -
  let ?self = "ocr2_blank l" and ?mtu = "min (ocr2_mtu m) MAX_MTU_SIZE"
  have "ocr2_server_has_security m = ocr2_server_has_security ?self"
    using assms(1) by (simp add: granted_request_def ocr2_blank_def)
  then obtain body where body: "data = OPEN_CONNECTION_REQUEST_2 # body"
    "ocr2_decode ?self body = Ok (ocr2_wire ?self m)"
    using ocr2.dec_enc [of m ?self] assms(2) by auto
  obtain pk r where read: "ocr2_read ?self body = (pk, r)" by (cases "ocr2_read ?self body")
  then have r: "r = Ok ()" "pk = ocr2_wire ?self m"
    using body(2) by (cases r; simp add: ocr2_decode_def)+
  have cookie: "ocr2_cookie pk = listener_cookie env addr l"
    using assms(1) r(2)
    by (simp add: granted_request_def ocr2_wire_def ocr2_blank_def ocr2_default_def listener_cookie_def)
  have mtu: "ocr2_mtu pk = ocr2_mtu m" by (simp add: r(2) ocr2_wire_def)
  obtain response where w: "reply2_write (reply2_new (l_id l) addr ?mtu) = Ok response"
    using reply2_write_Ok by blast
  have "handle env data addr l = handle_open_connection_request_2 env body addr l"
    using assms(3) by (simp add: handle_def handle_unconnected_def body(1) id_defs)
  also have "\<dots> = (register_conn env addr ?mtu
      (l\<lparr>l_reads := Suc (l_reads l), l_out := l_out l @ [(addr, response)]\<rparr>), Ok ())"
    using read r(1) cookie w assms(4)
    by (simp add: handle_open_connection_request_2_def ocr2_blank_def mtu send_to_def Let_def)
  finally show ?thesis using w by blast
qed

lemma received_granted:
  assumes "granted_request env addr l m" and "ocr2_write m = Ok data"
    and "map_of (l_connections l) addr = None" and "le_send_to env (l_reads l) = None"
    and "\<not> is_blocked addr l"
  shows "\<exists>response now. reply2_write (reply2_new (l_id l) addr (min (ocr2_mtu m) MAX_MTU_SIZE)) = Ok response
    \<and> (let l' = listen_received env data addr l in
       l_conns l' = l_conns l @ [conn_new addr (min (ocr2_mtu m) MAX_MTU_SIZE) now]
       \<and> l_connections l' = l_connections l @ [(addr, length (l_conns l))]
       \<and> l_waiting l' = l_waiting l @ [length (l_conns l)]
       \<and> l_out l' = l_out l @ [(addr, response)] \<and> l_incoming l' = l_incoming l
       \<and> l_pc l' = Checking \<and> fixed_part l' = fixed_part l)"
proof -
  let ?l = "l\<lparr>l_pc := Checking\<rparr>"
  have g: "granted_request env addr ?l m" using assms(1) by (simp add: granted_request_def listener_cookie_def)
  obtain response where response:
    "reply2_write (reply2_new (l_id l) addr (min (ocr2_mtu m) MAX_MTU_SIZE)) = Ok response"
    "handle env data addr ?l = (register_conn env addr (min (ocr2_mtu m) MAX_MTU_SIZE)
       (?l\<lparr>l_reads := Suc (l_reads ?l), l_out := l_out ?l @ [(addr, response)]\<rparr>), Ok ())"
    using handle_granted [OF g assms(2)] assms(3,4) by auto
  have "take 1500 data = data" "data \<noteq> []" using ocr2_write_bytes [OF assms(2)] by auto
  then have l': "listen_received env data addr l = register_conn env addr (min (ocr2_mtu m) MAX_MTU_SIZE)
       (?l\<lparr>l_reads := Suc (l_reads ?l), l_out := l_out ?l @ [(addr, response)]\<rparr>)"
    using response(2) assms(5) by (simp add: listen_received_def Let_def)
  have "AList.update addr (length (l_conns l)) (l_connections l) = l_connections l @ [(addr, length (l_conns l))]"
    using assms(3) by (intro alist_update_new) (simp add: map_of_eq_None_iff)
  then show ?thesis
    unfolding l' using response(1)
    by (intro exI [of _ response] exI [of _ "le_now env (Suc (l_reads l))"])
      (simp add: register_conn_def listener_now_def fixed_part_def Let_def)
qed

section \<open>A client that leaves\<close>

text \<open>The first datagram of a client, carrying its disconnect notification.\<close>

definition goodbye :: bytes where
  "goodbye = build_datagram (Uint24 0) (packet_new\<lparr>content := [DISCONNECT_NOTIFICATION]\<rparr>)"

lemma goodbye_closes:
  "c_closed (fst (conn_receive env listener_handler goodbye (conn_new addr mtu now)))
   \<and> snd (conn_receive env listener_handler goodbye (conn_new addr mtu now)) = Ok ()"
proof -
  let ?pk = "packet_new\<lparr>content := [DISCONNECT_NOTIFICATION]\<rparr>"
  have wf: "packet_wf ?pk"
    by (simp add: packet_wf_def packet_new_def reliability_defs u24_ok_def)
  let ?touched = "(conn_new addr mtu now)\<lparr>c_reads := Suc 0, c_last_activity := clock env 0\<rparr>"
  have new: "st_win (c_state ?touched) = dw_at (Uint24 0)" "u24_inner (Uint24 0)"
    by (simp_all add: conn_new_def conn_state_new_def dw_new_def dw_at_def u24_new_def u24_inner_def)
  obtain c1 where c1: "receive_datagram env listener_handler (write_uint24 [] (Uint24 0) @ packet_write ?pk []) ?touched
        = handle_datagram env listener_handler (packet_write ?pk []) c1"
      "receiving_side c1 = receiving_side ?touched"
    using receive_datagram_next [OF new] by blast
  let ?c2 = "set_pk packet_new c1" and ?q = "packet_decoded (st_pk (c_state c1)) ?pk"
  have q: "split_flag ?q = False" "reliability ?q = RELIABILITY_RELIABLE_ORDERED"
    "order_index ?q = Uint24 0" "content ?q = [DISCONNECT_NOTIFICATION]"
    by (simp_all add: packet_decoded_def packet_new_def reliability_defs is_sequenced_or_ordered_def)
  have side: "st_packet_queue (c_state ?c2) = pq_at (Uint24 0)" "c_closing ?c2 = 0"
    using c1(2) by (simp_all add: receiving_side_def set_pk_def conn_new_def conn_state_new_def pq_new_def
        pq_at_def u24_new_def)
  obtain qq where qq: "pq_put (Uint24 0) [DISCONNECT_NOTIFICATION] (pq_at (Uint24 0)) = (qq, True)"
    "pq_window_size (env_profile env) qq = Ok 1"
    "pq_fetch qq = (pq_at (snd (u24_inc (Uint24 0))), [[DISCONNECT_NOTIFICATION]])"
    using pq_at_receive [OF new(2)] by blast
  have "conn_receive env listener_handler goodbye (conn_new addr mtu now) =
      receive_datagram env listener_handler (write_uint24 [] (Uint24 0) @ packet_write ?pk []) ?touched"
    unfolding goodbye_def conn_receive_datagram by (simp add: conn_new_def)
  also have "\<dots> = dispatch_packet env listener_handler ?q ?c2"
    unfolding c1(1) by (rule handle_datagram_one [OF wf])
  also have "\<dots> = receive_packet env listener_handler ?q ?c2" using q(1) by (simp add: dispatch_packet_def)
  finally show ?thesis
    using q side qq
    by (simp add: receive_packet_def MAX_WINDOW_SIZE_def handle_packet_def listener_handler_def
        listener_handle_def close_immediately_def send_message_def listener_close_def emit_def id_defs Let_def)
qed

lemma received_goodbye:
  assumes "map_of (l_connections l) addr = Some k" and "k < length (l_conns l)"
    and "l_conns l ! k = conn_new addr mtu now" and "\<not> is_blocked addr l"
  shows "\<exists>conn. c_closed conn \<and> c_remote_addr conn = addr \<and> (let l' = listen_received env goodbye addr l in
     l_conns l' = (l_conns l)[k := conn] \<and> l_connections l' = AList.delete addr (l_connections l)
     \<and> l_waiting l' = l_waiting l \<and> l_pc l' = Checking \<and> fixed_part l' = fixed_part l)"
proof -
  let ?l = "l\<lparr>l_pc := Checking\<rparr>" and ?op = "conn_receive (le_conn env k) listener_handler goodbye"
  let ?conn = "fst (?op (l_conns l ! k))"
  have closed: "c_closed ?conn" by (simp add: assms(3) goodbye_closes)
  have step: "conn_step (le_conn env k) listener_handler (l_conns ?l ! k) (fst (?op (l_conns ?l ! k)))"
    by (rule conn_step.Received)
  have w: "fst (with_conn k ?op ?l) = ?l\<lparr>l_conns := (l_conns l)[k := ?conn],
      l_connections := AList.delete addr (l_connections l)\<rparr>"
    using with_conn_step [where op = ?op, OF step] closed assms(3) by (simp add: conn_new_def)
  have len: "goodbye \<noteq> []" "length goodbye \<le> 1500"
    by (simp_all add: goodbye_def build_datagram_bytes packet_write_def packet_new_def Let_def
        is_reliable_def is_sequenced_def is_sequenced_or_ordered_def reliability_defs)
  have "handle env goodbye addr ?l = (?l\<lparr>l_conns := (l_conns l)[k := ?conn],
      l_connections := AList.delete addr (l_connections l)\<rparr>, Ok ())"
    using w assms(1,3) goodbye_closes with_conn_step [where op = ?op, OF step]
    by (simp add: handle_def)
  then have "listen_received env goodbye addr l = ?l\<lparr>l_conns := (l_conns l)[k := ?conn],
      l_connections := AList.delete addr (l_connections l)\<rparr>"
    using len assms(4) by (simp add: listen_received_def Let_def)
  moreover have "c_remote_addr ?conn = addr"
    using conn_step_life(1) [OF step] assms(3) by (simp add: conn_new_def)
  ultimately show ?thesis using closed by (intro exI [of _ ?conn]) (simp add: fixed_part_def Let_def)
qed

section \<open>Closing connections\<close>

lemma fixed_part_close_conn [simp]: "fixed_part (close_conn k l) = fixed_part l"
  by (simp add: close_conn_def)

lemma fixed_part_close_all: "fixed_part (fold close_conn ks l) = fixed_part l"
  by (induction ks arbitrary: l) simp_all

lemma close_conn_effect:
  assumes "listener_ok env l" and "k < length (l_conns l)"
    and "c_closed (l_conns l ! k) \<or> k \<in> snd ` set (l_connections l)"
  shows "c_closed (l_conns (close_conn k l) ! k)"
    and "i \<noteq> k \<Longrightarrow> l_conns (close_conn k l) ! i = l_conns l ! i"
    and "set (l_connections (close_conn k l)) = {(a, i) \<in> set (l_connections l). i \<noteq> k}"
proof -
  let ?c = "close_immediately listener_close (l_conns l ! k)"
  have closed: "c_closed ?c"
    by (simp add: close_immediately_def listener_close_def send_message_def emit_def)
  have eq: "close_conn k l = l\<lparr>l_conns := (l_conns l)[k := ?c], l_connections :=
      (if \<not> c_closed (l_conns l ! k) then AList.delete (c_remote_addr (l_conns l ! k)) (l_connections l)
       else l_connections l)\<rparr>"
    using with_conn_step [where op = "\<lambda>conn. (close_immediately listener_close conn, ())" and env = "le_conn env k"]
      conn_step_closed_listener closed
    by (simp add: close_conn_def)
  show "c_closed (l_conns (close_conn k l) ! k)" "i \<noteq> k \<Longrightarrow> l_conns (close_conn k l) ! i = l_conns l ! i"
    using assms(2) closed by (simp_all add: eq)
  have table: "c_remote_addr (l_conns l ! i) = a \<and> \<not> c_closed (l_conns l ! i)"
    if "(a, i) \<in> set (l_connections l)" for a i
    using assms(1) that by (auto simp: listener_ok_def table_ok_def)
  show "set (l_connections (close_conn k l)) = {(a, i) \<in> set (l_connections l). i \<noteq> k}"
  proof (cases "c_closed (l_conns l ! k)")
    case True
    then have "(a, k) \<notin> set (l_connections l)" for a using table by blast
    with True show ?thesis by (auto simp: eq)
  next
    case False
    then obtain b where b: "(b, k) \<in> set (l_connections l)" using assms(3) by auto
    have dist: "distinct (map fst (l_connections l))"
      using assms(1) by (simp add: listener_ok_def table_ok_def)
    have "a = b \<longleftrightarrow> i = k" if "(a, i) \<in> set (l_connections l)" for a i
      using that b table dist by (metis eq_key_imp_eq_value)
    then have "{(a, i) \<in> set (l_connections l). a \<noteq> b} = {(a, i) \<in> set (l_connections l). i \<noteq> k}" by blast
    with False table [OF b] show ?thesis by (simp add: eq set_alist_delete)
  qed
qed

text \<open>Closing registered connections one after the other.\<close>

lemma close_all_closes:
  assumes "listener_ok env l"
    and "\<forall>k \<in> set ks. k < length (l_conns l) \<and> (c_closed (l_conns l ! k) \<or> k \<in> snd ` set (l_connections l))"
  shows "(\<forall>k. (k \<in> set ks \<or> c_closed (l_conns l ! k)) \<longrightarrow> c_closed (l_conns (fold close_conn ks l) ! k))
    \<and> set (l_connections (fold close_conn ks l)) = {(a, k) \<in> set (l_connections l). k \<notin> set ks}"
  using assms
proof (induction ks arbitrary: l)
  case (Cons k ks)
  have k: "k < length (l_conns l)" "c_closed (l_conns l ! k) \<or> k \<in> snd ` set (l_connections l)"
    using Cons.prems by simp_all
  note effect = close_conn_effect [OF Cons.prems(1) k]
  have ok: "listener_ok env (close_conn k l)" using Cons.prems(1) k(1) by (rule listener_ok_close_conn)
  have "j < length (l_conns (close_conn k l)) \<and>
      (c_closed (l_conns (close_conn k l) ! j) \<or> j \<in> snd ` set (l_connections (close_conn k l)))"
    if "j \<in> set ks" for j
  proof (cases "j = k")
    case False
    then show ?thesis using Cons.prems(2) that effect(2) [of j] by (force simp: effect(3))
  qed (use k effect in simp)
  with Cons.IH [OF ok] have IH: "\<forall>j. (j \<in> set ks \<or> c_closed (l_conns (close_conn k l) ! j)) \<longrightarrow>
        c_closed (l_conns (fold close_conn ks (close_conn k l)) ! j)"
    "set (l_connections (fold close_conn ks (close_conn k l))) =
      {(a, j) \<in> set (l_connections (close_conn k l)). j \<notin> set ks}" by blast+
  have "c_closed (l_conns (close_conn k l) ! j)" if "j = k \<or> c_closed (l_conns l ! j)" for j
    using that effect(1) effect(2) [of j] by (cases "j = k") auto
  with IH show ?case by (auto simp: effect(3))
qed simp

section \<open>Properties\<close>

text \<open>
  C9. A connection is created only against the cookie: the one step of a listener that adds a
  connection is a datagram that is a second open connection request, from an address that is not
  blocked and has no connection, and whose bytes 17 to 20 are, unless cookies are disabled, the
  checksum of the salt and that address. One connection is added, with the MTU of the request
  cut to 1492.
\<close>

theorem cookie_gate:
  assumes "listener_step env l l'" and "length (l_conns l) < length (l_conns l')"
  shows "\<exists>data addr body pk now. l' = listen_received env data addr l
    \<and> take 1500 data = OPEN_CONNECTION_REQUEST_2 # body
    \<and> \<not> is_blocked addr l \<and> map_of (l_connections l) addr = None
    \<and> ocr2_read (ocr2_blank l) body = (pk, Ok ())
    \<and> (cfg_disable_cookies (l_config l) \<or>
         get_be 4 body 16 = Ok (le_crc env (cookie_data (l_cookie_salt l) addr)))
    \<and> l_conns l' = l_conns l @ [conn_new addr (min (ocr2_mtu pk) 1492) now]"
proof -
  obtain data addr where l': "l' = listen_received env data addr l" "\<not> is_blocked addr l"
    "l_conns l' = l_conns (fst (handle env (take 1500 data) addr (l\<lparr>l_pc := Checking\<rparr>)))"
    using step_creates [OF assms] by blast
  let ?l = "l\<lparr>l_pc := Checking\<rparr>"
  have same: "l_conns ?l = l_conns l" "l_connections ?l = l_connections l" "l_config ?l = l_config l"
    "ocr2_blank ?l = ocr2_blank l" "listener_cookie env addr ?l = listener_cookie env addr l"
    by (simp_all add: ocr2_blank_def listener_cookie_def)
  obtain body pk now where h: "map_of (l_connections l) addr = None"
    "take 1500 data = OPEN_CONNECTION_REQUEST_2 # body" "ocr2_read (ocr2_blank l) body = (pk, Ok ())"
    "ocr2_cookie pk = listener_cookie env addr l"
    "l_conns l' = l_conns l @ [conn_new addr (min (ocr2_mtu pk) MAX_MTU_SIZE) now]"
    using handle_creates [of ?l env "take 1500 data" addr] assms(2) l'(3) unfolding same by auto
  have "cfg_disable_cookies (l_config l) \<or>
      get_be 4 body 16 = Ok (le_crc env (cookie_data (l_cookie_salt l) addr))"
    using ocr2_read_cookie [OF h(3)] h(4)
    by (cases "cfg_disable_cookies (l_config l)") (simp_all add: ocr2_blank_def listener_cookie_def)
  with l' h show ?thesis unfolding MAX_MTU_SIZE_def by blast
qed

text \<open>A fresh listener waiting for its first datagram, and a request with its cookie.\<close>

definition fresh :: "ListenConfig \<Rightarrow> i64 \<Rightarrow> u32 \<Rightarrow> Listener" where
  "fresh config guid salt = listen_check (listener_new config guid salt)"

lemma fresh_fields [simp]:
  "l_config (fresh config guid salt) = config" "l_connections (fresh config guid salt) = []"
  "l_conns (fresh config guid salt) = []" "l_waiting (fresh config guid salt) = []"
  "l_pc (fresh config guid salt) = Receiving" "l_cookie_salt (fresh config guid salt) = salt"
  "l_blocks (fresh config guid salt) = []" "l_block_count (fresh config guid salt) = 0"
  "\<not> l_closed (fresh config guid salt)" "l_out (fresh config guid salt) = []"
  "l_reads (fresh config guid salt) = 0" "\<not> is_blocked addr (fresh config guid salt)"
  by (simp_all add: fresh_def listen_check_def listener_new_def is_blocked_def)

definition sample_request :: OpenConnectionRequest2 where
  "sample_request = ocr2_with_security (V4 9 10) 1400 7 0x2a"

lemma sample_granted:
  "granted_request (still_listen_env (\<lambda>_. 0x2a)) addr (fresh listen_config_default 7 9) sample_request"
  by (simp add: granted_request_def sample_request_def ocr2_with_security_def listen_config_default_def
      listener_cookie_def)

lemma ocr2_write_Ok: "\<exists>data. ocr2_write m = Ok data"
  using ocr2.dec_enc [of m m] by auto

theorem cookie_gate_witness:
  "\<exists>data addr body. take 1500 data = OPEN_CONNECTION_REQUEST_2 # body \<and> get_be 4 body 16 = Ok (0x2a :: u32)
     \<and> length (l_conns (listen_received (still_listen_env (\<lambda>_. 0x2a)) data addr
          (fresh listen_config_default 7 9))) = 1"
proof -
  let ?env = "still_listen_env (\<lambda>_. 0x2a)" and ?l = "fresh listen_config_default 7 9"
  obtain data where data: "ocr2_write sample_request = Ok data" using ocr2_write_Ok by blast
  let ?l' = "listen_received ?env data (V4 1 2) ?l"
  have len: "length (l_conns ?l') = 1"
    using received_granted [OF sample_granted data, of "V4 1 2"] by (auto simp: Let_def)
  have "listener_step ?env ?l ?l'" by (rule listener_step.Datagram) simp
  from cookie_gate [OF this] len obtain data' addr body where
    "?l' = listen_received ?env data' addr ?l" "take 1500 data' = OPEN_CONNECTION_REQUEST_2 # body"
    "cfg_disable_cookies (l_config ?l) \<or> get_be 4 body 16 = Ok (le_crc ?env (cookie_data (l_cookie_salt ?l) addr))"
    by (metis fresh_fields(3) less_one list.size(3))
  with len show ?thesis by (auto simp: listen_config_default_def)
qed

text \<open>
  C22. A sender whose datagram causes an error is blocked with its whole IP address, and stays so
  until it expires: after the error at time \<open>t\<close>, datagrams from any port of the address change
  nothing but the position of the loop, and a round of the collector at time \<open>now\<close> keeps the block
  exactly when no more than the configured duration has passed.
\<close>

theorem block_until_expiry:
  assumes "handle env (take 1500 data) addr (l\<lparr>l_pc := Checking\<rparr>) = (l1, Err e)"
    and "take 1500 data \<noteq> []" and "\<not> is_blocked addr l"
    and "cfg_block_duration (l_config l) \<noteq> 0" and "unat (l_block_count l) + 1 < 2 ^ 32"
    and "distinct (map fst (l_blocks l))" and "length (l_blocks l) + 1 < 2 ^ 32" and "\<not> l_closed l"
    and "block_key addr' = block_key addr"
  shows "let l' = listen_received env data addr l; t = le_now env (l_reads l1) in
    is_blocked addr' l'
    \<and> listen_received env data' addr' l' = l'\<lparr>l_pc := Checking\<rparr>
    \<and> (is_blocked addr' (fst (gc_blocks env (l'\<lparr>l_reads := n\<rparr>))) \<longleftrightarrow>
         duration_since (le_now env n) t \<le> cfg_block_duration (l_config l))"
proof -
  let ?l' = "listen_received env data addr l" and ?t = "le_now env (l_reads l1)"
  have "is_blocked addr (l\<lparr>l_pc := Checking\<rparr>) = is_blocked addr l" by (simp add: is_blocked_def)
  then have l': "?l' = block_addr env addr l1"
    using assms(1-3) by (simp add: listen_received_def Let_def)
  have fixed: "l_config l1 = l_config l" "l_blocks l1 = l_blocks l" "l_block_count l1 = l_block_count l"
    "l_closed l1 = l_closed l"
    using fixed_part_handle [of env "take 1500 data" addr "l\<lparr>l_pc := Checking\<rparr>"] assms(1)
    by (simp_all add: fixed_part_def)
  have d: "cfg_block_duration (l_config l1) \<noteq> 0" using assms(4) fixed by simp
  note fields = block_fields [OF d, of env addr, folded l', unfolded fixed]
  have key: "map_of (l_blocks ?l') (block_key addr') = Some ?t"
    using fields(1) assms(9) by (simp add: update_conv')
  have cnt: "l_block_count ?l' \<noteq> 0" using fields(2) count_not_zero [OF assms(5)] by simp
  have blocked: "is_blocked addr' ?l'" using key cnt assms(4) fields(3) by (simp add: is_blocked_def)
  have "distinct (map fst (l_blocks ?l'))" using fields(1) assms(6) by (simp add: distinct_update)
  moreover have "length (l_blocks ?l') < 2 ^ 32"
    using fields(1) assms(7) by (simp add: length_alist_update)
  ultimately have "is_blocked addr' (fst (gc_blocks env (?l'\<lparr>l_reads := n\<rparr>))) \<longleftrightarrow>
      duration_since (le_now env n) ?t \<le> cfg_block_duration (l_config l)"
    using gc_blocks_blocked [of "?l'\<lparr>l_reads := n\<rparr>" addr' env] key cnt fields(3,4) assms(4,8) by simp
  with blocked received_blocked [OF blocked] show ?thesis by (simp add: Let_def)
qed

theorem block_until_expiry_witness:
  "is_blocked (V4 1 99) (listen_received (still_listen_env (\<lambda>_. 0)) [0x55] (V4 1 2) (fresh listen_config_default 7 9))
   \<and> listen_received (still_listen_env (\<lambda>_. 0)) [0x01] (V4 1 99)
       (listen_received (still_listen_env (\<lambda>_. 0)) [0x55] (V4 1 2) (fresh listen_config_default 7 9))
     = (listen_received (still_listen_env (\<lambda>_. 0)) [0x55] (V4 1 2) (fresh listen_config_default 7 9))\<lparr>l_pc := Checking\<rparr>"
proof -
  let ?env = "still_listen_env (\<lambda>_. 0)" and ?l = "fresh listen_config_default 7 9"
  have "handle ?env (take 1500 [0x55]) (V4 1 2) (?l\<lparr>l_pc := Checking\<rparr>) = (?l\<lparr>l_pc := Checking\<rparr>, Err (UnknownPacket 0x55 1))"
    by (simp add: handle_def handle_unconnected_def id_defs flag_defs)
  from block_until_expiry [OF this, of "V4 1 99" "[0x01]"] show ?thesis
    by (simp add: listen_config_default_def Let_def)
qed

text \<open>
  The block counter and the table of blocks are not updated together. When the collector
  runs between the two parts of \<open>block\<close>, the address ends up in the table with a counter of
  zero: it is not blocked, and the collector, which looks at the counter first, never removes it.
\<close>

theorem block_races_collector:
  assumes "l_blocks l = []" and "l_block_count l = 0" and "\<not> l_closed l"
  shows "let l' = block_insert env addr (fst (gc_blocks env (block_counted l))) in
    map_of (l_blocks l') (block_key addr) \<noteq> None \<and> \<not> is_blocked addr l' \<and> gc_blocks env' l' = (l', True)"
  using assms
  by (simp add: block_counted_def gc_blocks_def block_insert_def listener_now_def is_blocked_def Let_def)

theorem block_races_collector_witness:
  "\<not> is_blocked (V4 1 2) (block_insert (still_listen_env (\<lambda>_. 0)) (V4 1 2)
     (fst (gc_blocks (still_listen_env (\<lambda>_. 0)) (block_counted (listener_new listen_config_default 7 9)))))"
  using block_races_collector [of "listener_new listen_config_default 7 9"]
  by (simp add: listener_new_def Let_def)

text \<open>
  The reply to a second request is sent once. From then on the datagrams of the address go to
  its connection, which drops a repeated request without an answer and without an error: a
  client whose reply was lost repeats its request in vain.
\<close>

theorem request_2_answered_once:
  assumes "granted_request env addr l m" and "ocr2_write m = Ok data"
    and "map_of (l_connections l) addr = None" and "le_send_to env (l_reads l) = None"
    and "\<not> is_blocked addr l"
  shows "let l' = listen_received env data addr l; l'' = listen_received env data addr l' in
    length (l_out l') = length (l_out l) + 1 \<and> l_out l'' = l_out l'
    \<and> length (l_conns l'') = length (l_conns l') \<and> l_connections l'' = l_connections l'
    \<and> l_blocks l'' = l_blocks l'"
proof -
  let ?l' = "listen_received env data addr l" and ?k = "length (l_conns l)"
  have l': "length (l_conns ?l') = Suc ?k" "map_of (l_connections ?l') addr = Some ?k"
    "length (l_out ?l') = length (l_out l) + 1" "fixed_part ?l' = fixed_part l"
    using received_granted [OF assms] assms(3) by (auto simp: Let_def map_add_def)
  have unblocked: "\<not> is_blocked addr ?l'"
    using is_blocked_fixed [OF l'(4)] assms(5) by simp
  obtain body where data: "data = OPEN_CONNECTION_REQUEST_2 # body" using ocr2_write_bytes [OF assms(2)] by blast
  have ignored: "conn_receive env' listener_handler data conn =
      (conn\<lparr>c_reads := Suc (c_reads conn), c_last_activity := clock env' (c_reads conn)\<rparr>, Ok ())" for env' conn
    by (simp add: conn_receive_def read_clock_def data id_defs flag_defs Let_def)
  have "handle env data addr (?l'\<lparr>l_pc := Checking\<rparr>) =
      with_conn ?k (conn_receive (le_conn env ?k) listener_handler data) (?l'\<lparr>l_pc := Checking\<rparr>)"
    using l'(2) by (simp add: handle_def)
  moreover have "take 1500 data = data" "data \<noteq> []" using ocr2_write_bytes [OF assms(2)] by auto
  ultimately have "l_out (listen_received env data addr ?l') = l_out ?l'"
    "length (l_conns (listen_received env data addr ?l')) = length (l_conns ?l')"
    "l_connections (listen_received env data addr ?l') = l_connections ?l'"
    "l_blocks (listen_received env data addr ?l') = l_blocks ?l'"
    using unblocked by (simp_all add: listen_received_def with_conn_def ignored Let_def)
  with l' show ?thesis by (simp add: Let_def)
qed

theorem request_2_answered_once_witness:
  "\<exists>data. ocr2_write sample_request = Ok data
     \<and> length (l_out (listen_received (still_listen_env (\<lambda>_. 0x2a)) data (V4 1 2)
          (listen_received (still_listen_env (\<lambda>_. 0x2a)) data (V4 1 2) (fresh listen_config_default 7 9)))) = 1"
proof -
  obtain data where data: "ocr2_write sample_request = Ok data" using ocr2_write_Ok by blast
  from request_2_answered_once [OF sample_granted data, of "V4 1 2"] data show ?thesis
    by (auto simp: Let_def)
qed

text \<open>
  The timeout of a connection that was never established removes its address from the table
  whatever connection is there. A client that leaves and comes back within ten seconds loses its
  new connection: it stays open and is waited for, but its datagrams are no longer routed to it.
  The run is one a fresh listener can make.
\<close>

theorem stale_timeout_unlists:
  assumes "granted_request env addr (fresh config guid salt) m" and "ocr2_write m = Ok request"
    and "\<And>n. le_send_to env n = None"
  shows "let l1 = listen_received env request addr (fresh config guid salt);
             l2 = listen_received env goodbye addr (listen_check l1);
             l3 = listen_received env request addr (listen_check l2);
             l4 = wait_timeout 0 l3
         in listener_steps env (listener_new config guid salt) l4
            \<and> l_connections l3 = [(addr, 1)] \<and> l_connections l4 = []
            \<and> \<not> c_closed (l_conns l4 ! 1) \<and> l_waiting l4 = [1]"
proof -
  let ?l0 = "fresh config guid salt"
  define l1 where "l1 = listen_received env request addr ?l0"
  define l2 where "l2 = listen_received env goodbye addr (listen_check l1)"
  define l3 where "l3 = listen_received env request addr (listen_check l2)"
  have check: "l_conns (listen_check l) = l_conns l" "l_connections (listen_check l) = l_connections l"
    "l_waiting (listen_check l) = l_waiting l" "fixed_part (listen_check l) = fixed_part l"
    "is_blocked addr (listen_check l) = is_blocked addr l" for l
    by (simp_all add: listen_check_def fixed_part_def)
  have unblocked: "\<not> is_blocked addr l" if "fixed_part l = fixed_part ?l0" for l
    using is_blocked_fixed [OF that] by simp
  have open': "\<not> l_closed l" if "fixed_part l = fixed_part ?l0" for l
    using that by (simp add: fixed_part_def)
  obtain mtu now where s1: "l_conns l1 = [conn_new addr mtu now]" "l_connections l1 = [(addr, 0)]"
    "l_waiting l1 = [0]" "l_pc l1 = Checking" "fixed_part l1 = fixed_part ?l0"
    using received_granted [OF assms(1,2)] assms(3) by (auto simp: l1_def Let_def)
  obtain gone where s2: "c_closed gone" "c_remote_addr gone = addr" "l_conns l2 = [gone]" "l_connections l2 = []" "l_waiting l2 = [0]"
    "l_pc l2 = Checking" "fixed_part l2 = fixed_part ?l0"
    using received_goodbye [of "listen_check l1" addr 0 mtu now env] unblocked [of "listen_check l1"] s1
    by (auto simp: l2_def check Let_def)
  have "granted_request env addr (listen_check l2) m"
    using assms(1) granted_request_fixed [of "listen_check l2" ?l0 env addr m] s2 by (simp add: check)
  from received_granted [OF this assms(2)] s2 assms(3) unblocked [of "listen_check l2"]
  obtain mtu' now' where s3: "l_conns l3 = [gone, conn_new addr mtu' now']" "l_connections l3 = [(addr, 1)]"
    "l_waiting l3 = [0, 1]" "fixed_part l3 = fixed_part ?l0"
    by (auto simp: l3_def check Let_def)
  have steps: "listener_steps env (listener_new config guid salt) l3"
  proof -
    have step: "listener_steps env (listener_new config guid salt) (listen_received env d addr (listen_check l))"
      if "listener_steps env (listener_new config guid salt) l" and "l_pc l = Checking" and "\<not> l_closed l" for l d
      using that listener_step.Check [of l env] listener_step.Datagram [of "listen_check l" env d addr]
      by (auto simp: listen_check_def intro: rtranclp.rtrancl_into_rtrancl)
    have "listener_steps env (listener_new config guid salt) l1"
      unfolding l1_def fresh_def by (rule step) (simp_all add: listener_new_def)
    then have "listener_steps env (listener_new config guid salt) l2"
      unfolding l2_def using s1(4) open' [OF s1(5)] by (rule step)
    then show ?thesis unfolding l3_def using s2(6) open' [OF s2(7)] by (rule step)
  qed
  moreover have "listener_step env l3 (wait_timeout 0 l3)"
    by (rule listener_step.Wait_timeout) (simp add: s3)
  ultimately have "listener_steps env (listener_new config guid salt) (wait_timeout 0 l3)"
    by (rule rtranclp.rtrancl_into_rtrancl)
  moreover have "close_conn 0 (l3\<lparr>l_waiting := [1]\<rparr>) = l3\<lparr>l_waiting := [1]\<rparr>"
    using s2(1) s3 by (simp add: close_conn_def with_conn_def close_immediately_def)
  then have "l_connections (wait_timeout 0 l3) = AList.delete (c_remote_addr gone) [(addr, 1)]"
    "l_conns (wait_timeout 0 l3) = [gone, conn_new addr mtu' now']" "l_waiting (wait_timeout 0 l3) = [1]"
    using s3 by (simp_all add: wait_timeout_def Let_def)
  ultimately show ?thesis
    unfolding l1_def [symmetric] l2_def [symmetric] l3_def [symmetric] Let_def
    using s2(2) s3(2) by (simp add: conn_new_def)
qed

theorem stale_timeout_unlists_witness:
  "\<exists>request. ocr2_write sample_request = Ok request
     \<and> l_connections (wait_timeout 0
         (listen_received (still_listen_env (\<lambda>_. 0x2a)) request (V4 1 2) (listen_check
           (listen_received (still_listen_env (\<lambda>_. 0x2a)) goodbye (V4 1 2) (listen_check
             (listen_received (still_listen_env (\<lambda>_. 0x2a)) request (V4 1 2)
               (fresh listen_config_default 7 9))))))) = []"
proof -
  obtain request where request: "ocr2_write sample_request = Ok request" using ocr2_write_Ok by blast
  from stale_timeout_unlists [OF sample_granted request, of "V4 1 2"] request show ?thesis
    by (auto simp: Let_def)
qed

text \<open>
  C32. Closing the listener: in a reachable state every connection of the table is closed and the
  table is empty, a second call changes nothing, no connection is accepted any more, and the
  loop, if it is waiting for a datagram, handles at most one more before it returns.
\<close>

theorem shutdown_closes_all:
  assumes "listener_steps env (listener_new config guid salt) l" and "visits_all env" and "\<not> l_closed l"
  shows "let l' = listener_shutdown env l in
    l_connections l' = [] \<and> (\<forall>(addr, k) \<in> set (l_connections l). c_closed (l_conns l' ! k))
    \<and> listener_shutdown env l' = l' \<and> accept l' = (l', Some (Err ListenerClosed))
    \<and> l_pc (listen_check (listen_received env data addr l')) = Returned"
proof -
  let ?start = "l\<lparr>l_closed := True\<rparr>" and ?ks = "le_order env (map snd (l_connections l))"
  let ?l' = "listener_shutdown env l"
  have shutdown: "?l' = fold close_conn ?ks ?start" using assms(3) by (simp add: listener_shutdown_def Let_def)
  have ok: "listener_ok env ?start"
    using listener_steps_ok [OF assms(1) listener_ok_new assms(2)] listener_ok_live [of ?start l env]
    by (simp add: live_part_def)
  have ks: "set ?ks = snd ` set (l_connections l)" using assms(2) by (simp add: visits_all_def)
  have closed: "l_closed ?l'"
    unfolding shutdown using fixed_part_close_all [of ?ks ?start] by (simp add: fixed_part_def)
  have "\<forall>k \<in> set ?ks. k < length (l_conns ?start)
      \<and> (c_closed (l_conns ?start ! k) \<or> k \<in> snd ` set (l_connections ?start))"
  proof
    fix k
    assume "k \<in> set ?ks"
    then obtain a where "(a, k) \<in> set (l_connections ?start)" by (auto simp: ks)
    moreover from this have "k < length (l_conns ?start)"
      using ok unfolding listener_ok_def table_ok_def by blast
    ultimately show "k < length (l_conns ?start)
      \<and> (c_closed (l_conns ?start ! k) \<or> k \<in> snd ` set (l_connections ?start))" by (metis image_eqI snd_conv)
  qed
  from close_all_closes [OF ok this]
  have all: "\<forall>k \<in> set ?ks. c_closed (l_conns ?l' ! k)"
      "set (l_connections ?l') = {(a, k) \<in> set (l_connections l). k \<notin> set ?ks}"
    unfolding shutdown [symmetric] by simp_all
  have "p \<notin> set (l_connections ?l')" for p unfolding all(2) ks by (cases p) (auto intro: rev_image_eqI)
  then have "l_connections ?l' = []" by (metis list.set_intros(1) neq_Nil_conv)
  moreover have "l_closed (listen_received env data addr ?l')"
    using received_closed [of env data addr ?l'] closed by simp
  moreover have "c_closed (l_conns ?l' ! k)" if "(a, k) \<in> set (l_connections l)" for a k
    using all(1) that unfolding ks by (metis image_eqI snd_conv)
  moreover have "listener_shutdown env ?l' = ?l'" using closed by (subst listener_shutdown_def) simp
  moreover have "accept ?l' = (?l', Some (Err ListenerClosed))" using closed by (simp add: accept_def)
  ultimately show ?thesis
    by (simp add: listen_check_def Let_def) blast
qed

theorem shutdown_closes_all_witness:
  "accept (listener_shutdown (still_listen_env (\<lambda>_. 0)) (listener_new listen_config_default 7 9))
   = (listener_shutdown (still_listen_env (\<lambda>_. 0)) (listener_new listen_config_default 7 9),
      Some (Err ListenerClosed))"
  using shutdown_closes_all [OF rtranclp.rtrancl_refl, of "still_listen_env (\<lambda>_. 0)" listen_config_default 7 9]
  by (simp add: listener_new_def Let_def)

text \<open>
  Half of the salt is not used: the port takes the place of its two low bytes, so salts that agree
  in the upper sixteen bits give the same cookies.
\<close>

theorem half_salt_unused:
  assumes "drop_bit 16 salt = drop_bit 16 salt'"
  shows "listener_cookie env addr (listener_new config guid salt) = listener_cookie env addr (listener_new config guid salt')"
proof -
  have "drop_bit 24 salt = drop_bit 8 (drop_bit 16 salt)" "drop_bit 24 salt' = drop_bit 8 (drop_bit 16 salt')"
    by (simp_all add: drop_bit_drop_bit)
  with assms show ?thesis
    by (simp add: listener_cookie_def listener_new_def cookie_data_def to_le_def numeral_eq_Suc Let_def)
qed

theorem half_salt_unused_witness:
  "listener_cookie (still_listen_env (\<lambda>bs. sum_list (map ucast bs))) (V4 1 2) (listener_new listen_config_default 7 0xabcd0000)
     = listener_cookie (still_listen_env (\<lambda>bs. sum_list (map ucast bs))) (V4 1 2) (listener_new listen_config_default 7 0xabcdffff)"
  by (rule half_salt_unused) simp

end
