(* ===== verification/Dial.thy ===== *)
theory Dial
  imports Listener_Security
begin

text \<open>
  The dialer, \<open>src/dial.rs\<close>: the discovery of the MTU, the opening of the connection, the loop
  that feeds the connection, and the ping. The dialer works here on a socket whose sends
  and receptions come from an environment; \<open>Entry_Points\<close> puts the parts together, from the text of
  an address on.
\<close>

section \<open>State\<close>

record Dialer =
  dl_error_count :: u32
  dl_timeout :: duration

definition dialer_default :: Dialer where
  "dialer_default = \<lparr>dl_error_count = 10, dl_timeout = from_secs 10\<rparr>"

definition with_error_count :: "Dialer \<Rightarrow> u32 \<Rightarrow> Dialer" where
  "with_error_count self n = self\<lparr>dl_error_count := n\<rparr>"

definition with_timeout :: "Dialer \<Rightarrow> duration \<Rightarrow> Dialer" where
  "with_timeout self timeout = self\<lparr>dl_timeout := timeout\<rparr>"

text \<open>
  How a reception under a timeout ends: with a datagram, with an error of the socket, with the
  timeout of the attempt, or with the timeout the dialer sets around the whole phase, which drops
  the phase.
\<close>

datatype reception = Arrived bytes | Failed string | Elapsed | Cancelled

record dial_env =
  de_profile :: profile
  de_send :: "nat \<Rightarrow> string option"
  de_recv :: "nat \<Rightarrow> reception"

text \<open>What was sent, and how many calls of the socket there were.\<close>

record dial_state =
  ds_sent :: "bytes list"
  ds_io :: nat

definition dial_send :: "dial_env \<Rightarrow> bytes \<Rightarrow> dial_state \<Rightarrow> dial_state \<times> unit outcome" where
  "dial_send env data s =
     (let k = ds_io s; s = s\<lparr>ds_io := Suc k\<rparr>
      in case de_send env k of
           None \<Rightarrow> (s\<lparr>ds_sent := ds_sent s @ [data]\<rparr>, Ok ())
         | Some e \<Rightarrow> (s, Err (Io e)))"

text \<open>A datagram longer than the buffer of 1500 bytes is cut.\<close>

definition dial_recv :: "dial_env \<Rightarrow> dial_state \<Rightarrow> dial_state \<times> reception" where
  "dial_recv env s =
     (s\<lparr>ds_io := Suc (ds_io s)\<rparr>,
      case de_recv env (ds_io s) of Arrived data \<Rightarrow> Arrived (take 1500 data) | r \<Rightarrow> r)"

section \<open>Discovering the MTU\<close>

definition MTU_SIZES :: "u16 list" where "MTU_SIZES = [1492, 1200, 576]"

text \<open>
  What a reception means for an attempt: a result, an error that ends the phase, or \<open>None\<close>, the
  next attempt.
\<close>

definition discover_answer :: "reception \<Rightarrow> (u16 \<times> bool \<times> u32) option outcome" where
  "discover_answer r =
     (case r of
        Arrived (b # body) \<Rightarrow>
          if b = OPEN_CONNECTION_REPLY_1 then
            and_then (reply1_read body) (\<lambda>reply.
              if reply1_server_guid reply = 0 \<or> reply1_mtu reply < 400 \<or> reply1_mtu reply > 1500
              then Ok None
              else Ok (Some (reply1_mtu reply, reply1_server_has_security reply, reply1_cookie reply)))
          else if b = INCOMPATIBLE_PROTOCOL_VERSION then
            and_then (ipv_read body) (\<lambda>pk.
              Err (ProtocolMismatch PROTOCOL_VERSION (ipv_server_protocol pk)))
          else Ok None
      | Cancelled \<Rightarrow> Err Timeout
      | _ \<Rightarrow> Ok None)"

fun discover_attempts ::
  "dial_env \<Rightarrow> u16 list \<Rightarrow> dial_state \<Rightarrow> dial_state \<times> (u16 \<times> bool \<times> u32) outcome" where
  "discover_attempts env [] s = (s, Err Timeout)"
| "discover_attempts env (mtu # rest) s =
     and_then_st (s, ocr1_write (de_profile env) (ocr1_new PROTOCOL_VERSION mtu)) (\<lambda>s request.
     and_then_st (dial_send env request s) (\<lambda>s _.
       let (s, r) = dial_recv env s in
       and_then_st (s, discover_answer r) (\<lambda>s answer.
         case answer of
           Some result \<Rightarrow> (s, Ok result)
         | None \<Rightarrow> discover_attempts env rest s)))"

definition discover_mtu ::
  "dial_env \<Rightarrow> dial_state \<Rightarrow> dial_state \<times> (u16 \<times> bool \<times> u32) outcome" where
  "discover_mtu env s = discover_attempts env (concat (map (replicate 3) MTU_SIZES)) s"

section \<open>Opening the connection\<close>

definition open_request :: "SocketAddr \<Rightarrow> u64 \<Rightarrow> u16 \<Rightarrow> bool \<Rightarrow> u32 \<Rightarrow> OpenConnectionRequest2" where
  "open_request remote_addr client_guid mtu server_has_security cookie' =
     (if server_has_security then ocr2_with_security remote_addr mtu client_guid cookie'
      else ocr2_new remote_addr mtu client_guid)"

text \<open>\<open>None\<close> counts as an error.\<close>

definition open_answer :: "reception \<Rightarrow> u16 option outcome" where
  "open_answer r =
     (case r of
        Arrived (b # body) \<Rightarrow>
          if b = OPEN_CONNECTION_REPLY_2 then
            and_then (reply2_read body) (\<lambda>reply. Ok (Some (reply2_mtu reply)))
          else if b = INCOMPATIBLE_PROTOCOL_VERSION then
            and_then (ipv_read body) (\<lambda>pk.
              Err (ProtocolMismatch PROTOCOL_VERSION (ipv_server_protocol pk)))
          else Ok None
      | Cancelled \<Rightarrow> Err Timeout
      | _ \<Rightarrow> Ok None)"

text \<open>
  The loop returns as soon as the errors reach the configured count, a \<open>u32\<close>, so the count of
  errors does not overflow and is a number here.
\<close>

function open_loop ::
  "dial_env \<Rightarrow> u32 \<Rightarrow> OpenConnectionRequest2 \<Rightarrow> nat \<Rightarrow> dial_state \<Rightarrow> dial_state \<times> u16 outcome" where
  "open_loop env error_count request errors s =
     and_then_st (s, ocr2_write request) (\<lambda>s data.
     and_then_st (dial_send env data s) (\<lambda>s _.
       let (s, r) = dial_recv env s in
       and_then_st (s, open_answer r) (\<lambda>s answer.
         case answer of
           Some mtu \<Rightarrow> (s, Ok mtu)
         | None \<Rightarrow>
             if unat error_count \<le> errors + 1 then (s, Err Timeout)
             else open_loop env error_count request (errors + 1) s)))"
  by pat_completeness auto
termination
  by (relation "measure (\<lambda>(env, error_count, request, errors, s). unat error_count - errors)") auto

declare open_loop.simps [simp del]

definition open_connection ::
  "Dialer \<Rightarrow> dial_env \<Rightarrow> SocketAddr \<Rightarrow> u64 \<Rightarrow> u16 \<Rightarrow> bool \<Rightarrow> u32 \<Rightarrow> dial_state \<Rightarrow> dial_state \<times> u16 outcome" where
  "open_connection dialer env remote_addr client_guid mtu server_has_security cookie' s =
     open_loop env (dl_error_count dialer)
       (open_request remote_addr client_guid mtu server_has_security cookie') 0 s"

section \<open>Dialing\<close>

text \<open>The handshake on a connected socket.\<close>

definition dial_handshake ::
  "Dialer \<Rightarrow> dial_env \<Rightarrow> SocketAddr \<Rightarrow> u64 \<Rightarrow> dial_state \<Rightarrow> dial_state \<times> u16 outcome" where
  "dial_handshake dialer env remote_addr client_guid s =
     and_then_st (discover_mtu env s) (\<lambda>s (mtu, server_has_security, cookie).
       open_connection dialer env remote_addr client_guid mtu server_has_security cookie s)"

text \<open>The connection made of it, with its connection request.\<close>

definition dial_start :: "env \<Rightarrow> SocketAddr \<Rightarrow> u64 \<Rightarrow> u16 \<Rightarrow> instant \<Rightarrow> Conn \<times> unit outcome" where
  "dial_start env remote_addr client_guid mtu now =
     (let conn = conn_new remote_addr mtu now;
          (conn, t) = timestamp env conn
      in and_then_st (conn, connection_request_write (connection_request_new client_guid t))
           (\<lambda>conn request. send_message request conn))"

text \<open>
  The task that receives for the connection, on what happens to it: a datagram, an error of the
  socket, the cancellation. The result says whether the task has ended.
\<close>

datatype dial_event = Datagram bytes | Socket_error | Cancel_notified

fun dial_receive :: "env \<Rightarrow> dial_event list \<Rightarrow> Conn \<Rightarrow> Conn \<times> bool" where
  "dial_receive env [] conn = (conn, False)"
| "dial_receive env (Datagram data # events) conn =
     (let data = take 1500 data in
      if data = [] then dial_receive env events conn
      else case conn_receive env dialer_handler data conn of
             (conn, Ok _) \<Rightarrow> dial_receive env events conn
           | (conn, Err e) \<Rightarrow> (conn, True)
           | (conn, Panic) \<Rightarrow> (conn, True))"
| "dial_receive env (Socket_error # events) conn = (conn, True)"
| "dial_receive env (Cancel_notified # events) conn = (conn, True)"

text \<open>The end of \<open>dial_addr\<close>: whether the connection was established in time.\<close>

definition dial_finish :: "bool \<Rightarrow> Conn \<Rightarrow> Conn \<times> unit outcome" where
  "dial_finish timed_out conn =
     (if timed_out then (close_immediately dialer_close conn, Err Timeout) else (conn, Ok ()))"

section \<open>Pinging\<close>

definition ping_timeout :: "dial_env \<Rightarrow> i64 \<Rightarrow> i64 \<Rightarrow> dial_state \<Rightarrow> dial_state \<times> bytes outcome" where
  "ping_timeout env time client_guid s =
     and_then_st (s, unconnected_ping_write (unconnected_ping_new time client_guid)) (\<lambda>s ping.
     and_then_st (dial_send env ping s) (\<lambda>s _.
       let (s, r) = dial_recv env s in
       case r of
         Arrived (b # body) \<Rightarrow>
           if b = UNCONNECTED_PONG
           then and_then_st (s, unconnected_pong_read body) (\<lambda>s pong. (s, Ok (pong_data pong)))
           else (s, Err Timeout)
       | Arrived [] \<Rightarrow> (s, Err Timeout)
       | Failed e \<Rightarrow> (s, Err (Io e))
       | Elapsed \<Rightarrow> (s, Err Timeout)
       | Cancelled \<Rightarrow> (s, Err Timeout)))"

end
