(* ===== verification/Handshake.thy ===== *)
theory Handshake
  imports Dial
begin

text \<open>
  The dialer against the listener: the attempts are bounded, the two sides agree on the MTU when
  their datagrams arrive, and one malformed datagram ends the dialer's reception.
\<close>

section \<open>The listener's side of the first request\<close>

definition reply_1 :: "listen_env \<Rightarrow> SocketAddr \<Rightarrow> u16 \<Rightarrow> Listener \<Rightarrow> OpenConnectionReply1" where
  "reply_1 env addr mtu l =
     (if cfg_disable_cookies (l_config l) then reply1_new (l_id l) mtu
      else reply1_with_security (l_id l) (listener_cookie env addr l) mtu)"

lemma reply_1_wire: "reply1_wire (reply_1 env addr mtu l) = reply_1 env addr mtu l"
  by (simp add: reply1_wire_def reply_1_def reply1_new_def reply1_with_security_def)

lemma reply_1_fields:
  "reply1_server_guid (reply_1 env addr mtu l) = l_id l" "reply1_mtu (reply_1 env addr mtu l) = mtu"
  "reply1_server_has_security (reply_1 env addr mtu l) = (\<not> cfg_disable_cookies (l_config l))"
  "reply1_cookie (reply_1 env addr mtu l) = listener_cookie env addr l"
  by (simp_all add: reply_1_def reply1_new_def reply1_with_security_def listener_cookie_def)

lemma ocr1_bytes:
  assumes "46 \<le> unat (ocr1_mtu m)" and "ocr1_write prof m = Ok data"
  shows "\<exists>body. data = OPEN_CONNECTION_REQUEST_1 # body \<and> ocr1_read body = Ok m"
    and "length data = unat (ocr1_mtu m) - 28"
  using ocr1.dec_enc [OF assms(1), of prof] assms by (auto simp: ocr1_write_Ok)

lemma received_request_1:
  assumes "ocr1_write prof (ocr1_new PROTOCOL_VERSION mtu) = Ok data" and "46 \<le> unat mtu" and "mtu \<le> 1500"
    and "map_of (l_connections l) addr = None" and "le_send_to env (l_reads l) = None"
    and "\<not> is_blocked addr l"
  shows "\<exists>response. reply1_write (reply_1 env addr (min mtu MAX_MTU_SIZE) l) = Ok response
    \<and> listen_received env data addr l = l\<lparr>l_pc := Checking, l_reads := Suc (l_reads l),
        l_out := l_out l @ [(addr, response)]\<rparr>"
proof -
  obtain body where body: "data = OPEN_CONNECTION_REQUEST_1 # body"
    "ocr1_read body = Ok (ocr1_new PROTOCOL_VERSION mtu)" "length data = unat mtu - 28"
    using ocr1_bytes [OF _ assms(1)] assms(2) by (auto simp: ocr1_new_def)
  have "unat mtu \<le> 1500" using assms(3) by (simp add: word_le_nat_alt)
  then have data: "take 1500 data = data" "data \<noteq> []" using body by simp_all
  let ?l = "l\<lparr>l_pc := Checking\<rparr>"
  obtain response where w: "reply1_write (reply_1 env addr (min mtu MAX_MTU_SIZE) l) = Ok response"
    by (simp add: reply1_write_def)
  have "handle env data addr ?l = handle_open_connection_request_1 env body addr ?l"
    using assms(4) by (simp add: handle_def handle_unconnected_def body(1) id_defs)
  also have "\<dots> = send_to env response addr ?l"
    using w body(2)
    by (cases "cfg_disable_cookies (l_config l)")
      (simp_all add: handle_open_connection_request_1_def ocr1_new_def reply_1_def listener_cookie_def Let_def)
  also have "\<dots> = (?l\<lparr>l_reads := Suc (l_reads l), l_out := l_out l @ [(addr, response)]\<rparr>, Ok ())"
    using assms(5) by (simp add: send_to_def Let_def)
  finally show ?thesis using w data assms(6) by (simp add: listen_received_def Let_def)
qed

text \<open>What the dialer makes of the replies.\<close>

lemma discover_answer_reply:
  assumes "reply1_write (reply_1 env addr mtu l) = Ok response"
    and "l_id l \<noteq> 0" and "400 \<le> mtu" and "mtu \<le> 1500"
  shows "discover_answer (Arrived response) =
    Ok (Some (mtu, \<not> cfg_disable_cookies (l_config l), listener_cookie env addr l))"
proof -
  obtain body where "response = OPEN_CONNECTION_REPLY_1 # body"
    "reply1_read body = Ok (reply_1 env addr mtu l)"
    using reply1.dec_enc [of "reply_1 env addr mtu l"] assms(1) by (auto simp: reply_1_wire)
  then show ?thesis using assms(2-4) by (simp add: discover_answer_def reply_1_fields not_less)
qed

lemma open_answer_reply:
  assumes "reply2_write (reply2_new guid addr mtu) = Ok response"
  shows "open_answer (Arrived response) = Ok (Some mtu)"
proof -
  obtain body where "response = OPEN_CONNECTION_REPLY_2 # body"
    "reply2_read body = Ok (reply2_wire (reply2_new guid addr mtu))"
    using reply2.dec_enc [of "reply2_new guid addr mtu"] assms by auto
  then show ?thesis by (simp add: open_answer_def reply2_wire_def reply2_new_def)
qed

lemma reply1_length:
  "reply1_write m = Ok response \<Longrightarrow> length response \<le> 1500"
  by (auto simp: reply1_write_def)

lemma reply2_length:
  assumes "reply2_write m = Ok response"
  shows "length response \<le> 1500"
  using assms append_addr_Ok [of "replicate 29 0" "reply2_client_address m"
      "[OPEN_CONNECTION_REPLY_2] @ UNCONNECTED_MESSAGE_SEQUENCE @ to_be 8 (reply2_server_guid m)"]
    sizeof_addr_bounds [of "reply2_client_address m"]
  by (auto simp: reply2_write_def)

section \<open>The attempts of the dialer\<close>

lemma dial_send_sent:
  "dial_send env data s = (s', r) \<Longrightarrow> ds_sent s' = ds_sent s @ (if r = Ok () then [data] else [])"
  by (auto simp: dial_send_def Let_def split: option.splits)

lemma dial_send_no_panic: "snd (dial_send env data s) \<noteq> Panic"
  by (simp add: dial_send_def Let_def split: option.split)

lemma dial_recv_sent [simp]: "ds_sent (fst (dial_recv env s)) = ds_sent s"
  by (simp add: dial_recv_def)

lemma discover_answer_no_panic: "discover_answer r \<noteq> Panic"
  using reply1.dec_total ipv.dec_total
  by (auto simp: discover_answer_def and_then_eq_Panic split: reception.splits list.splits if_splits)

lemma open_answer_no_panic: "open_answer r \<noteq> Panic"
  using reply2.dec_total ipv.dec_total
  by (auto simp: open_answer_def and_then_eq_Panic split: reception.splits list.splits if_splits)

text \<open>
  What is sent: the first requests are those of a prefix of the schedule, the second ones are all
  the same, one per error and at least one.
\<close>

lemma discover_attempts_bounded:
  assumes "list_all (\<lambda>mtu. 46 \<le> unat mtu) mtus"
  shows "\<exists>ds. ds_sent (fst (discover_attempts env mtus s)) = ds_sent s @ ds \<and> length ds \<le> length mtus
    \<and> map Ok ds = map (\<lambda>mtu. ocr1_write (de_profile env) (ocr1_new PROTOCOL_VERSION mtu)) (take (length ds) mtus)
    \<and> snd (discover_attempts env mtus s) \<noteq> Panic"
  using assms
proof (induction mtus arbitrary: s)
  case Nil
  then show ?case by simp
next
  case (Cons mtu mtus)
  then obtain request where w: "ocr1_write (de_profile env) (ocr1_new PROTOCOL_VERSION mtu) = Ok request"
    using ocr1_write_Ok [of "ocr1_new PROTOCOL_VERSION mtu"] by (auto simp: ocr1_new_def)
  obtain s1 r1 where send: "dial_send env request s = (s1, r1)" by (cases "dial_send env request s")
  note s1 = dial_send_sent [OF send] dial_send_no_panic [of env request s, unfolded send snd_conv]
  obtain s2 r where recv: "dial_recv env s1 = (s2, r)" by (cases "dial_recv env s1")
  have s2: "ds_sent s2 = ds_sent s1" using dial_recv_sent [of env s1] recv by simp
  note run = w send recv discover_answer_no_panic [of r]
  show ?case
  proof (cases "r1 = Ok () \<and> discover_answer r = Ok None")
    case True
    obtain ds where ds: "ds_sent (fst (discover_attempts env mtus s2)) = ds_sent s2 @ ds" "length ds \<le> length mtus"
      "map Ok ds = map (\<lambda>mtu. ocr1_write (de_profile env) (ocr1_new PROTOCOL_VERSION mtu)) (take (length ds) mtus)"
      "snd (discover_attempts env mtus s2) \<noteq> Panic"
      using Cons by auto
    with True run s1 s2 show ?thesis by (intro exI [of _ "request # ds"]) simp
  next
    case answered: False
    show ?thesis
    proof (cases "r1 = Ok ()")
      case True
      with answered run s1 s2 show ?thesis
        by (intro exI [of _ "[request]"], cases "discover_answer r") (auto split: option.split)
    next
      case False
      with run s1 show ?thesis by (intro exI [of _ "[]"], cases r1) auto
    qed
  qed
qed

lemma open_loop_bounded:
  "\<exists>n \<le> max 1 (unat error_count - errors). \<exists>ds.
     ds_sent (fst (open_loop env error_count request errors s)) = ds_sent s @ ds
     \<and> map Ok ds = replicate n (ocr2_write request)
     \<and> snd (open_loop env error_count request errors s) \<noteq> Panic"
proof (induction "unat error_count - errors" arbitrary: errors s rule: less_induct)
  case less
  obtain data where w: "ocr2_write request = Ok data" using ocr2_write_Ok by blast
  obtain s1 r1 where send: "dial_send env data s = (s1, r1)" by (cases "dial_send env data s")
  note s1 = dial_send_sent [OF send] dial_send_no_panic [of env data s, unfolded send snd_conv]
  obtain s2 r where recv: "dial_recv env s1 = (s2, r)" by (cases "dial_recv env s1")
  have s2: "ds_sent s2 = ds_sent s1" using dial_recv_sent [of env s1] recv by simp
  note run = w send recv open_answer_no_panic [of r]
  show ?case
  proof (cases "r1 = Ok () \<and> open_answer r = Ok None \<and> \<not> unat error_count \<le> errors + 1")
    case True
    then obtain n ds where "n \<le> max 1 (unat error_count - (errors + 1))"
      "ds_sent (fst (open_loop env error_count request (errors + 1) s2)) = ds_sent s2 @ ds"
      "map Ok ds = replicate n (ocr2_write request)"
      "snd (open_loop env error_count request (errors + 1) s2) \<noteq> Panic"
      using less [of "errors + 1" s2] by force
    with True run s1 s2 show ?thesis
      by (subst (1 2) open_loop.simps, intro exI [of _ "Suc n"] conjI exI [of _ "data # ds"]) auto
  next
    case last: False
    show ?thesis
    proof (cases "r1 = Ok ()")
      case True
      with last run s1 s2 show ?thesis
        by (cases "open_answer r"; (subst (1 2) open_loop.simps, intro exI [of _ 1] conjI exI [of _ "[data]"]))
          (auto split: option.split)
    next
      case False
      with run s1 show ?thesis
        by (cases r1; (subst (1 2) open_loop.simps, intro exI [of _ 0] conjI exI [of _ "[]"])) auto
    qed
  qed
qed

text \<open>Attempts that stay without an answer.\<close>

abbreviation after_io :: "dial_state \<Rightarrow> bytes list \<Rightarrow> nat \<Rightarrow> dial_state" where
  "after_io s ds n \<equiv> s\<lparr>ds_sent := ds_sent s @ ds, ds_io := ds_io s + n\<rparr>"

lemma dial_send_Ok: "de_send env (ds_io s) = None \<Longrightarrow> dial_send env data s = (after_io s [data] 1, Ok ())"
  by (simp add: dial_send_def Let_def)

lemma discover_attempts_step:
  assumes "de_send env (ds_io s) = None" and "ocr1_write (de_profile env) (ocr1_new PROTOCOL_VERSION mtu) = Ok data"
    and "de_recv env (ds_io s + 1) = r" and "\<And>d. r = Arrived d \<Longrightarrow> length d \<le> 1500"
  shows "discover_attempts env (mtu # mtus) s =
    and_then_st (after_io s [data] 2, discover_answer r)
      (\<lambda>s answer. case answer of Some result \<Rightarrow> (s, Ok result) | None \<Rightarrow> discover_attempts env mtus s)"
proof -
  have "dial_recv env (after_io s [data] 1) = (after_io s [data] 2, r)"
    using assms(3,4) by (cases r) (simp_all add: dial_recv_def)
  then show ?thesis using assms(1,2) by (simp add: dial_send_Ok)
qed

lemma discover_attempts_skip:
  assumes "\<And>n. de_send env n = None" and "list_all (\<lambda>mtu. 46 \<le> unat mtu) mtus"
  shows "k \<le> length mtus \<Longrightarrow> \<forall>j < k. de_recv env (ds_io s + 2 * j + 1) = Elapsed \<Longrightarrow>
    \<exists>ds. length ds = k \<and> discover_attempts env mtus s = discover_attempts env (drop k mtus) (after_io s ds (2 * k))"
  using assms(2)
proof (induction k arbitrary: mtus s)
  case 0
  then show ?case by (intro exI [of _ "[]"]) simp
next
  case (Suc k)
  then obtain mtu rest where mtus: "mtus = mtu # rest" by (cases mtus) auto
  then obtain data where data: "ocr1_write (de_profile env) (ocr1_new PROTOCOL_VERSION mtu) = Ok data"
    using Suc.prems(3) ocr1_write_Ok [of "ocr1_new PROTOCOL_VERSION mtu"] by (auto simp: ocr1_new_def)
  let ?s = "after_io s [data] 2"
  have "de_recv env (ds_io s + 1) = Elapsed" using Suc.prems(2) by (metis add.right_neutral mult_0_right zero_less_Suc)
  then have "discover_attempts env mtus s = discover_attempts env rest ?s"
    using discover_attempts_step [OF assms(1) data, where r = Elapsed] unfolding mtus
    by (simp add: discover_answer_def)
  moreover have "\<forall>j < k. de_recv env (ds_io ?s + 2 * j + 1) = Elapsed"
  proof (intro allI impI)
    fix j
    assume "j < k"
    then have "de_recv env (ds_io s + 2 * Suc j + 1) = Elapsed" using Suc.prems(2) by blast
    then show "de_recv env (ds_io ?s + 2 * j + 1) = Elapsed" by (simp add: add.commute add.left_commute)
  qed
  from Suc.IH [OF _ this] Suc.prems mtus obtain ds where
    "length ds = k" "discover_attempts env rest ?s = discover_attempts env (drop k rest) (after_io ?s ds (2 * k))"
    by auto
  ultimately show ?case unfolding mtus by (intro exI [of _ "data # ds"]) simp
qed

lemma open_loop_answered:
  assumes "de_send env (ds_io s) = None" and "ocr2_write request = Ok data"
    and "de_recv env (ds_io s + 1) = Arrived d" and "length d \<le> 1500"
    and "open_answer (Arrived d) = Ok (Some mtu)"
  shows "open_loop env error_count request errors s = (after_io s [data] 2, Ok mtu)"
proof -
  have "dial_recv env (after_io s [data] 1) = (after_io s [data] 2, Arrived d)"
    using assms(3,4) by (simp add: dial_recv_def)
  then show ?thesis using assms(1,2,5) by (subst open_loop.simps) (simp add: dial_send_Ok)
qed

lemma attempts_facts:
  "length (concat (map (replicate 3) MTU_SIZES)) = 9"
  "list_all (\<lambda>mtu. 46 \<le> unat mtu \<and> 400 \<le> mtu \<and> mtu \<le> 1492) (concat (map (replicate 3) MTU_SIZES))"
  by (simp_all add: MTU_SIZES_def numeral_3_eq_3)

section \<open>Both sides\<close>

lemma handshake_run:
  assumes "map_of (l_connections l) addr = None" and "\<not> is_blocked addr l" and "l_id l \<noteq> 0"
    and "\<And>n. le_send_to env n = None" and "k < 9"
    and "mtu = concat (map (replicate 3) MTU_SIZES) ! k"
  shows "\<exists>d1 d2 r1 r2 now.
    (let l1 = listen_received env d1 addr l; l2 = listen_received env d2 addr l1 in
      l_out l2 = l_out l @ [(addr, r1), (addr, r2)]
      \<and> l_conns l2 = l_conns l @ [conn_new addr mtu now]
      \<and> map_of (l_connections l2) addr = Some (length (l_conns l))
      \<and> l_waiting l2 = l_waiting l @ [length (l_conns l)] \<and> l_incoming l2 = l_incoming l
      \<and> fixed_part l2 = fixed_part l)
    \<and> c_mtu (conn_new addr mtu now) = mtu
    \<and> (\<forall>denv s. (\<forall>n. de_send denv n = None) \<and> (\<forall>j < k. de_recv denv (ds_io s + 2 * j + 1) = Elapsed)
        \<and> de_recv denv (ds_io s + 2 * k + 1) = Arrived r1 \<and> de_recv denv (ds_io s + 2 * k + 3) = Arrived r2 \<longrightarrow>
        (\<exists>unanswered s'. length unanswered = k \<and> dial_handshake dialer denv remote guid s = (s', Ok mtu)
           \<and> ds_sent s' = ds_sent s @ unanswered @ [d1, d2]))"
proof -
  let ?mtus = "concat (map (replicate 3) MTU_SIZES)"
  have "mtu \<in> set ?mtus" using nth_mem [of k ?mtus] assms(5,6) attempts_facts(1) by metis
  then have mtu: "46 \<le> unat mtu" "400 \<le> mtu" "mtu \<le> 1492"
    using attempts_facts(2) unfolding list_all_iff by blast+
  then have mtu': "mtu \<le> 1500" "min mtu MAX_MTU_SIZE = mtu"
    by (simp_all add: MAX_MTU_SIZE_def min_def order_trans [of mtu 1492])
  let ?req = "ocr1_new PROTOCOL_VERSION mtu"
  have profs: "ocr1_write prof ?req = ocr1_write Release ?req" for prof
    using mtu(1) by (simp add: ocr1_write_Ok ocr1_new_def)
  obtain d1 where d1: "ocr1_write Release ?req = Ok d1"
    using mtu(1) ocr1_write_Ok [of ?req] by (auto simp: ocr1_new_def)
  obtain r1 where r1: "reply1_write (reply_1 env addr mtu l) = Ok r1"
    "listen_received env d1 addr l = l\<lparr>l_pc := Checking, l_reads := Suc (l_reads l), l_out := l_out l @ [(addr, r1)]\<rparr>"
    using received_request_1 [OF d1 mtu(1) mtu'(1) assms(1,4,2)] unfolding mtu'(2) by blast
  let ?l1 = "listen_received env d1 addr l"
  let ?security = "\<not> cfg_disable_cookies (l_config l)" and ?cookie = "listener_cookie env addr l"
  let ?m = "open_request remote guid mtu ?security ?cookie"
  obtain d2 where d2: "ocr2_write ?m = Ok d2" using ocr2_write_Ok by blast
  have l1: "l_conns ?l1 = l_conns l" "l_connections ?l1 = l_connections l" "l_id ?l1 = l_id l"
    "l_out ?l1 = l_out l @ [(addr, r1)]" "l_waiting ?l1 = l_waiting l" "l_incoming ?l1 = l_incoming l" "fixed_part ?l1 = fixed_part l"
    unfolding r1(2) by (simp_all add: fixed_part_def)
  have m: "ocr2_mtu ?m = mtu" by (simp add: open_request_def ocr2_with_security_def ocr2_new_def)
  have "granted_request env addr l ?m"
    by (simp add: granted_request_def open_request_def ocr2_with_security_def ocr2_new_def)
  then have g: "granted_request env addr ?l1 ?m" using granted_request_fixed [OF l1(7)] by simp
  have "\<not> is_blocked addr ?l1" using is_blocked_fixed [OF l1(7)] assms(2) by simp
  from received_granted [OF g d2 _ assms(4) this] assms(1)
  obtain r2 now where r2: "reply2_write (reply2_new (l_id l) addr mtu) = Ok r2"
    and l2: "l_conns (listen_received env d2 addr ?l1) = l_conns l @ [conn_new addr mtu now]"
      "l_connections (listen_received env d2 addr ?l1) = l_connections l @ [(addr, length (l_conns l))]"
      "l_out (listen_received env d2 addr ?l1) = l_out l @ [(addr, r1), (addr, r2)]"
      "l_waiting (listen_received env d2 addr ?l1) = l_waiting l @ [length (l_conns l)]"
      "l_incoming (listen_received env d2 addr ?l1) = l_incoming l"
      "fixed_part (listen_received env d2 addr ?l1) = fixed_part l"
    unfolding l1 m mtu'(2) by (auto simp: Let_def)
  have "c_mtu (conn_new addr mtu now) = mtu"
    using mtu by (simp add: conn_new_def clamp_mtu_def MIN_MTU_SIZE_def MAX_MTU_SIZE_def max_def min_def)
  moreover have "\<exists>unanswered s'. length unanswered = k \<and> dial_handshake dialer denv remote guid s = (s', Ok mtu)
      \<and> ds_sent s' = ds_sent s @ unanswered @ [d1, d2]"
    if send: "\<And>n. de_send denv n = None" and unanswered: "\<forall>j < k. de_recv denv (ds_io s + 2 * j + 1) = Elapsed"
      and a1: "de_recv denv (ds_io s + 2 * k + 1) = Arrived r1" and a2: "de_recv denv (ds_io s + 2 * k + 3) = Arrived r2"
    for denv s
  proof -
    have all: "list_all (\<lambda>mtu. 46 \<le> unat mtu) ?mtus" using attempts_facts(2) by (simp add: list_all_iff)
    obtain ds where ds: "length ds = k" "discover_mtu denv s = discover_attempts denv (drop k ?mtus) (after_io s ds (2 * k))"
      using discover_attempts_skip [OF send all _ unanswered] assms(5) attempts_facts(1)
      unfolding discover_mtu_def by auto
    let ?s = "after_io s ds (2 * k)"
    have drop: "drop k ?mtus = mtu # drop (Suc k) ?mtus"
      using assms(5,6) attempts_facts(1) by (metis Cons_nth_drop_Suc)
    have answer: "discover_answer (Arrived r1) = Ok (Some (mtu, ?security, ?cookie))"
      using discover_answer_reply [OF r1(1) assms(3) mtu(2) mtu'(1)] .
    have found: "discover_mtu denv s = (after_io ?s [d1] 2, Ok (mtu, ?security, ?cookie))"
      using discover_attempts_step [of denv ?s mtu d1 "Arrived r1" "drop (Suc k) ?mtus"] send a1 d1 profs
        reply1_length [OF r1(1)] answer ds(2) drop by (simp add: add.assoc)
    let ?s1 = "after_io ?s [d1] 2"
    have "de_recv denv (ds_io ?s1 + 1) = Arrived r2" using a2 by (simp add: numeral_3_eq_3)
    from open_loop_answered [OF send d2 this reply2_length [OF r2] open_answer_reply [OF r2]]
    have "open_connection dialer denv remote guid mtu ?security ?cookie ?s1 = (after_io ?s1 [d2] 2, Ok mtu)"
      by (simp only: open_connection_def)
    with found ds(1) show ?thesis
      by (intro exI [of _ ds] exI [of _ "after_io ?s1 [d2] 2"]) (simp add: dial_handshake_def)
  qed
  ultimately show ?thesis
    using l2 assms(1)
    by (intro exI [of _ d1] exI [of _ d2] exI [of _ r1] exI [of _ r2] exI [of _ now])
      (simp add: Let_def map_add_def)
qed

lemma dial_handshake_bounded:
  "\<exists>firsts seconds mtu security cookie.
     ds_sent (fst (dial_handshake dialer env addr guid s)) = ds_sent s @ firsts @ seconds
     \<and> length firsts \<le> 9 \<and> length seconds \<le> max 1 (unat (dl_error_count dialer))
     \<and> map Ok firsts = map (\<lambda>mtu. ocr1_write (de_profile env) (ocr1_new PROTOCOL_VERSION mtu))
                           (take (length firsts) (concat (map (replicate 3) MTU_SIZES)))
     \<and> map Ok seconds = replicate (length seconds) (ocr2_write (open_request addr guid mtu security cookie))
     \<and> snd (dial_handshake dialer env addr guid s) \<noteq> Panic"
proof -
  have "list_all (\<lambda>mtu. 46 \<le> unat mtu) (concat (map (replicate 3) MTU_SIZES))"
    using attempts_facts(2) by (simp add: list_all_iff)
  from discover_attempts_bounded [OF this, of env s] obtain firsts where
    firsts: "ds_sent (fst (discover_mtu env s)) = ds_sent s @ firsts" "length firsts \<le> 9"
      "map Ok firsts = map (\<lambda>mtu. ocr1_write (de_profile env) (ocr1_new PROTOCOL_VERSION mtu))
                           (take (length firsts) (concat (map (replicate 3) MTU_SIZES)))"
      "snd (discover_mtu env s) \<noteq> Panic"
    unfolding discover_mtu_def attempts_facts(1) by blast
  obtain s1 r where d: "discover_mtu env s = (s1, r)" by (cases "discover_mtu env s")
  show ?thesis
  proof (cases r)
    case (Ok found)
    obtain mtu security cookie where found: "found = (mtu, security, cookie)" by (cases found)
    obtain n seconds where
      "n \<le> max 1 (unat (dl_error_count dialer))"
      "ds_sent (fst (open_connection dialer env addr guid mtu security cookie s1)) = ds_sent s1 @ seconds"
      "map Ok seconds = replicate n (ocr2_write (open_request addr guid mtu security cookie))"
      "snd (open_connection dialer env addr guid mtu security cookie s1) \<noteq> Panic"
      using open_loop_bounded [of "dl_error_count dialer" 0] unfolding open_connection_def by force
    moreover from this(3) have "length seconds = n" by (metis length_map length_replicate)
    ultimately show ?thesis
      using firsts d Ok found
      by (intro exI [of _ firsts] exI [of _ seconds] exI [of _ mtu] exI [of _ security] exI [of _ cookie])
        (simp add: dial_handshake_def)
  next
    case (Err e)
    with firsts d show ?thesis by (intro exI [of _ firsts] exI [of _ "[]"]) (simp add: dial_handshake_def)
  next
    case Panic
    with firsts d show ?thesis by simp
  qed
qed

section \<open>Properties\<close>

text \<open>
  C33. Dialing ends: whatever the network does, the handshake panics in neither profile. What it
  sends is at most nine first requests, those at the front of the schedule of three attempts per MTU
  size, and then the same second request again and again: as often as the configured error count
  at most, and once when that count is zero.
\<close>

theorem dialing_is_bounded:
  "\<exists>firsts seconds mtu security cookie.
     ds_sent (fst (dial_handshake dialer env addr guid s)) = ds_sent s @ firsts @ seconds
     \<and> length firsts \<le> 9 \<and> length seconds \<le> max 1 (unat (dl_error_count dialer))
     \<and> map Ok firsts = map (\<lambda>mtu. ocr1_write (de_profile env) (ocr1_new PROTOCOL_VERSION mtu))
                           (take (length firsts) (concat (map (replicate 3) MTU_SIZES)))
     \<and> map Ok seconds = replicate (length seconds) (ocr2_write (open_request addr guid mtu security cookie))
     \<and> snd (dial_handshake dialer env addr guid s) \<noteq> Panic"
  by (rule dial_handshake_bounded)

text \<open>
  C10. The two sides agree. Suppose the dialer's first \<open>k\<close> requests get no answer and the next one,
  of the size its schedule says, reaches a listener with which the address has no business yet;
  the replies come back. Then the listener answers both requests and registers a connection with
  that MTU, and the dialer's handshake succeeds with the same MTU, having sent those requests.
\<close>

theorem handshake_agrees:
  assumes "map_of (l_connections l) addr = None" and "\<not> is_blocked addr l" and "l_id l \<noteq> 0"
    and "\<And>n. le_send_to env n = None" and "k < 9"
    and "mtu = concat (map (replicate 3) MTU_SIZES) ! k"
  shows "\<exists>d1 d2 r1 r2 now.
    (let l1 = listen_received env d1 addr l; l2 = listen_received env d2 addr l1 in
      l_out l2 = l_out l @ [(addr, r1), (addr, r2)]
      \<and> l_conns l2 = l_conns l @ [conn_new addr mtu now]
      \<and> map_of (l_connections l2) addr = Some (length (l_conns l)))
    \<and> c_mtu (conn_new addr mtu now) = mtu
    \<and> (\<forall>denv s. (\<forall>n. de_send denv n = None) \<and> (\<forall>j < k. de_recv denv (ds_io s + 2 * j + 1) = Elapsed)
        \<and> de_recv denv (ds_io s + 2 * k + 1) = Arrived r1 \<and> de_recv denv (ds_io s + 2 * k + 3) = Arrived r2 \<longrightarrow>
        (\<exists>unanswered s'. length unanswered = k \<and> dial_handshake dialer denv remote guid s = (s', Ok mtu)
           \<and> ds_sent s' = ds_sent s @ unanswered @ [d1, d2]))"
  using handshake_run [OF assms, of dialer remote guid] unfolding Let_def by blast

theorem handshake_agrees_witness:
  "\<exists>denv s'. dial_handshake dialer_default denv (V4 9 10) 5 \<lparr>ds_sent = [], ds_io = 0\<rparr> = (s', Ok 1492)
     \<and> length (ds_sent s') = 2"
proof -
  let ?l = "fresh listen_config_default 7 9" and ?env = "still_listen_env (\<lambda>_. 0x2a)"
  have "l_id ?l \<noteq> 0" by (simp add: fresh_def listen_check_def listener_new_def)
  with handshake_agrees [where l = ?l and addr = "V4 1 2" and env = ?env and k = 0 and mtu = 1492
      and remote = "V4 9 10" and guid = 5 and dialer = dialer_default]
  obtain d1 d2 r1 r2 where h: "\<And>denv s. (\<forall>n. de_send denv n = None) \<Longrightarrow>
      de_recv denv (ds_io s + 1) = Arrived r1 \<Longrightarrow> de_recv denv (ds_io s + 3) = Arrived r2 \<Longrightarrow>
      \<exists>s'. dial_handshake dialer_default denv (V4 9 10) 5 s = (s', Ok 1492) \<and> ds_sent s' = ds_sent s @ [d1, d2]"
    by (simp add: MTU_SIZES_def numeral_3_eq_3) metis
  let ?denv = "\<lparr>de_profile = Debug, de_send = (\<lambda>_. None),
    de_recv = (\<lambda>n. if n = 1 then Arrived r1 else Arrived r2)\<rparr>"
  from h [of ?denv "\<lparr>ds_sent = [], ds_io = 0\<rparr>"] show ?thesis by (auto intro!: exI [of _ ?denv])
qed

text \<open>
  One datagram ends the dialer's reception. The first error of \<open>receive\<close>, for which a datagram
  of the single byte \<open>0x84\<close> is enough, ends the task that receives: nothing that arrives later is
  processed, while the connection stays open.
\<close>

theorem one_datagram_ends_reception:
  "dial_receive env (Datagram [0x84] # events) conn =
     (conn\<lparr>c_reads := Suc (c_reads conn), c_last_activity := clock env (c_reads conn)\<rparr>, True)"
  by (simp add: conn_receive_def read_clock_def receive_datagram_def flag_defs Let_def)

end
