(* ===== verification/Ack_Sending.thy ===== *)
theory Ack_Sending
  imports Conn_Life
begin

text \<open>
  What \<open>send_acknowledgement\<close> of \<open>src/conn.rs\<close> tells the peer: the numbers the datagrams it sends
  decode to. A list that is in ascending order is cut into consecutive parts, one per datagram, and
  the peer reads back each part of at most 8192 numbers; it refuses a part of more than 8193, which a
  long enough run of consecutive numbers is. A list that is not in ascending order is told completely
  only as long as it fits one datagram.
\<close>

unbundle bit_operations_syntax

text \<open>What the peer's reader makes of a datagram, without its first byte.\<close>

definition decode_ack :: "bytes \<Rightarrow> Uint24 list" where
  "decode_ack d = fst (ack_read Release [] (tl d))"

text \<open>What the peer makes of a datagram that holds the numbers \<open>part\<close>, in either profile.\<close>

definition tells :: "bytes \<Rightarrow> Uint24 list \<Rightarrow> bool" where
  "tells d part \<longleftrightarrow>
     (length part \<le> 8192 \<longrightarrow> (\<forall>prof. ack_read prof [] (tl d) = (part, Ok ())))
     \<and> (8193 < length part \<longrightarrow> (\<forall>prof. snd (ack_read prof [] (tl d)) = Err MaxAcknowledgement))"

lemma tells_decode: "tells d part \<Longrightarrow> length part \<le> 8192 \<Longrightarrow> decode_ack d = part"
  by (simp add: tells_def decode_ack_def)

text \<open>What one datagram of the loop holds.\<close>

lemma write_to_buf_tells:
  assumes "7 \<le> mtu" and "list_all u24_ok packets" and "packets \<noteq> []"
  shows "\<exists>d n. write_to_buf prof packets [flag] mtu = Ok (d, n) \<and> 1 \<le> n \<and> n \<le> length packets
    \<and> hd d = flag \<and> tells d (take n (sort packets))
    \<and> (\<exists>rs. run_lists rs = take n (sort packets) \<and> list_all run_ok rs \<and> 4 * length rs < unat mtu + 5)"
proof -
  obtain rs n where
    w: "write_to_buf prof packets [flag] mtu = Ok ([flag] @ to_be 2 (of_nat (length rs) :: u16) @ enc_records rs, n)"
    and rs: "list_all run_ok rs" "run_lists rs = take n (sort packets)" "length rs < 2 ^ 16"
    and n: "1 \<le> n" "n \<le> length packets" and len: "length (enc_records rs) < unat mtu + 5"
    using write_to_buf_ok [OF assms, of prof "[flag]"] by blast
  have "tells ([flag] @ to_be 2 (of_nat (length rs) :: u16) @ enc_records rs) (run_lists rs)"
    using ack_read_records [OF rs(1) _ rs(3), of _ "[]"] ack_read_refused [OF rs(1) _ rs(3)]
    by (simp add: tells_def)
  moreover have "4 * length rs < unat mtu + 5" using length_enc_records_ge [of rs] len by linarith
  ultimately show ?thesis using w rs n by (intro exI [of _ "[flag] @ to_be 2 (of_nat (length rs) :: u16) @ enc_records rs"] exI [of _ n]) auto
qed

lemma chan_send_ok:
  "(\<And>es. send_ok env es) \<Longrightarrow> chan_send env d conn = (emit (Sent d) conn, Ok ())"
  by (simp add: chan_send_def)

text \<open>The loop: how much of the list is taken per datagram is \<open>n\<close>, what is dropped are the first \<open>n\<close>.\<close>

lemma send_ack_loop_step:
  assumes "\<And>es. send_ok env es" and "7 \<le> effective_mtu conn" and "list_all u24_ok packets"
    and "packets \<noteq> []"
  obtains d n where "send_ack_loop env flag packets buf conn =
        send_ack_loop env flag (drop n packets) d (emit (Sent d) conn)"
    and "1 \<le> n" and "n \<le> length packets" and "hd d = flag OR BIT_FLAG_DATAGRAM"
    and "tells d (take n (sort packets))"
    and "\<exists>rs. run_lists rs = take n (sort packets) \<and> list_all run_ok rs
      \<and> 4 * length rs < unat (effective_mtu conn) + 5"
proof -
  obtain d n where dn: "write_to_buf (env_profile env) packets [flag OR BIT_FLAG_DATAGRAM] (effective_mtu conn) = Ok (d, n)"
    "1 \<le> n" "n \<le> length packets" "hd d = flag OR BIT_FLAG_DATAGRAM" "tells d (take n (sort packets))"
    "\<exists>rs. run_lists rs = take n (sort packets) \<and> list_all run_ok rs
      \<and> 4 * length rs < unat (effective_mtu conn) + 5"
    using write_to_buf_tells [OF assms(2-4)] by blast
  have "send_ack_loop env flag packets buf conn =
      send_ack_loop env flag (drop n packets) d (emit (Sent d) conn)"
    using dn assms(4) chan_send_ok [OF assms(1)] by (subst send_ack_loop.simps) simp
  with dn show ?thesis using that by blast
qed

lemma effective_mtu_emit [simp]: "effective_mtu (emit e conn) = effective_mtu conn"
  by (simp add: effective_mtu_def emit_def)

lemma log_emit [simp]: "c_log (emit e conn) = c_log conn @ [e]"
  by (simp add: emit_def)

text \<open>A list in ascending order: each datagram holds the next part of it.\<close>

definition announces :: "u8 \<Rightarrow> bytes list \<Rightarrow> Uint24 list \<Rightarrow> bool" where
  "announces flag ds packets \<longleftrightarrow>
     (\<exists>parts. concat parts = packets
       \<and> list_all2 (\<lambda>d part. hd d = flag OR BIT_FLAG_DATAGRAM \<and> part \<noteq> [] \<and> tells d part) ds parts)"

lemma announces_Nil [simp]: "announces flag [] []"
  by (simp add: announces_def)

lemma announces_Cons:
  assumes "hd d = flag OR BIT_FLAG_DATAGRAM" and "part \<noteq> []" and "tells d part" and "announces flag ds packets"
  shows "announces flag (d # ds) (part @ packets)"
proof -
  obtain parts where "concat parts = packets"
    "list_all2 (\<lambda>d part. hd d = flag OR BIT_FLAG_DATAGRAM \<and> part \<noteq> [] \<and> tells d part) ds parts"
    using assms(4) by (auto simp: announces_def)
  with assms(1-3) show ?thesis unfolding announces_def by (intro exI [of _ "part # parts"]) simp
qed

lemma announces_decode:
  assumes "announces flag ds packets" and "length packets \<le> 8192"
  shows "concat (map decode_ack ds) = packets"
proof -
  obtain parts where "concat parts = packets"
    "list_all2 (\<lambda>d part. hd d = flag OR BIT_FLAG_DATAGRAM \<and> part \<noteq> [] \<and> tells d part) ds parts"
    using assms(1) by (auto simp: announces_def)
  with assms(2) show ?thesis
  proof (induction parts arbitrary: ds packets)
    case (Cons part parts)
    then obtain d ds' where "ds = d # ds'" "tells d part"
      "list_all2 (\<lambda>d part. hd d = flag OR BIT_FLAG_DATAGRAM \<and> part \<noteq> [] \<and> tells d part) ds' parts"
      by (auto simp: list_all2_Cons2)
    with Cons show ?case using tells_decode [of d part] by auto
  qed simp
qed

lemma send_ack_loop_sorted:
  assumes "\<And>es. send_ok env es" and "7 \<le> effective_mtu conn" and "list_all u24_ok packets"
    and "sorted packets"
  shows "\<exists>ds. c_log (fst (send_ack_loop env flag packets buf conn)) = c_log conn @ map Sent ds
    \<and> announces flag ds packets"
  using assms(2-)
proof (induction "length packets" arbitrary: packets buf conn rule: less_induct)
  case less
  show ?case
  proof (cases "packets = []")
    case True
    then show ?thesis by (subst send_ack_loop.simps) (simp add: exI [of _ "[]"])
  next
    case False
    have sorted: "sort packets = packets" using less.prems(3) by (rule sorted_sort_id)
    obtain d n where step: "send_ack_loop env flag packets buf conn =
        send_ack_loop env flag (drop n packets) d (emit (Sent d) conn)"
      and n: "1 \<le> n" "n \<le> length packets" and d: "hd d = flag OR BIT_FLAG_DATAGRAM" "tells d (take n packets)"
      using send_ack_loop_step [OF assms(1) less.prems(1,2) False, where flag = flag and buf = buf] unfolding sorted
      by blast
    have rest: "list_all u24_ok (drop n packets)"
      using less.prems(2) by (auto simp: list_all_iff dest: in_set_dropD)
    obtain ds where ds: "c_log (fst (send_ack_loop env flag (drop n packets) d (emit (Sent d) conn)))
        = c_log (emit (Sent d) conn) @ map Sent ds" "announces flag ds (drop n packets)"
      using less.hyps [of "drop n packets" "emit (Sent d) conn" d] n rest less.prems False
      by (auto simp: sorted_wrt_drop)
    have "take n packets \<noteq> []" using n False by simp
    from announces_Cons [OF d(1) this d(2) ds(2)] step ds(1) show ?thesis
      by (intro exI [of _ "d # ds"]) simp
  qed
qed

text \<open>Whatever the order, only numbers of the list are sent.\<close>

lemma send_ack_loop_only:
  assumes "\<And>es. send_ok env es" and "7 \<le> effective_mtu conn" and "list_all u24_ok packets"
    and "length packets \<le> 8192"
  shows "\<exists>ds. c_log (fst (send_ack_loop env flag packets buf conn)) = c_log conn @ map Sent ds
    \<and> set (concat (map decode_ack ds)) \<subseteq> set packets"
  using assms(2-)
proof (induction "length packets" arbitrary: packets buf conn rule: less_induct)
  case less
  show ?case
  proof (cases "packets = []")
    case True
    then show ?thesis by (subst send_ack_loop.simps) (simp add: exI [of _ "[]"])
  next
    case False
    obtain d n where step: "send_ack_loop env flag packets buf conn =
        send_ack_loop env flag (drop n packets) d (emit (Sent d) conn)"
      and n: "1 \<le> n" "n \<le> length packets" and d: "tells d (take n (sort packets))"
      using send_ack_loop_step [OF assms(1) less.prems(1,2) False, where flag = flag and buf = buf] by blast
    have "decode_ack d = take n (sort packets)" using tells_decode [OF d] n less.prems(3) by simp
    have rest: "list_all u24_ok (drop n packets)"
      using less.prems(2) by (auto simp: list_all_iff dest: in_set_dropD)
    have "length packets - n \<le> 8192" using less.prems by linarith
    have "set (decode_ack d) \<subseteq> set packets" using \<open>decode_ack d = _\<close> set_take_subset [of n "sort packets"] by simp
    moreover obtain ds where "c_log (fst (send_ack_loop env flag (drop n packets) d (emit (Sent d) conn)))
        = c_log (emit (Sent d) conn) @ map Sent ds"
      "set (concat (map decode_ack ds)) \<subseteq> set (drop n packets)"
      using less.hyps [of "drop n packets" "emit (Sent d) conn" d] n rest \<open>length packets - n \<le> 8192\<close> less.prems False
      by auto
    ultimately show ?thesis
      using step set_drop_subset [of n packets] by (intro exI [of _ "d # ds"]) auto
  qed
qed

text \<open>A datagram holds one number per four bytes when no two numbers are adjacent.\<close>

lemma runs_of_isolated:
  assumes "list_all run_ok rs" and "\<And>a b. a \<in> set (run_lists rs) \<Longrightarrow> b \<in> set (run_lists rs) \<Longrightarrow> u24 b \<noteq> u24 a + 1"
  shows "length (run_lists rs) \<le> length rs"
  using assms
proof (induction rs)
  case (Cons r rs)
  have r: "run_ok r" using Cons.prems by simp
  have "length (run_list r) \<le> 1"
  proof (rule ccontr)
    assume "\<not> length (run_list r) \<le> 1"
    then have lt: "unat (u24 (fst r)) < unat (u24 (snd r))" using length_run_list [OF r] by simp
    have bound: "unat (u24 (snd r)) < 2 ^ 24" using r by (simp add: run_ok_def u24_ok_iff_unat)
    let ?i = "unat (u24 (fst r))"
    have mem: "u24_new (of_nat j) \<in> set (run_list r)" if "?i \<le> j" "j \<le> unat (u24 (snd r))" for j
      unfolding run_list_def inclusive_range_def set_map set_upt using that by (intro imageI) simp
    have "u24_new (of_nat ?i) \<in> set (run_list r)" "u24_new (of_nat (Suc ?i)) \<in> set (run_list r)"
      by (rule mem, use lt in linarith, use lt in linarith)+
    moreover have "unat (u24 (u24_new (of_nat ?i))) = ?i" "unat (u24 (u24_new (of_nat (Suc ?i)))) = Suc ?i"
      by (rule unat_u24_new_of_nat, use lt bound in linarith)+
    then have "u24 (u24_new (of_nat (Suc ?i))) = u24 (u24_new (of_nat ?i)) + 1"
      using bound lt by (intro word_unat_eq_iff [THEN iffD2]) (simp add: unat_word_ariths)
    moreover have "set (run_list r) \<subseteq> set (run_lists (r # rs))" by simp
    ultimately show False using Cons.prems(2) by blast
  qed
  moreover have "length (run_lists rs) \<le> length rs" using Cons by simp
  ultimately show ?case by simp
qed simp

text \<open>A largest number in front that does not fit the first datagram is sent in none.\<close>

lemma sort_max_first:
  assumes "\<And>y. y \<in> set ys \<Longrightarrow> y < (x :: Uint24)"
  shows "sort (x # ys) = sort ys @ [x]"
proof -
  have "sorted (sort ys @ [x])" using assms by (auto simp: sorted_append less_imp_le)
  moreover have "mset (sort ys @ [x]) = mset (x # ys)" by simp
  ultimately show ?thesis by (metis properties_for_sort)
qed

lemma send_ack_loop_loses_max:
  assumes "\<And>es. send_ok env es" and "7 \<le> effective_mtu conn" and "list_all u24_ok (x # ys)"
    and "length (x # ys) \<le> 8192" and "\<And>y. y \<in> set ys \<Longrightarrow> y < x"
    and "\<And>a b. a \<in> set (x # ys) \<Longrightarrow> b \<in> set (x # ys) \<Longrightarrow> u24 b \<noteq> u24 a + 1"
    and "unat (effective_mtu conn) + 5 \<le> 4 * length (x # ys)"
  shows "\<exists>ds. c_log (fst (send_ack_loop env flag (x # ys) buf conn)) = c_log conn @ map Sent ds
    \<and> x \<notin> set (concat (map decode_ack ds))"
proof -
  obtain d n rs where step: "send_ack_loop env flag (x # ys) buf conn =
      send_ack_loop env flag (drop n (x # ys)) d (emit (Sent d) conn)"
    and n: "1 \<le> n" "n \<le> length (x # ys)" and tells: "tells d (take n (sort (x # ys)))"
    and rs: "run_lists rs = take n (sort (x # ys))" "list_all run_ok rs"
      "4 * length rs < unat (effective_mtu conn) + 5"
    using send_ack_loop_step [OF assms(1-3), where flag = flag and buf = buf] by blast
  have d: "decode_ack d = take n (sort (x # ys))" using tells_decode [OF tells] n assms(4) by simp
  have sub: "set (run_lists rs) \<subseteq> set (x # ys)"
    using set_take_subset [of n "sort (x # ys)"] unfolding rs(1) by (simp only: set_sort)
  have "length (run_lists rs) \<le> length rs"
    by (rule runs_of_isolated [OF rs(2)]) (use sub assms(6) in blast)
  moreover have "length (run_lists rs) = n" using n unfolding rs(1) by simp
  ultimately have small: "n \<le> length ys" using rs(3) assms(7) by simp
  have "take n (sort (x # ys)) = take n (sort ys)" using sort_max_first [OF assms(5)] small by simp
  then have "set (decode_ack d) \<subseteq> set ys" unfolding d using set_take_subset [of n "sort ys"]
    by (simp only: set_sort)
  moreover have "x \<notin> set ys" using assms(5) by blast
  moreover have "set (drop n (x # ys)) \<subseteq> set ys"
    using n(1) set_drop_subset [of "n - 1" ys] by (cases n) auto
  moreover have ok: "list_all u24_ok (drop n (x # ys))"
    using assms(3) by (metis in_set_dropD list_all_iff)
  have le: "length (drop n (x # ys)) \<le> 8192" using assms(4) by simp
  obtain ds where "c_log (fst (send_ack_loop env flag (drop n (x # ys)) d (emit (Sent d) conn)))
      = c_log (emit (Sent d) conn) @ map Sent ds" "set (concat (map decode_ack ds)) \<subseteq> set (drop n (x # ys))"
    using send_ack_loop_only [OF assms(1) _ ok le, of "emit (Sent d) conn"] assms(2)
    by (metis effective_mtu_emit)
  ultimately show ?thesis unfolding step by (intro exI [of _ "d # ds"]) auto
qed

lemma send_acknowledgement_log:
  "c_log (fst (send_acknowledgement env packets flag buf conn)) = c_log (fst (send_ack_loop env flag packets buf conn))"
  by (cases "send_ack_loop env flag packets buf conn"; cases "snd (send_ack_loop env flag packets buf conn)")
    (simp_all add: send_acknowledgement_def)

lemma log_stored:
  assumes "\<And>b c. c_log (f b c) = c_log c"
  shows "c_log (fst (and_then_st m (\<lambda>c b. (f b c, Ok ())))) = c_log (fst m)"
  using assms by (cases m; cases "snd m") simp_all

lemma send_ack_log:
  "c_log (fst (send_ack env packets conn)) = c_log (fst (send_ack_loop env BIT_FLAG_ACK packets (c_ack_buf conn) conn))"
  unfolding send_ack_def send_acknowledgement_log [symmetric] by (rule log_stored) simp

lemma send_nack_log:
  "c_log (fst (send_nack env packets conn)) = c_log (fst (send_ack_loop env BIT_FLAG_NACK packets (c_nack_buf conn) conn))"
  unfolding send_nack_def send_acknowledgement_log [symmetric] by (rule log_stored) simp

text \<open>A run of consecutive numbers takes one record and so one datagram, whatever its length.\<close>

definition u24_run :: "nat \<Rightarrow> nat \<Rightarrow> Uint24 list" where
  "u24_run k n = map (\<lambda>i. Uint24 (of_nat i)) [k..<k + n]"

lemma u24_run_Suc: "u24_run k (Suc n) = Uint24 (of_nat k) # u24_run (Suc k) n"
  by (simp add: u24_run_def upt_conv_Cons del: upt_Suc)

lemma u24_run_facts:
  assumes "k + n \<le> 2 ^ 24"
  shows "list_all u24_ok (u24_run k n)" and "sorted (u24_run k n)"
proof -
  have unat: "unat (of_nat i :: u32) = i" if "i < k + n" for i
    using that assms by (simp add: unsigned_of_nat take_bit_nat_eq_self)
  show "list_all u24_ok (u24_run k n)"
    using assms unat by (auto simp: u24_run_def list_all_iff u24_ok_iff_unat)
  show "sorted (u24_run k n)"
    unfolding u24_run_def sorted_map by (rule sorted_wrt_mono_rel [of _ "(<)"]) (auto simp: u24_le_iff unat)
qed

lemma write_loop_run:
  assumes "7 \<le> mtu" and "length buf - start_len < unat mtu - 7"
  shows "write_loop prof start_len mtu (u24_run (Suc k) n) buf f (Uint24 (of_nat k)) records m
    = Ok (buf, f, Uint24 (of_nat (k + n)), records, m + n)"
proof (induction n arbitrary: k m)
  case 0
  show ?case by (simp add: u24_run_def)
next
  case (Suc n)
  have "\<not> unat (mtu - 7) \<le> length buf - start_len" using assms unat_mtu_minus [of 7 mtu] by (simp add: word_le_nat_alt)
  moreover have "of_nat (Suc k) = (of_nat k + 1 :: u32)" by simp
  ultimately show ?case
    unfolding u24_run_Suc write_loop.simps(2) sub_ovf_le [OF assms(1)] and_then.simps
    using Suc [of "Suc k" "m + 1"] by simp
qed

lemma write_to_buf_run:
  assumes "10 \<le> mtu" and "k + Suc n \<le> 2 ^ 24" and "0 < n"
  shows "write_to_buf prof (u24_run k (Suc n)) [flag] mtu
    = Ok (flag # one_range (Uint24 (of_nat k)) (Uint24 (of_nat (k + n))), Suc n)"
proof -
  have sorted: "sort (u24_run k (Suc n)) = Uint24 (of_nat k) # u24_run (Suc k) n"
    using sorted_sort_id [OF u24_run_facts(2) [OF assms(2)]] by (simp only: u24_run_Suc)
  have mtu: "7 \<le> mtu" "length ([flag] @ [0, 0]) - length [flag] < unat mtu - 7"
    using assms(1) by (simp_all add: word_le_nat_alt)
  let ?s = "Uint24 (of_nat k)" and ?e = "Uint24 (of_nat (k + n))"
  have "unat (of_nat k :: u32) \<noteq> unat (of_nat (k + n) :: u32)"
    using assms(2,3) by (simp add: unsigned_of_nat take_bit_nat_eq_self del: of_nat_add)
  then have "?s \<noteq> ?e" by (metis Uint24.inject)
  then have rec: "enc_record (?s, ?e) = PACKET_RANGE # write_uint24 [] ?s @ write_uint24 [] ?e"
    by (simp only: enc_record_def fst_conv snd_conv if_False)
  have w: "write_record prof ([flag] @ [0, 0]) ?s ?e 0 = Ok (([flag] @ [0, 0]) @ enc_record (?s, ?e), 1)"
    by (simp only: write_record_eq add_ovf_fits unsigned_0 unsigned_1 and_then.simps) (simp add: add_ovf_fits)
  have two: "to_be 2 (1 :: u16) = [0, 1]" by (simp add: numeral_2_eq_2)
  show ?thesis
    unfolding write_to_buf_def Let_def sorted list.case write_loop_run [OF mtu] and_then.simps prod.case w rec
      one_range_def two by simp
qed

section \<open>Properties\<close>

text \<open>
  C28. Acknowledgements of a list in ascending order are complete, however many datagrams they
  take. While the send channel is open, the datagrams \<open>send_ack\<close> and \<open>send_nack\<close> put into it carry
  the flag of their kind and the consecutive parts of the list: the peer reads exactly the part
  from a datagram of at most 8192 numbers, the documented maximum, and refuses one of more than
  8193. So a list of at most 8192 numbers arrives as it is.
\<close>

theorem acknowledgements_complete:
  assumes "\<And>es. send_ok env es" and "7 \<le> effective_mtu conn" and "list_all u24_ok packets"
    and "sorted packets"
  shows "(\<exists>ds. c_log (fst (send_ack env packets conn)) = c_log conn @ map Sent ds
      \<and> announces BIT_FLAG_ACK ds packets
      \<and> (length packets \<le> 8192 \<longrightarrow> concat (map decode_ack ds) = packets))
    \<and> (\<exists>ds. c_log (fst (send_nack env packets conn)) = c_log conn @ map Sent ds
      \<and> announces BIT_FLAG_NACK ds packets
      \<and> (length packets \<le> 8192 \<longrightarrow> concat (map decode_ack ds) = packets))"
  using send_ack_loop_sorted [OF assms] announces_decode
  unfolding send_ack_log send_nack_log by blast

theorem acknowledgements_complete_witness:
  "\<exists>ds. c_log (fst (send_ack (still_env Debug) [Uint24 3, Uint24 9] (conn_new (V4 1 2) 400 0))) = map Sent ds
     \<and> concat (map decode_ack ds) = [Uint24 3, Uint24 9]"
  using acknowledgements_complete [of "still_env Debug" "conn_new (V4 1 2) 400 0" "[Uint24 3, Uint24 9]"]
  by (auto simp: conn_new_def effective_mtu_def clamp_mtu_def MIN_MTU_SIZE_def MAX_MTU_SIZE_def u24_ok_def
      less_eq_Uint24_def)

text \<open>
  The writer does not know the reader's maximum. More than 8193 consecutive numbers, which is what
  a tick acknowledges when as many datagrams arrived in order since the last one, are one
  record in one datagram, and the peer refuses it: none of them is acknowledged.
\<close>

theorem long_run_refused:
  assumes "\<And>es. send_ok env es" and "10 \<le> effective_mtu conn" and "8193 < n" and "k + n \<le> 2 ^ 24"
  shows "\<exists>d. c_log (fst (send_ack env (u24_run k n) conn)) = c_log conn @ [Sent d]
    \<and> ack_read prof [] (tl d) = ([], Err MaxAcknowledgement)"
proof -
  obtain m where n: "n = Suc m" using assms(3) by (cases n) auto
  let ?s = "Uint24 (of_nat k)" and ?e = "Uint24 (of_nat (k + m))"
  let ?d = "(BIT_FLAG_ACK OR BIT_FLAG_DATAGRAM) # one_range ?s ?e"
  have "u24_run k n \<noteq> []" by (simp add: n u24_run_Suc)
  moreover have "length (u24_run k n) = n" by (simp add: u24_run_def)
  moreover have "write_to_buf (env_profile env) (u24_run k n) [BIT_FLAG_ACK OR BIT_FLAG_DATAGRAM] (effective_mtu conn) = Ok (?d, n)"
    unfolding n by (rule write_to_buf_run [OF assms(2)]) (use assms(3,4) n in simp_all)
  ultimately have "c_log (fst (send_ack env (u24_run k n) conn)) = c_log conn @ [Sent ?d]"
    unfolding send_ack_log by (subst send_ack_loop.simps) (simp add: chan_send_ok [OF assms(1)] send_ack_loop.simps)
  moreover have unat: "unat (of_nat i :: u32) = i" if "i < k + n" for i
    using that assms(4) by (simp add: unsigned_of_nat take_bit_nat_eq_self)
  then have ok: "u24_ok ?s" "u24_ok ?e" and le: "of_nat k \<le> (of_nat (k + m) :: u32)"
    and big: "(8192 :: u32) < of_nat (k + m) - of_nat k"
    using assms(3,4) n
    by (auto simp: u24_ok_iff_unat word_le_nat_alt word_less_nat_alt unat_sub simp del: of_nat_add)
  have "ack_read prof [] (one_range ?s ?e) = ([], Err MaxAcknowledgement)"
    using ack_read_one_range [OF ok, of prof] le big by (simp add: MAX_ACKNOWLEDGEMENT_PACKETS_def)
  ultimately show ?thesis by (intro exI [of _ ?d]) simp
qed

theorem long_run_refused_witness:
  "\<exists>d. c_log (fst (send_ack (still_env Debug) (u24_run 5 10000) (conn_new (V4 1 2) 400 0))) = [Sent d]
     \<and> ack_read Debug [] (tl d) = ([], Err MaxAcknowledgement)"
  using long_run_refused [of "still_env Debug" "conn_new (V4 1 2) 400 0" 10000 5 Debug]
  by (simp add: conn_new_def effective_mtu_def clamp_mtu_def MIN_MTU_SIZE_def MAX_MTU_SIZE_def)

text \<open>
  Out of order, numbers get lost. Each datagram takes the smallest numbers of the list, but
  what is removed from the list afterwards are its first elements. When the largest number comes
  first, as in every list of missing numbers, and the list does not fit one datagram, that number
  is in none of the datagrams: the peer is never asked for it.
\<close>

theorem largest_nack_lost:
  assumes "\<And>es. send_ok env es" and "7 \<le> effective_mtu conn" and "list_all u24_ok (x # ys)"
    and "length (x # ys) \<le> 8192" and "\<And>y. y \<in> set ys \<Longrightarrow> y < x"
    and "\<And>a b. a \<in> set (x # ys) \<Longrightarrow> b \<in> set (x # ys) \<Longrightarrow> u24 b \<noteq> u24 a + 1"
    and "unat (effective_mtu conn) + 5 \<le> 4 * length (x # ys)"
  shows "\<exists>ds. c_log (fst (send_nack env (x # ys) conn)) = c_log conn @ map Sent ds
    \<and> x \<notin> set (concat (map decode_ack ds))"
  unfolding send_nack_log by (rule send_ack_loop_loses_max [OF assms])

lemma even_numbers:
  assumes "a \<in> set (map (\<lambda>i. Uint24 (2 * of_nat i)) (rev [0..<n]))" and "n \<le> 100"
  shows "\<exists>i < n. unat (u24 a) = 2 * i"
  using assms by (auto simp: unat_word_ariths unsigned_of_nat take_bit_nat_eq_self)

theorem largest_nack_lost_witness:
  "\<exists>ds. c_log (fst (send_nack (still_env Debug)
       (map (\<lambda>i. Uint24 (2 * of_nat i)) (rev [0..<Suc 99])) (conn_new (V4 1 2) 400 0))) = map Sent ds
     \<and> Uint24 (2 * of_nat 99) \<notin> set (concat (map decode_ack ds))"
proof -
  let ?f = "\<lambda>i. Uint24 (2 * of_nat i)"
  let ?x = "?f 99" and ?ys = "map ?f (rev [0..<99])" and ?conn = "conn_new (V4 1 2) 400 0"
  have list: "map ?f (rev [0..<Suc 99]) = ?x # ?ys"
    by (simp only: upt_Suc_append le0 rev_append rev.simps append.simps list.map)
  have even: "\<exists>i < Suc 99. unat (u24 a) = 2 * i" if "a \<in> set (?x # ?ys)" for a
  proof (rule even_numbers)
    show "a \<in> set (map ?f (rev [0..<Suc 99]))" using that unfolding list .
    show "Suc 99 \<le> 100" by simp
  qed
  have mtu: "unat (effective_mtu ?conn) = 372" "7 \<le> effective_mtu ?conn" "c_log ?conn = []"
    by (simp_all add: conn_new_def effective_mtu_def clamp_mtu_def MIN_MTU_SIZE_def MAX_MTU_SIZE_def)
  have len: "length (?x # ?ys) = 100" by (simp only: list.size length_map length_rev length_upt)
  have "list_all u24_ok (?x # ?ys)"
    unfolding list_all_iff u24_ok_iff_unat using even by force
  moreover have "y < ?x" if "y \<in> set ?ys" for y
    using even_numbers [OF that] by (auto simp: u24_less_iff)
  moreover have "u24 b \<noteq> u24 a + 1" if ab: "a \<in> set (?x # ?ys)" "b \<in> set (?x # ?ys)" for a b
  proof
    obtain i j where ij: "i < Suc 99" "unat (u24 a) = 2 * i" "unat (u24 b) = 2 * j"
      using even [OF ab(1)] even [OF ab(2)] by blast
    assume "u24 b = u24 a + 1"
    then have "2 * j = 2 * i + 1" using ij by (simp add: unat_word_ariths)
    then show False by presburger
  qed
  ultimately have "\<exists>ds. c_log (fst (send_nack (still_env Debug) (?x # ?ys) ?conn)) = c_log ?conn @ map Sent ds
      \<and> ?x \<notin> set (concat (map decode_ack ds))"
    by (intro largest_nack_lost) (simp_all only: len mtu, simp_all add: still_env_def)
  then show ?thesis unfolding list mtu append_Nil .
qed

end
