(* ===== verification/Reliability.thy ===== *)
theory Reliability
  imports Reassembly
begin

text \<open>
  What an acknowledgement means. A connection acknowledges a datagram by the number it puts into
  the list that the ticker sends. For a connection without limits, as a dialer's, a fragment that
  was acknowledged is delivered as soon as everything before it is acknowledged too; a listener's
  limits break this.
\<close>

section \<open>Acknowledged datagrams\<close>

text \<open>The datagrams of a run of receptions that entered the list of acknowledgements.\<close>

fun acknowledged_of :: "env \<Rightarrow> ConnectionHandler \<Rightarrow> bytes list \<Rightarrow> Conn \<Rightarrow> bytes list" where
  "acknowledged_of env h [] conn = []"
| "acknowledged_of env h (d # ds) conn =
     (let conn' = fst (conn_receive env h d conn)
      in if st_ack_slice (c_state conn') = st_ack_slice (c_state conn)
         then acknowledged_of env h ds conn' else d # acknowledged_of env h ds conn')"

text \<open>
  A reception that no limit refuses: the connection has no limits and no overflow checks, or the
  reception succeeds.
\<close>

definition unrefused :: "env \<Rightarrow> ConnectionHandler \<Rightarrow> unit outcome \<Rightarrow> bool" where
  "unrefused env h r \<longleftrightarrow> env_profile env = Release \<and> \<not> h_limits_enabled h \<or> r = Ok ()"

lemma unrefused_Err [simp]: "unrefused env h (Err e) \<longleftrightarrow> env_profile env = Release \<and> \<not> h_limits_enabled h"
  and unrefused_Panic [simp]: "unrefused env h Panic \<longleftrightarrow> env_profile env = Release \<and> \<not> h_limits_enabled h"
  by (simp_all add: unrefused_def)

lemma receive_datagram_fresh:
  assumes "unrefused env h (snd (receive_datagram env h data conn))"
  shows "st_ack_slice (c_state (fst (receive_datagram env h data conn))) = st_ack_slice (c_state conn)
    \<or> (\<exists>conn'. receive_datagram env h data conn = handle_datagram env h (drop 3 data) conn'
        \<and> window_frame conn conn')"
proof (cases "length data < 3")
  case True
  then show ?thesis by (simp add: receive_datagram_def)
next
  case False
  then obtain seq where seq: "load_uint24 data = Ok seq" using load_uint24_no_panic [of data] by auto
  obtain win fresh where add: "dw_add (clock env (c_reads conn)) seq (st_win (c_state conn)) = (win, fresh)"
    by (cases "dw_add (clock env (c_reads conn)) seq (st_win (c_state conn))")
  show ?thesis
  proof (cases fresh)
    case False
    with seq add \<open>\<not> length data < 3\<close> show ?thesis
      by (simp add: receive_datagram_def read_clock_def Let_def)
  next
    case True
    obtain win' shifted where shift: "dw_shift win = (win', shifted)" by (cases "dw_shift win")
    let ?c1 = "conn\<lparr>c_reads := Suc (c_reads conn), c_state := (c_state conn)\<lparr>st_win := win',
      st_ack_slice := st_ack_slice (c_state conn) @ [seq]\<rparr>\<rparr>"
    let ?since = "unat (c_rtt conn) + unat (c_rtt conn) div 2"
    obtain c2 missing where m: "(if shifted = 0 then window_missing env ?since ?c1
        else (?c1, [])) = (c2, missing)"
      by (cases "if shifted = 0 then window_missing env ?since ?c1 else (?c1, [])")
    have "window_frame conn ?c1" by (simp add: window_frame_def window_erased_def)
    moreover have "window_frame ?c1 c2"
      using m window_frame_missing [of ?c1 env ?since] by (auto split: if_splits)
    ultimately have f2: "window_frame conn c2" by (rule window_frame_trans)
    let ?win = "st_win (c_state c2)" and ?nack = "if missing = [] then (c2, Ok ()) else send_nack env missing c2"
    let ?then = "\<lambda>size c. if size > MAX_WINDOW_SIZE \<and> h_limits_enabled h
      then (c, Err (WindowSizeTooBig (u24 (dw_lowest ?win)) (u24 (dw_highest ?win)))) else handle_datagram env h (drop 3 data) c"
    have r: "receive_datagram env h data conn =
        and_then_st (c2, dw_size (env_profile env) ?win) (\<lambda>c size. and_then_st (if missing = [] then (c, Ok ()) else send_nack env missing c)
          (\<lambda>c _. ?then size c))"
      using \<open>\<not> length data < 3\<close> seq add True shift m
      by (cases "shifted = 0") (simp_all add: receive_datagram_def read_clock_def Let_def)
    obtain size where size: "dw_size (env_profile env) ?win = Ok size"
      using assms by (cases "dw_size (env_profile env) ?win") (auto simp: r dw_size_def)
    have "snd ?nack = Ok ()"
      using assms send_nack_Release [of env missing c2] by (cases ?nack; cases "snd ?nack") (auto simp: r size split: if_splits)
    then obtain c3 where n: "?nack = (c3, Ok ())" by (cases ?nack) simp
    have "window_frame conn c3"
      using window_frame_trans [OF f2, of c3] n window_frame_send_nack [of c2 env missing] f2
      by (auto split: if_splits)
    moreover have "receive_datagram env h data conn = handle_datagram env h (drop 3 data) c3"
      using assms by (auto simp: r size n simp del: One_nat_def split: if_splits)
    ultimately show ?thesis by blast
  qed
qed

section \<open>Fragments that are held\<close>

text \<open>The queue has handed over all it can.\<close>

definition caught_up :: "PacketQueue \<Rightarrow> bool" where
  "caught_up q \<longleftrightarrow> \<not> pq_seen q (pq_lowest q)"

text \<open>Fragment \<open>i\<close> of message \<open>o\<close> reached the queue or waits in the reassembly map.\<close>

definition held :: "nat \<Rightarrow> bytes list \<Rightarrow> nat \<Rightarrow> nat \<Rightarrow> Conn \<Rightarrow> bool" where
  "held mtu msgs o' i conn \<longleftrightarrow>
     pq_seen (st_packet_queue (c_state conn)) (msg_order o')
     \<or> msg_split mtu (msgs ! o')
       \<and> (\<exists>slots. map_of (st_splits (c_state conn)) (msg_split_id mtu msgs o') = Some slots
            \<and> i < length slots \<and> slots ! i \<noteq> [])"

definition splits_incomplete :: "Conn \<Rightarrow> bool" where
  "splits_incomplete conn \<longleftrightarrow>
     (\<forall>s slots. map_of (st_splits (c_state conn)) s = Some slots \<longrightarrow> list_ex (\<lambda>f. f = []) slots)"

definition settled :: "Conn \<Rightarrow> bool" where
  "settled conn \<longleftrightarrow> caught_up (st_packet_queue (c_state conn)) \<and> splits_incomplete conn"

lemma held_side: "receiving_side conn' = receiving_side conn \<Longrightarrow> held mtu msgs o' i conn' = held mtu msgs o' i conn"
  by (simp add: held_def receiving_side_def)

lemma settled_side: "receiving_side conn' = receiving_side conn \<Longrightarrow> settled conn' = settled conn"
  by (simp add: settled_def splits_incomplete_def receiving_side_def)

context connection_handler
begin

lemma receive_packet_seen:
  assumes "unrefused env h (snd (receive_packet env h pk conn))"
    and "reliability pk = RELIABILITY_RELIABLE_ORDERED" and "u24_inner (order_index pk)"
    and "pq_inv (st_packet_queue (c_state conn))" and "caught_up (st_packet_queue (c_state conn))"
  shows "\<exists>q. c_state (fst (receive_packet env h pk conn)) = (c_state conn)\<lparr>st_packet_queue := q\<rparr>
    \<and> caught_up q \<and> (\<forall>v. pq_seen q v \<longleftrightarrow> pq_seen (st_packet_queue (c_state conn)) v \<or> v = order_index pk)"
proof -
  let ?q = "st_packet_queue (c_state conn)"
  obtain q1 fresh where put: "pq_put (order_index pk) (content pk) ?q = (q1, fresh)"
    by (cases "pq_put (order_index pk) (content pk) ?q")
  have fresh: "fresh \<longleftrightarrow> \<not> pq_seen ?q (order_index pk)"
    using pq_put_result [of "order_index pk" "content pk" ?q] put by simp
  have seen: "pq_seen q1 v \<longleftrightarrow> pq_seen ?q v \<or> v = order_index pk" for v
    using pq_put_seen [of "order_index pk" "content pk" ?q v] put by simp
  show ?thesis
  proof (cases fresh)
    case False
    then have "q1 = ?q" using put by (auto simp: pq_put_def Let_def split: if_splits)
    with False put fresh seen assms(2,5) show ?thesis
      by (intro exI [of _ ?q]) (auto simp: receive_packet_def Let_def)
  next
    case True
    have inv: "pq_inv q1" using pq_inv_put [OF assms(4,3)] put by (metis fst_conv)
    obtain q2 out where fetch: "pq_fetch q1 = (q2, out)" by (cases "pq_fetch q1")
    note spec = pq_fetch_spec [OF inv fetch]
    have r: "receive_packet env h pk conn =
        and_then_st (conn\<lparr>c_state := (c_state conn)\<lparr>st_packet_queue := q1\<rparr>\<rparr>, pq_window_size (env_profile env) q1) (\<lambda>conn size.
          if size > MAX_WINDOW_SIZE \<and> h_limits_enabled h
          then (conn, Err (WindowSizeTooBig (u24 (pq_lowest q1)) (u24 (pq_highest q1))))
          else let st = c_state conn; (queue, packets) = pq_fetch (st_packet_queue st)
               in handle_packets env h packets (conn\<lparr>c_state := st\<lparr>st_packet_queue := queue\<rparr>\<rparr>))"
      using True put assms(2) by (simp add: receive_packet_def Let_def)
    obtain size where "pq_window_size (env_profile env) q1 = Ok size"
      using assms(1) by (cases "pq_window_size (env_profile env) q1") (auto simp: r pq_window_size_def)
    with fetch assms(1) have "receive_packet env h pk conn = handle_packets env h out
        (conn\<lparr>c_state := (c_state conn)\<lparr>st_packet_queue := q2\<rparr>\<rparr>)"
      by (auto simp: r split: if_splits)
    then have "c_state (fst (receive_packet env h pk conn)) = (c_state conn)\<lparr>st_packet_queue := q2\<rparr>"
      using handle_packets_frame by simp
    moreover have "\<not> pq_seen q2 (pq_lowest q2)" using spec(5,7) by (simp add: pq_seen_def)
    ultimately show ?thesis using seen spec(8) by (intro exI [of _ q2]) (auto simp: caught_up_def)
  qed
qed

text \<open>A packet of the run keeps what is held and adds its fragment.\<close>

lemma held_receive_packet:
  assumes "unrefused env h (snd (receive_packet env h pk conn))"
    and inv: "pq_inv (st_packet_queue (c_state conn))" and set: "settled conn"
    and msgs: "sendables msgs" and o': "o' < length msgs"
    and pk: "reliability pk = RELIABILITY_RELIABLE_ORDERED" "order_index pk = msg_order o'"
  shows "settled (fst (receive_packet env h pk conn)) \<and> held mtu msgs o' i (fst (receive_packet env h pk conn))
    \<and> (\<forall>p j. held mtu msgs p j conn \<longrightarrow> held mtu msgs p j (fst (receive_packet env h pk conn)))"
proof -
  have "u24_inner (msg_order o')" using msg_order_inner [of o'] msgs o' by (simp add: sendables_def)
  then obtain q where q: "c_state (fst (receive_packet env h pk conn)) = (c_state conn)\<lparr>st_packet_queue := q\<rparr>"
      "caught_up q" "\<And>v. pq_seen q v \<longleftrightarrow> pq_seen (st_packet_queue (c_state conn)) v \<or> v = msg_order o'"
    using receive_packet_seen [OF assms(1) pk(1) _ inv] set pk(2) by (auto simp: settled_def)
  then show ?thesis using set by (auto simp: settled_def splits_incomplete_def held_def)
qed

lemma held_receive_split:
  assumes fine: "unrefused env h (snd (receive_split_packet env h pk conn))"
    and inv: "consistent mtu msgs conn" and set: "settled conn" and msgs: "sendables msgs"
    and mtu: "24 < mtu" and o': "o' < length msgs" and split: "msg_split mtu (msgs ! o')"
    and i: "i < length (msg_fragments mtu (msgs ! o'))"
    and pk: "reliability pk = RELIABILITY_RELIABLE_ORDERED" "order_index pk = msg_order o'"
      "split_id pk = msg_split_id mtu msgs o'" "content pk = msg_fragments mtu (msgs ! o') ! i"
      "split_count pk = of_nat (length (msg_fragments mtu (msgs ! o')))" "split_index pk = of_nat i"
  shows "settled (fst (receive_split_packet env h pk conn)) \<and> held mtu msgs o' i (fst (receive_split_packet env h pk conn))
    \<and> (\<forall>p < length msgs. \<forall>j. held mtu msgs p j conn \<longrightarrow> held mtu msgs p j (fst (receive_split_packet env h pk conn)))"
proof -
  have m: "sendable (msgs ! o')" using sendables_nth [OF msgs o'] .
  note facts = msg_fragments_facts [OF mtu m]
  let ?fs = "msg_fragments mtu (msgs ! o')" and ?st = "c_state conn" and ?id = "msg_split_id mtu msgs o'"
  have cnt: "unat (split_count pk) = length ?fs" and idx: "unat (split_index pk) = i"
    using pk(5,6) i facts(5) by (simp_all add: unsigned_of_nat take_bit_nat_eq_self)
  define slots where "slots = (case map_of (st_splits ?st) (split_id pk) of Some slots \<Rightarrow> slots
    | None \<Rightarrow> replicate (unat (split_count pk)) [])"
  have "splits_consistent mtu msgs conn" using inv by (simp add: consistent_def)
  from consistent_slots [OF this msgs mtu o' split] have slots: "msg_slots mtu (msgs ! o') slots"
    by (simp add: slots_def cnt pk(3) cong: option.case_cong)
  then have li: "i < length slots" using i by (simp add: msg_slots_def)
  define slots' where "slots' = slots[unat (split_index pk) := content pk]"
  have kept: "slots' ! j \<noteq> []" if "slots ! j \<noteq> [] \<or> j = i" "j < length slots" for j
    using that li facts(2) [of "?fs ! i"] i by (auto simp: slots'_def idx pk(4) nth_list_update)
  define s2 where "s2 = AList.update (split_id pk) slots' (AList.update (split_id pk) slots (st_splits ?st))"
  have s2: "map_of s2 = (map_of (st_splits ?st))(?id \<mapsto> slots')"
    by (simp add: s2_def update_conv' pk(3))
  have seen: "pq_inv (st_packet_queue ?st)"
    using inv by (auto simp: consistent_def queue_consistent_def simulates_def)
  have same: "p = o'" if "p < length msgs" "msg_split mtu (msgs ! p)" "msg_split_id mtu msgs p = ?id" for p
    using that msg_split_id_inj [of msgs p o' mtu] msg_split_id_inj [of msgs o' p mtu] msgs o' split
    by (metis linorder_neqE_nat sendables_def)
  have limits: "\<not> ((split_count pk > MAX_SPLIT_COUNT \<or> length (st_splits ?st) > MAX_CONCURRENT_SPLITS) \<and> h_limits_enabled h)"
  proof
    assume "(split_count pk > MAX_SPLIT_COUNT \<or> length (st_splits ?st) > MAX_CONCURRENT_SPLITS) \<and> h_limits_enabled h"
    then show False using fine unfolding receive_split_packet_def Let_def by (auto split: if_splits)
  qed
  note unfold = receive_split_slots [OF limits slots_def _ slots'_def s2_def, unfolded idx, OF li]
  show ?thesis
  proof (cases "list_ex (\<lambda>f. f = []) slots'")
    case True
    let ?c = "conn\<lparr>c_state := ?st\<lparr>st_splits := s2\<rparr>\<rparr>"
    have "fst (receive_split_packet env h pk conn) = ?c" using unfold True by simp
    moreover have "settled ?c" using set True by (simp add: settled_def splits_incomplete_def s2)
    moreover have "held mtu msgs o' i ?c"
      using split kept [of i] li by (simp add: held_def s2 slots'_def)
    moreover have "held mtu msgs p j ?c" if "held mtu msgs p j conn" for p j
      using that kept [of j] by (auto simp: held_def s2 slots_def slots'_def pk(3))
    ultimately show ?thesis by simp
  next
    case False
    let ?c = "conn\<lparr>c_state := ?st\<lparr>st_splits := AList.delete (split_id pk) s2\<rparr>\<rparr>"
    let ?pk = "packet_new\<lparr>content := concat slots', order_index := order_index pk, reliability := reliability pk\<rparr>"
    have r: "receive_split_packet env h pk conn = receive_packet env h ?pk ?c" using unfold False by simp
    have del: "map_of (AList.delete (split_id pk) s2) = (map_of (st_splits ?st))(?id := None)"
      by (simp add: delete_conv' s2 pk(3))
    have "settled ?c" using set by (simp add: settled_def splits_incomplete_def del)
    then have c: "settled (fst (receive_packet env h ?pk ?c))"
        "\<And>j. held mtu msgs o' j (fst (receive_packet env h ?pk ?c))"
        "\<And>p j. held mtu msgs p j ?c \<Longrightarrow> held mtu msgs p j (fst (receive_packet env h ?pk ?c))"
      using held_receive_packet [OF fine [unfolded r] _ _ msgs o', of mtu] seen pk(1,2) by simp_all
    have "held mtu msgs p j ?c" if "held mtu msgs p j conn" "p < length msgs" "p \<noteq> o'" for p j
      using that same [of p] by (auto simp: held_def del)
    with c show ?thesis unfolding r by blast
  qed
qed

lemma held_dispatch:
  fixes q :: Packet and message :: Uint24
  assumes fine: "unrefused env h (snd (dispatch_packet env h (packet_decoded q (msg_packet mtu msgs o' i message)) conn))"
    and inv: "consistent mtu msgs conn" and set: "settled conn" and msgs: "sendables msgs"
    and mtu: "24 < mtu" and o': "o' < length msgs" and i: "i < length (msg_fragments mtu (msgs ! o'))"
  defines "conn' \<equiv> fst (dispatch_packet env h (packet_decoded q (msg_packet mtu msgs o' i message)) conn)"
  shows "settled conn' \<and> held mtu msgs o' i conn'
    \<and> (\<forall>p < length msgs. \<forall>j. held mtu msgs p j conn \<longrightarrow> held mtu msgs p j conn')"
proof -
  let ?fs = "msg_fragments mtu (msgs ! o')"
  let ?pk = "packet_decoded q (msg_packet mtu msgs o' i message)"
  have m: "sendable (msgs ! o')" using sendables_nth [OF msgs o'] .
  have ordered: "reliability ?pk = RELIABILITY_RELIABLE_ORDERED" "order_index ?pk = msg_order o'"
      "content ?pk = ?fs ! i" "split_flag ?pk \<longleftrightarrow> msg_split mtu (msgs ! o')"
    using msg_fragments_facts(3) [OF mtu m]
    by (auto simp: packet_decoded_def msg_packet_def fragment_packet_def packet_new_def
        is_sequenced_or_ordered_def Let_def)
  have "pq_inv (st_packet_queue (c_state conn))"
    using inv by (auto simp: consistent_def queue_consistent_def simulates_def)
  note single = held_receive_packet [OF _ this set msgs o' ordered(1,2), of env mtu i]
  show ?thesis
  proof (cases "msg_split mtu (msgs ! o')")
    case True
    then have "1 < length ?fs" using msg_fragments_facts(3) [OF mtu m] by simp
    then have "split_id ?pk = msg_split_id mtu msgs o'" "split_count ?pk = of_nat (length ?fs)"
        "split_index ?pk = of_nat i"
      by (simp_all add: packet_decoded_def msg_packet_def fragment_packet_def Let_def)
    from held_receive_split [OF _ inv set msgs mtu o' True i ordered(1,2) this(1) ordered(3) this(2,3)] True fine
    show ?thesis by (simp add: conn'_def dispatch_packet_def ordered(4))
  next
    case False
    with single fine show ?thesis by (simp add: conn'_def dispatch_packet_def ordered(4))
  qed
qed

text \<open>One datagram of the run: what was held stays held, and an acknowledged fragment is held.\<close>

lemma held_receive:
  fixes seq message :: Uint24
  assumes fine: "unrefused env h (snd (conn_receive env h (build_datagram seq (msg_packet mtu msgs o' i message)) conn))"
    and inv: "consistent mtu msgs conn" and set: "settled conn" and msgs: "sendables msgs"
    and mtu: "24 < mtu" "mtu < 8192" and o': "o' < length msgs" and i: "i < length (msg_fragments mtu (msgs ! o'))"
    and ok: "u24_ok message"
  defines "d \<equiv> build_datagram seq (msg_packet mtu msgs o' i message)"
  shows "settled (fst (conn_receive env h d conn))
    \<and> (\<forall>p < length msgs. \<forall>j. held mtu msgs p j conn \<longrightarrow> held mtu msgs p j (fst (conn_receive env h d conn)))
    \<and> (st_ack_slice (c_state (fst (conn_receive env h d conn))) \<noteq> st_ack_slice (c_state conn)
        \<longrightarrow> held mtu msgs o' i (fst (conn_receive env h d conn)))"
proof -
  let ?q = "msg_packet mtu msgs o' i message"
  let ?c = "conn\<lparr>c_reads := Suc (c_reads conn), c_last_activity := clock env (c_reads conn)\<rparr>"
  let ?data = "write_uint24 [] seq @ packet_write ?q []"
  have r: "conn_receive env h d conn = receive_datagram env h ?data ?c"
    by (simp add: d_def conn_receive_datagram)
  have wf: "packet_wf ?q" by (rule msg_packet_wf [OF mtu msgs o' i ok])
  have len: "length (write_uint24 [] seq) = 3" by simp
  show ?thesis
  proof (cases "\<exists>c. receive_datagram env h ?data ?c = handle_datagram env h (drop 3 ?data) c \<and> window_frame ?c c")
    case True
    then obtain c where go: "receive_datagram env h ?data ?c = handle_datagram env h (drop 3 ?data) c"
      and frame: "window_frame ?c c" by blast
    let ?c' = "set_pk packet_new c"
    have side: "receiving_side ?c' = receiving_side conn"
      using window_frame_receiving_side [OF frame] by simp
    have "drop 3 ?data = packet_write ?q []" using len by simp
    then have "conn_receive env h d conn = dispatch_packet env h (packet_decoded (st_pk (c_state c)) ?q) ?c'"
      unfolding r go by (simp add: handle_datagram_one [OF wf])
    with held_dispatch [OF _ _ _ msgs mtu(1) o' i, of env "st_pk (c_state c)" message ?c'] fine [folded d_def]
      consistent_side [OF side] settled_side [OF side] held_side [OF side] inv set
    show ?thesis by auto
  next
    case False
    with receive_datagram_fresh [of env h ?data ?c] fine [folded d_def]
    have same: "st_ack_slice (c_state (fst (conn_receive env h d conn))) = st_ack_slice (c_state conn)"
      unfolding r by auto
    have "receiving_side (fst (receive_datagram env h ?data ?c)) = receiving_side ?c"
      using False by (cases rule: receive_datagram_cases [of env h ?data ?c])
        (auto dest: window_frame_receiving_side)
    then have side: "receiving_side (fst (conn_receive env h d conn)) = receiving_side conn"
      unfolding r by simp
    show ?thesis using same set settled_side [OF side] held_side [OF side] by simp
  qed
qed

lemma held_receive_all:
  assumes "env_profile env = Release" and "\<not> h_limits_enabled h" and "sendables msgs"
    and "24 < mtu" and "mtu < 8192" and "list_all (takes (\<lambda>_. True) env h 0) msgs"
  shows "consistent mtu msgs conn \<Longrightarrow> settled conn \<Longrightarrow> list_all (run_datagram mtu msgs) ds \<Longrightarrow>
    settled (receive_all env h ds conn)
    \<and> (\<forall>p < length msgs. \<forall>j. held mtu msgs p j conn \<longrightarrow> held mtu msgs p j (receive_all env h ds conn))
    \<and> (\<forall>p < length msgs. \<forall>j < length (msg_fragments mtu (msgs ! p)). \<forall>message seq. u24_ok message \<longrightarrow>
        build_datagram seq (msg_packet mtu msgs p j message) \<in> set (acknowledged_of env h ds conn) \<longrightarrow>
        held mtu msgs p j (receive_all env h ds conn))"
proof (induction ds arbitrary: conn)
  case (Cons d ds)
  let ?c = "fst (conn_receive env h d conn)"
  obtain o' i message seq where o': "o' < length msgs" and i: "i < length (msg_fragments mtu (msgs ! o'))"
    and message: "u24_ok message" and d: "d = build_datagram seq (msg_packet mtu msgs o' i message)"
    using Cons.prems(3) by (auto simp: run_datagram_def)
  have "unrefused env h r" for r using assms(1,2) by (simp add: unrefused_def)
  note step = held_receive [OF this Cons.prems(1,2) assms(3-5)]
  have c: "settled ?c" "\<And>p j. p < length msgs \<Longrightarrow> held mtu msgs p j conn \<Longrightarrow> held mtu msgs p j ?c"
    using step [OF o' i message] unfolding d by blast+
  have "consistent mtu msgs ?c"
    using consistent_receive [OF Cons.prems(1) assms(3) takes_all_mono [OF assms(6)] _ assms(4,5)] Cons.prems(3) by (simp add: list_all_iff)
  note IH = Cons.IH [OF this c(1)]
  have head: "held mtu msgs p j ?c"
    if "p < length msgs" "j < length (msg_fragments mtu (msgs ! p))" "u24_ok m"
      "build_datagram q (msg_packet mtu msgs p j m) = d" "st_ack_slice (c_state ?c) \<noteq> st_ack_slice (c_state conn)"
    for p j m q
    using step [OF that(1-3), of q] that(4,5) by simp
  have acks: "x \<in> set (acknowledged_of env h ds ?c)
      \<or> x = d \<and> st_ack_slice (c_state ?c) \<noteq> st_ack_slice (c_state conn)"
    if "x \<in> set (acknowledged_of env h (d # ds) conn)" for x
    using that by (auto simp: Let_def split: if_splits)
  show ?case
    using IH Cons.prems(3) c(2) head acks by (simp del: acknowledged_of.simps) blast
qed simp

end

section \<open>From held to delivered\<close>

lemma settled_new [simp]: "settled (conn_new addr mtu now)"
  by (simp add: settled_def splits_incomplete_def caught_up_def pq_seen_def conn_new_def conn_state_new_def pq_new_def)

lemma held_message_seen:
  assumes "consistent mtu msgs conn" and "settled conn" and "sendables msgs" and "24 < mtu"
    and "p < length msgs" and "\<And>j. j < length (msg_fragments mtu (msgs ! p)) \<Longrightarrow> held mtu msgs p j conn"
  shows "pq_seen (st_packet_queue (c_state conn)) (msg_order p)"
proof (rule ccontr)
  assume new: "\<not> pq_seen (st_packet_queue (c_state conn)) (msg_order p)"
  have m: "sendable (msgs ! p)" using sendables_nth [OF assms(3,5)] .
  note some = msg_fragments_facts(4) [OF assms(4) m]
  from assms(6) [OF some] new obtain slots where split: "msg_split mtu (msgs ! p)"
    and slots: "map_of (st_splits (c_state conn)) (msg_split_id mtu msgs p) = Some slots"
    by (auto simp: held_def)
  have "splits_consistent mtu msgs conn" using assms(1) by (simp add: consistent_def)
  from consistent_slots [OF this assms(3,4,5) split]
  have "length slots = length (msg_fragments mtu (msgs ! p))" by (simp add: slots msg_slots_def)
  then have "slots ! j \<noteq> []" if "j < length slots" for j
    using assms(6) [of j] new slots that by (auto simp: held_def)
  then have "\<not> list_ex (\<lambda>f. f = []) slots" by (auto simp: list_ex_length)
  with assms(2) slots show False by (auto simp: settled_def splits_incomplete_def)
qed

lemma seen_delivered:
  assumes "consistent mtu msgs conn" and "caught_up (st_packet_queue (c_state conn))"
    and "k \<le> length msgs" and "sendables msgs"
    and "\<And>p. p < k \<Longrightarrow> pq_seen (st_packet_queue (c_state conn)) (msg_order p)"
  shows "\<exists>n \<ge> k. user_packets (c_log conn) = for_user (take n msgs)"
proof -
  obtain r where r: "simulates (st_packet_queue (c_state conn)) r"
      "user_packets (c_log conn) = for_user (take (delivered r) msgs)"
    using assms(1) by (auto simp: consistent_def queue_consistent_def)
  let ?low = "pq_lowest (st_packet_queue (c_state conn))"
  have low: "delivered r = unat (u24 ?low)" using r(1) by (simp add: simulates_def)
  have "k \<le> delivered r"
  proof (rule ccontr)
    assume "\<not> k \<le> delivered r"
    then have less: "delivered r < k" by simp
    then have "delivered r < 65536" using assms(3,4) by (simp add: sendables_def)
    then have "msg_order (delivered r) = ?low" using msg_order_inner low by (simp add: u24_eq_iff)
    with assms(2) assms(5) [OF less] show False by (simp add: caught_up_def)
  qed
  with r(2) show ?thesis by blast
qed

section \<open>Properties\<close>

text \<open>
  C7. What a dialer acknowledges it delivers. Whatever datagrams of a run arrive, in any order,
  with losses and repetitions and under any numbers: once every fragment of the first \<open>k\<close> messages
  was carried by a datagram that entered the list of acknowledgements, at least these \<open>k\<close>
  messages have been handed to the user, in order and each once. A sender that keeps what is not
  acknowledged therefore gets every message through. The profile is that without overflow checks;
  the run is one of at most 65536 messages, cut to fit an MTU between 25 and 8191.
\<close>

theorem acknowledged_is_delivered:
  assumes "env_profile env = Release" and "user_messages msgs" and "24 < mtu" and "mtu < 8192"
    and "list_all (run_datagram mtu msgs) ds" and "k \<le> length msgs"
    and "\<And>p j. p < k \<Longrightarrow> j < length (msg_fragments mtu (msgs ! p)) \<Longrightarrow>
      \<exists>message seq. u24_ok message \<and> build_datagram seq (msg_packet mtu msgs p j message)
        \<in> set (acknowledged_of env dialer_handler ds (conn_new addr m now))"
  shows "\<exists>n \<ge> k. user_packets (c_log (receive_all env dialer_handler ds (conn_new addr m now))) = take n msgs"
proof -
  let ?conn = "receive_all env dialer_handler ds (conn_new addr m now)"
  have limits: "\<not> h_limits_enabled dialer_handler" by (simp add: dialer_handler_def)
  note ok = user_messages_sendables [OF assms(2)] and takes = dialer.takes_user_messages [OF assms(2)]
  have inv: "consistent mtu msgs ?conn"
    by (rule dialer.consistent_receive_all [OF ok takes assms(3,4) consistent_new [OF ok] assms(5)])
  note held = dialer.held_receive_all [OF assms(1) limits ok assms(3,4) takes consistent_new [OF ok] settled_new assms(5)]
  have "held mtu msgs p j ?conn" if pj: "p < k" "j < length (msg_fragments mtu (msgs ! p))" for p j
  proof -
    obtain message seq where "u24_ok message" "build_datagram seq (msg_packet mtu msgs p j message)
        \<in> set (acknowledged_of env dialer_handler ds (conn_new addr m now))"
      using assms(7) [OF pj] by blast
    with held pj assms(6) show ?thesis by (meson less_le_trans)
  qed
  then have "pq_seen (st_packet_queue (c_state ?conn)) (msg_order p)" if "p < k" for p
    using held_message_seen [OF inv _ ok assms(3), of p] held that assms(6) by (meson less_le_trans)
  moreover have "caught_up (st_packet_queue (c_state ?conn))" using held by (simp add: settled_def)
  ultimately show ?thesis using seen_delivered [OF inv _ assms(6) ok] for_user_messages [OF assms(2)] by metis
qed

text \<open>A first datagram with the expected number is acknowledged.\<close>

lemma first_acknowledged:
  assumes "packet_wf q"
  shows "acknowledged_of env dialer_handler [build_datagram (Uint24 0) q] (conn_new addr m now)
    = [build_datagram (Uint24 0) q]"
proof -
  let ?c = "(conn_new addr m now)\<lparr>c_reads := 1, c_last_activity := clock env 0\<rparr>"
  have "st_win (c_state ?c) = dw_at (Uint24 0)"
    by (simp add: conn_new_def conn_state_new_def dw_new_def dw_at_def u24_new_def)
  then obtain c where c: "receive_datagram env dialer_handler (write_uint24 [] (Uint24 0) @ packet_write q []) ?c
      = handle_datagram env dialer_handler (packet_write q []) c" "st_ack_slice (c_state c) = [Uint24 0]"
    using receive_datagram_next [of ?c "Uint24 0" env dialer_handler "packet_write q []"]
    by (auto simp: u24_inner_def conn_new_def conn_state_new_def)
  let ?pk = "packet_decoded (st_pk (c_state c)) q"
  have "conn_receive env dialer_handler (build_datagram (Uint24 0) q) (conn_new addr m now)
      = dispatch_packet env dialer_handler ?pk (set_pk packet_new c)"
    using c(1) by (simp add: conn_receive_datagram handle_datagram_one [OF assms] conn_new_def)
  moreover have "st_ack_slice (c_state (fst (dispatch_packet env dialer_handler pk conn))) = st_ack_slice (c_state conn)"
    for pk conn
  proof -
    have "st_ack_slice (c_state (fst (receive_packet env dialer_handler pk conn))) = st_ack_slice (c_state conn)" for pk conn
      using dialer.receive_packet_frame [of env pk conn] by auto
    then show ?thesis
      by (simp add: dispatch_packet_def receive_split_packet_def Let_def and_then_st_def split: prod.split outcome.split)
  qed
  ultimately show ?thesis using c(2) by (simp add: set_pk_def conn_new_def conn_state_new_def)
qed

theorem acknowledged_is_delivered_witness:
  "user_packets (c_log (receive_all (still_env Release) dialer_handler
     [build_datagram (Uint24 0) (msg_packet 1372 [[0xfe]] 0 0 (Uint24 0))] (conn_new (V4 1 2) 1400 0))) = [[0xfe]]"
proof -
  let ?d = "build_datagram (Uint24 0) (msg_packet 1372 [[0xfe]] 0 0 (Uint24 0))"
  let ?conn = "conn_new (V4 1 2) 1400 0"
  have m: "user_messages [[0xfe]]" "user_message [0xfe]"
    by (simp_all add: user_messages_def user_message_def reserved_ids_def id_defs)
  then have f: "length (msg_fragments 1372 [0xfe]) = 1"
    using msg_fragments_facts(3,4) [OF _ user_message_sendable [OF m(2)], of 1372] by (simp add: msg_split_def less_Suc_eq_0_disj not_less le_Suc_eq)
  have "run_datagram 1372 [[0xfe]] ?d"
    unfolding run_datagram_def using f by (intro exI [of _ 0] exI [of _ "Uint24 0"]) (simp add: u24_ok_def)
  moreover have "acknowledged_of (still_env Release) dialer_handler [?d] ?conn = [?d]"
    by (rule first_acknowledged, rule msg_packet_wf) (use m user_messages_sendables [OF m(1)] f in \<open>simp_all add: u24_ok_def\<close>)
  moreover have "u24_ok (Uint24 0)" by (simp add: u24_ok_def)
  ultimately have "\<exists>n \<ge> 1. user_packets (c_log (receive_all (still_env Release) dialer_handler [?d] ?conn)) = take n [[0xfe]]"
    using f by (intro acknowledged_is_delivered [OF _ m(1)])
      (auto simp del: acknowledged_of.simps receive_all.simps intro!: exI [of _ "Uint24 0"])
  then show ?thesis by (auto simp: take_Cons' simp del: receive_all.simps)
qed

text \<open>
  C38. A listener does not keep this promise. Its limits are tested after the datagram entered the
  list of acknowledgements: when the reassembly is full, a datagram with a fragment is rejected
  with an error and leaves nothing behind but its acknowledgement, on which the sender forgets
  the fragment.
\<close>

theorem acknowledged_but_dropped:
  assumes "st_win (c_state conn) = dw_at seq" and "u24_inner seq" and "packet_wf q" and "split_flag q"
    and "16 < length (st_splits (c_state conn))"
  shows "\<exists>conn' e. conn_receive env listener_handler (build_datagram seq q) conn = (conn', Err (SplitPacket e))
    \<and> st_ack_slice (c_state conn') = st_ack_slice (c_state conn) @ [seq]
    \<and> receiving_side conn' = receiving_side conn"
proof -
  let ?c = "conn\<lparr>c_reads := Suc (c_reads conn), c_last_activity := clock env (c_reads conn)\<rparr>"
  obtain c where c: "receive_datagram env listener_handler (write_uint24 [] seq @ packet_write q []) ?c
        = handle_datagram env listener_handler (packet_write q []) c"
      "receiving_side c = receiving_side conn" "st_ack_slice (c_state c) = st_ack_slice (c_state conn) @ [seq]"
    using receive_datagram_next [of ?c seq env listener_handler "packet_write q []"] assms(1,2) by auto
  let ?pk = "packet_decoded (st_pk (c_state c)) q"
  have split: "split_flag ?pk" using assms(4) by (simp add: packet_decoded_def)
  have full: "16 < length (st_splits (c_state (set_pk packet_new c)))"
    using assms(5) c(2) by (simp add: receiving_side_def set_pk_def)
  have "\<exists>e. receive_split_packet env listener_handler ?pk (set_pk packet_new c)
      = (set_pk packet_new c, Err (SplitPacket e))"
  proof (cases "split_count ?pk > MAX_SPLIT_COUNT")
    case True
    then show ?thesis unfolding receive_split_packet_def Let_def by (simp add: listener_handler_limits)
  next
    case False
    with full show ?thesis unfolding receive_split_packet_def Let_def
      by (simp add: listener_handler_limits MAX_CONCURRENT_SPLITS_def)
  qed
  then obtain e where "receive_split_packet env listener_handler ?pk (set_pk packet_new c)
      = (set_pk packet_new c, Err (SplitPacket e))" by blast
  then have "conn_receive env listener_handler (build_datagram seq q) conn = (set_pk packet_new c, Err (SplitPacket e))"
    using c(1) split by (simp add: conn_receive_datagram handle_datagram_one [OF assms(3)] dispatch_packet_def)
  with c(2,3) show ?thesis by (simp add: set_pk_def receiving_side_def)
qed

theorem acknowledged_but_dropped_witness:
  "\<exists>conn' e. conn_receive (still_env Debug) listener_handler
     (build_datagram (Uint24 0) (packet_new\<lparr>content := [0xfe], split_flag := True, split_count := 2\<rparr>))
     ((conn_new (V4 1 2) 1400 0)\<lparr>c_state := conn_state_new\<lparr>st_splits := map (\<lambda>i. (of_nat i, [[]])) [0..<17]\<rparr>\<rparr>)
       = (conn', Err (SplitPacket e))
     \<and> st_ack_slice (c_state conn') = [Uint24 0]"
proof -
  let ?q = "packet_new\<lparr>content := [0xfe], split_flag := True, split_count := 2\<rparr>"
  let ?conn = "(conn_new (V4 1 2) 1400 0)\<lparr>c_state := conn_state_new\<lparr>st_splits := map (\<lambda>i. (of_nat i, [[]])) [0..<17]\<rparr>\<rparr>"
  have "packet_wf ?q" by (simp add: packet_wf_def packet_new_def reliability_defs u24_ok_def u24_new_def)
  moreover have "st_win (c_state ?conn) = dw_at (Uint24 0)"
    by (simp add: conn_state_new_def dw_new_def dw_at_def u24_new_def)
  moreover have "16 < length (st_splits (c_state ?conn))"
    by simp
  ultimately have "\<exists>conn' e. conn_receive (still_env Debug) listener_handler (build_datagram (Uint24 0) ?q) ?conn
      = (conn', Err (SplitPacket e)) \<and> st_ack_slice (c_state conn') = st_ack_slice (c_state ?conn) @ [Uint24 0]
      \<and> receiving_side conn' = receiving_side ?conn"
    by (intro acknowledged_but_dropped) (simp_all add: u24_inner_def)
  then show ?thesis by (auto simp: conn_state_new_def)
qed

text \<open>
  A packet that the handler rejects takes those behind it along. When a ping that is too short is the
  packet a dialer's queue waits for, the packets behind it are fetched and dropped with it: none is
  given to the user, and the queue refuses each of them from then on.
\<close>

theorem rejected_packet_takes_along:
  assumes "env_profile env = Release" and "c_closing conn = 0" and "st_packet_queue (c_state conn) = q" and "pq_inv q"
    and "u24_inner (pq_lowest q)" and "\<not> pq_seen q (pq_lowest q)" and "pq_seen q waiting"
    and pk: "reliability pk = RELIABILITY_RELIABLE_ORDERED" "order_index pk = pq_lowest q" "content pk = [CONNECTED_PING]"
  shows "\<exists>conn'. receive_packet env dialer_handler pk conn = (conn', Err UnexpectedEof) \<and> c_log conn' = c_log conn
    \<and> \<not> snd (pq_put waiting c (st_packet_queue (c_state conn')))"
proof -
  obtain q1 fresh where put: "pq_put (pq_lowest q) [CONNECTED_PING] q = (q1, fresh)" by (cases "pq_put (pq_lowest q) [CONNECTED_PING] q")
  have fresh: fresh using pq_put_result [of "pq_lowest q" "[CONNECTED_PING]" q] put assms(6) by simp
  then have q1: "pq_lowest q1 = pq_lowest q" "pq_queue q1 (u24 (pq_lowest q)) = Some [CONNECTED_PING]"
    using put by (auto simp: pq_put_def Let_def split: if_splits)
  have inv: "pq_inv q1" using pq_inv_put [OF assms(4,5)] put by (metis fst_conv)
  obtain q2 ps where fetch: "pq_fetch q1 = (q2, ps)" by (cases "pq_fetch q1")
  note spec = pq_fetch_spec [OF inv fetch]
  have "u24 (pq_lowest q) < u24 (pq_lowest q2)"
    using spec(3,5) q1 by (metis less_eq_Uint24_def option.distinct(1) order_le_imp_less_or_eq)
  then have "ps = [CONNECTED_PING] # map (\<lambda>j. the (pq_queue q1 (of_nat j))) [Suc (unat (u24 (pq_lowest q))) ..< unat (u24 (pq_lowest q2))]"
    using spec(4) q1 by (simp add: word_less_nat_alt upt_conv_Cons)
  then obtain rest where ps: "ps = [CONNECTED_PING] # rest" by blast
  obtain size where size: "pq_window_size (env_profile env) q1 = Ok size" using assms(1) by (simp add: pq_window_size_def)
  let ?c = "conn\<lparr>c_state := (c_state conn)\<lparr>st_packet_queue := q2\<rparr>\<rparr>"
  have "receive_packet env dialer_handler pk conn = handle_packets env dialer_handler ps ?c"
    using put fresh fetch size pk assms(3) by (simp add: receive_packet_def dialer_handler_def Let_def)
  also have "\<dots> = (?c, Err UnexpectedEof)"
    using assms(2) by (simp add: ps handle_packet_def dialer_handler_def dialer_handle_def handled_def
        handle_connected_ping_def connected_ping_read_def id_defs Let_def)
  finally have "receive_packet env dialer_handler pk conn = (?c, Err UnexpectedEof)" .
  moreover have "pq_seen q2 waiting"
    using spec(8) pq_put_seen [of "pq_lowest q" "[CONNECTED_PING]" q waiting] put assms(7) by simp
  ultimately show ?thesis using pq_put_result [of waiting c q2] by simp
qed

theorem rejected_packet_takes_along_witness:
  "\<exists>conn'. receive_packet (still_env Release) dialer_handler (packet_new\<lparr>content := [CONNECTED_PING]\<rparr>)
      ((conn_new (V4 1 2) 1400 0)\<lparr>c_state := conn_state_new\<lparr>st_packet_queue :=
         \<lparr>pq_lowest = Uint24 0, pq_highest = Uint24 2, pq_queue = [1 \<mapsto> [0xfe]]\<rparr>\<rparr>\<rparr>) = (conn', Err UnexpectedEof)
    \<and> c_log conn' = [] \<and> \<not> snd (pq_put (Uint24 1) [0xfe] (st_packet_queue (c_state conn')))"
proof -
  let ?q = "\<lparr>pq_lowest = Uint24 0, pq_highest = Uint24 2, pq_queue = [1 \<mapsto> [0xfe]]\<rparr>"
  let ?conn = "(conn_new (V4 1 2) 1400 0)\<lparr>c_state := conn_state_new\<lparr>st_packet_queue := ?q\<rparr>\<rparr>"
  have "pq_inv ?q" "u24_inner (pq_lowest ?q)" "\<not> pq_seen ?q (pq_lowest ?q)" "pq_seen ?q (Uint24 1)"
    by (simp_all add: pq_inv_def u24_ok_def less_eq_Uint24_def u24_inner_def pq_seen_def)
  from rejected_packet_takes_along [of "still_env Release" ?conn, OF _ _ _ this, of "packet_new\<lparr>content := [CONNECTED_PING]\<rparr>" "[0xfe]"]
  show ?thesis by (simp add: conn_new_def packet_new_def u24_new_def)
qed

end
