(* ===== verification/Retransmission.thy ===== *)
theory Retransmission
  imports Reliability "HOL-Library.Multiset"
begin

text \<open>
  The sender's side of reliability. Every packet sent waits in the resend map under the number of
  its last datagram until that number is acknowledged; a negative acknowledgement or its age gets
  it sent again under a new number. \<open>retains\<close> relates the connection a method finds to the one it
  leaves and holds of everything that can happen to a connection.
\<close>

section \<open>Packets that wait\<close>

definition outbox :: "Conn \<Rightarrow> Uint24 \<times> Uint24 \<times> Uint24 \<times> ResendMap" where
  "outbox conn = (st_seq (c_state conn), st_order_index (c_state conn), st_message_index (c_state conn),
     st_retransmission (c_state conn))"

definition packets_of :: "ResendMap \<Rightarrow> Packet multiset" where
  "packets_of m = image_mset (\<lambda>(_, record). rr_packet record) (mset (unacknowledged m))"

definition awaiting :: "Conn \<Rightarrow> Packet multiset" where
  "awaiting conn = packets_of (st_retransmission (c_state conn))"

lemma packets_of_add:
  assumes "u24 i \<notin> fst ` set (unacknowledged m)"
  shows "packets_of (rm_add now i pk m) = add_mset pk (packets_of m)"
  using alist_update_new [OF assms] by (simp add: packets_of_def rm_add_def)

lemma mset_delete:
  assumes "distinct (map fst al)" and "map_of al k = Some v"
  shows "mset al = add_mset (k, v) (mset (AList.delete k al))"
  using assms
proof (induction al)
  case (Cons a al)
  obtain k' v' where a: "a = (k', v')" by (cases a)
  show ?case
  proof (cases "k' = k")
    case True
    then have "k \<notin> fst ` set al" using Cons.prems(1) a by simp
    then have "AList.delete k al = al" by (rule delete_id)
    with True Cons.prems(2) show ?thesis by (simp add: a)
  qed (use Cons a in auto)
qed simp

lemma packets_of_remove:
  assumes "rm_inv m"
  shows "case rm_remove now i n m of
      (m', Some pk) \<Rightarrow> packets_of m = add_mset pk (packets_of m') \<and> u24 i \<in> fst ` set (unacknowledged m)
    | (m', None) \<Rightarrow> m' = m"
proof (cases "map_of (unacknowledged m) (u24 i)")
  case None
  then show ?thesis by (simp add: rm_remove_def)
next
  case (Some rec)
  then have "u24 i \<in> fst ` set (unacknowledged m)" by (metis domI dom_map_of_conv_image_fst)
  moreover have "distinct (map fst (unacknowledged m))" using assms by (simp add: rm_inv_def)
  ultimately show ?thesis
    using mset_delete [OF _ Some] Some by (simp add: rm_remove_def packets_of_def Let_def)
qed

lemma keys_remove: "fst ` set (unacknowledged (fst (rm_remove now i n m))) \<subseteq> fst ` set (unacknowledged m)"
  by (auto simp: rm_remove_def Let_def AList.delete_eq intro: rev_image_eqI split: option.split)

lemma keys_add: "fst ` set (unacknowledged (rm_add now i pk m)) = insert (u24 i) (fst ` set (unacknowledged m))"
  by (simp add: rm_add_def dom_update)

section \<open>Retaining\<close>

definition outbox_typed :: "Conn \<Rightarrow> bool" where
  "outbox_typed conn \<longleftrightarrow> (case outbox conn of (seq, order, message, m) \<Rightarrow>
     u24_ok seq \<and> u24_ok order \<and> u24_ok message \<and> rm_inv m
     \<and> (\<forall>k \<in> fst ` set (unacknowledged m). unat k < 2 ^ 24))"

text \<open>Every number in use is below the next one: the counter has not come round.\<close>

definition ahead :: "Conn \<Rightarrow> bool" where
  "ahead conn \<longleftrightarrow> (\<forall>k \<in> fst ` set (unacknowledged (st_retransmission (c_state conn))).
     k < u24 (st_seq (c_state conn)))"

definition grown :: "Conn \<Rightarrow> Conn \<Rightarrow> nat" where
  "grown conn conn' = length (c_log conn') - length (c_log conn)"

definition next_seq :: "Conn \<Rightarrow> nat" where
  "next_seq conn = unat (u24 (st_seq (c_state conn)))"

text \<open>
  What a method that does not wrap the counter does: nothing that waits is lost, unless \<open>keep\<close> is
  false, and every number used shows in the log.
\<close>

definition retains :: "bool \<Rightarrow> Conn \<Rightarrow> Conn \<Rightarrow> bool" where
  "retains keep conn conn' \<longleftrightarrow> length (c_log conn) \<le> length (c_log conn')
     \<and> (outbox_typed conn \<longrightarrow> outbox_typed conn'
         \<and> (ahead conn \<and> next_seq conn + grown conn conn' < 2 ^ 24 \<longrightarrow>
              ahead conn' \<and> (keep \<longrightarrow> awaiting conn \<subseteq># awaiting conn')
              \<and> next_seq conn' \<le> next_seq conn + grown conn conn'))"

lemma retains_frame:
  assumes "outbox conn' = outbox conn" and "length (c_log conn) \<le> length (c_log conn')"
  shows "retains keep conn conn'"
  using assms by (auto simp: retains_def outbox_typed_def ahead_def awaiting_def next_seq_def outbox_def)

lemma retains_refl [simp]: "retains keep conn conn"
  by (rule retains_frame) simp_all

lemma retains_trans:
  assumes ab: "retains keep a b" and bc: "retains keep b c"
  shows "retains keep a c"
  unfolding retains_def
proof (intro conjI impI)
  show log: "length (c_log a) \<le> length (c_log c)" using ab bc by (simp add: retains_def)
  have grown: "grown a c = grown a b + grown b c" using ab bc by (simp add: retains_def grown_def)
  assume typed: "outbox_typed a"
  then show "outbox_typed c" using ab bc by (simp add: retains_def)
  assume room: "ahead a \<and> next_seq a + grown a c < 2 ^ 24"
  then have b: "ahead b" "keep \<longrightarrow> awaiting a \<subseteq># awaiting b" "next_seq b \<le> next_seq a + grown a b"
    using ab typed grown by (simp_all add: retains_def)
  then have "next_seq b + grown b c < 2 ^ 24" using room grown by linarith
  then have c: "ahead c" "keep \<longrightarrow> awaiting b \<subseteq># awaiting c" "next_seq c \<le> next_seq b + grown b c"
    using bc b ab typed by (simp_all add: retains_def)
  show "ahead c" by (rule c(1))
  show "awaiting a \<subseteq># awaiting c" if keep using b(2) c(2) that by (meson subset_mset.order_trans)
  show "next_seq c \<le> next_seq a + grown a c" using b(3) c(3) grown by linarith
qed

lemma retains_update:
  assumes "st_seq (c_state conn') = st_seq (c_state conn)"
    and "unacknowledged (st_retransmission (c_state conn')) = unacknowledged (st_retransmission (c_state conn))"
    and "outbox_typed conn \<Longrightarrow> u24_ok (st_order_index (c_state conn')) \<and> u24_ok (st_message_index (c_state conn'))
      \<and> rm_inv (st_retransmission (c_state conn'))"
    and "c_log conn' = c_log conn"
  shows "retains keep conn conn'"
  using assms
  by (auto simp: retains_def outbox_typed_def ahead_def awaiting_def packets_of_def next_seq_def outbox_def)

text \<open>Forgetting a packet.\<close>

lemma retains_forget:
  assumes "outbox conn' = (seq, order, message, m)" and "outbox conn = (seq, order, message, m0)"
    and "rm_inv m0 \<Longrightarrow> rm_inv m" and "fst ` set (unacknowledged m) \<subseteq> fst ` set (unacknowledged m0)"
    and "c_log conn' = c_log conn"
  shows "retains False conn conn'"
proof -
  have "outbox_typed conn'" if "outbox_typed conn"
    using that assms(3,4) unfolding outbox_typed_def assms(1,2) by fast
  moreover have "ahead conn'" if "ahead conn"
  proof -
    have "st_seq (c_state conn') = st_seq (c_state conn)" "st_retransmission (c_state conn') = m"
      "st_retransmission (c_state conn) = m0"
      using assms(1,2) by (simp_all add: outbox_def)
    then show ?thesis using that assms(4) unfolding ahead_def by (simp only:) blast
  qed
  ultimately show ?thesis using assms(1,2,5) by (simp add: retains_def next_seq_def outbox_def)
qed

text \<open>A packet sent under the next number, with one entry of the log.\<close>

lemma retains_send:
  assumes "outbox conn' = (snd (u24_inc seq), order, message, rm_add now seq pk m)"
    and "st_seq (c_state conn) = seq"
    and "outbox_typed conn \<Longrightarrow> u24_ok order" and "outbox_typed conn \<Longrightarrow> u24_ok message"
    and "rm_inv (st_retransmission (c_state conn)) \<Longrightarrow> rm_inv m"
    and "fst ` set (unacknowledged m) \<subseteq> fst ` set (unacknowledged (st_retransmission (c_state conn)))"
    and "rm_inv (st_retransmission (c_state conn)) \<Longrightarrow> packets_of (st_retransmission (c_state conn)) \<subseteq># add_mset pk (packets_of m)"
    and "length (c_log conn') = Suc (length (c_log conn))"
  shows "retains keep conn conn'"
proof -
  have seq': "st_seq (c_state conn') = snd (u24_inc seq)" "st_retransmission (c_state conn') = rm_add now seq pk m"
    using assms(1) by (simp_all add: outbox_def)
  have grown: "grown conn conn' = 1" using assms(8) by (simp add: grown_def)
  have inv: "rm_inv (st_retransmission (c_state conn))" if "outbox_typed conn"
    using that by (simp add: outbox_typed_def outbox_def)
  have "outbox_typed conn'" if typed: "outbox_typed conn"
  proof -
    have seq: "u24_ok seq" and keys: "\<forall>k \<in> fst ` set (unacknowledged (st_retransmission (c_state conn))). unat k < 2 ^ 24"
      using typed assms(2) by (simp_all add: outbox_typed_def outbox_def)
    have "\<forall>k \<in> fst ` set (unacknowledged (rm_add now seq pk m)). unat k < 2 ^ 24"
      unfolding keys_add using seq keys assms(6) by (simp only: u24_ok_iff_unat) blast
    then show ?thesis
      using assms(3,4) [OF typed] assms(5) inv [OF typed] by (simp add: outbox_typed_def assms(1) rm_inv_add)
  qed
  moreover have "ahead conn' \<and> awaiting conn \<subseteq># awaiting conn' \<and> next_seq conn' \<le> next_seq conn + 1"
    if typed: "outbox_typed conn" and before: "ahead conn" and room: "next_seq conn + 1 < 2 ^ 24"
  proof -
    have "u24_ok seq" using typed assms(2) by (simp add: outbox_typed_def outbox_def)
    then have next': "unat (u24 (snd (u24_inc seq))) = unat (u24 seq) + 1"
      using room assms(2) by (simp add: unat_u24_inc next_seq_def)
    have less: "k < u24 seq" if "k \<in> fst ` set (unacknowledged m)" for k
      using before that assms(2,6) unfolding ahead_def by blast
    then have "packets_of (rm_add now seq pk m) = add_mset pk (packets_of m)"
      by (intro packets_of_add) blast
    then have "awaiting conn \<subseteq># awaiting conn'" using assms(7) inv [OF typed] by (simp add: awaiting_def seq')
    moreover have "k < u24 (snd (u24_inc seq))" if "k \<in> fst ` set (unacknowledged (rm_add now seq pk m))" for k
    proof -
      have "k = u24 seq \<or> k < u24 seq" using that less unfolding keys_add by blast
      then show ?thesis using next' by (auto simp: word_less_nat_alt)
    qed
    ultimately show ?thesis using next' assms(2) by (simp add: ahead_def seq' next_seq_def)
  qed
  ultimately show ?thesis using assms(8) grown by (simp add: retains_def)
qed

section \<open>Every method\<close>

lemma outbox_updates [simp]:
  "outbox (conn\<lparr>c_reads := n\<rparr>) = outbox conn" "outbox (conn\<lparr>c_tasks := ts\<rparr>) = outbox conn"
  "outbox (conn\<lparr>c_rtt := rtt\<rparr>) = outbox conn" "outbox (conn\<lparr>c_log := es\<rparr>) = outbox conn"
  "outbox (conn\<lparr>c_reads := n, c_last_activity := t\<rparr>) = outbox conn"
  "outbox (emit e conn) = outbox conn" "outbox (set_pk pk conn) = outbox conn"
  "outbox (conn\<lparr>c_nack_buf := buf\<rparr>) = outbox conn" "outbox (conn\<lparr>c_ack_buf := buf\<rparr>) = outbox conn"
  by (simp_all add: outbox_def emit_def set_pk_def)

lemma outbox_state: "c_state conn' = c_state conn \<Longrightarrow> outbox conn' = outbox conn"
  by (simp add: outbox_def)

lemma retains_send_datagram:
  assumes "\<And>es. send_ok env es"
  shows "retains keep conn (fst (send_datagram env pk conn)) \<and> snd (send_datagram env pk conn) = Ok ()"
proof
  let ?st = "c_state conn"
  show "snd (send_datagram env pk conn) = Ok ()"
    using assms by (simp add: send_datagram_def read_clock_def chan_send_def Let_def split: prod.split)
  show "retains keep conn (fst (send_datagram env pk conn))"
    using assms
    by (intro retains_send [of _ "st_seq ?st" "st_order_index ?st" "st_message_index ?st"
          "clock env (c_reads conn)" pk "st_retransmission ?st"])
      (simp_all add: send_datagram_def read_clock_def chan_send_def emit_def outbox_def outbox_typed_def u24_inc_def Let_def)
qed

lemma retains_write_fragments:
  assumes "\<And>es. send_ok env es"
  shows "retains keep conn (fst (write_fragments env order sid fragments i cs n conn))"
proof (induction cs arbitrary: i n conn)
  case (Cons c rest)
  let ?message = "st_message_index (c_state conn)"
  let ?c = "conn\<lparr>c_state := (c_state conn)\<lparr>st_message_index := snd (u24_inc ?message)\<rparr>\<rparr>"
  let ?pk = "fragment_packet order sid fragments i ?message c"
  have inc: "u24_inc ?message = (?message, snd (u24_inc ?message))" by (simp add: u24_inc_def)
  obtain c' where send: "send_datagram env ?pk ?c = (c', Ok ())"
    using retains_send_datagram [OF assms, of keep ?c ?pk] prod.collapse by metis
  have "retains keep conn ?c"
    by (rule retains_update) (simp_all add: outbox_typed_def outbox_def)
  moreover have "retains keep ?c c'" using retains_send_datagram [OF assms, of keep ?c ?pk] unfolding send by simp
  ultimately have "retains keep conn c'" by (rule retains_trans)
  from retains_trans [OF this Cons.IH] show ?case
    by (subst write_fragments.simps, subst inc) (simp only: Let_def prod.case send and_then_st_simps)
qed simp

text \<open>The body of a spawned task.\<close>

lemma retains_run_task: "retains keep conn (run_task env k conn)"
proof (cases "k < length (c_tasks conn)")
  case True
  let ?st = "c_state conn"
  show ?thesis
    using True
    by (intro retains_send [of _ "st_seq ?st" "snd (u24_inc (st_order_index ?st))" "snd (u24_inc (st_message_index ?st))"
          "clock env (c_reads conn)" "packet_new\<lparr>content := c_tasks conn ! k, order_index := st_order_index ?st,
            message_index := st_message_index ?st\<rparr>" "st_retransmission ?st"])
      (simp_all add: run_task_def send_message_task_def read_clock_def chan_try_send_def emit_def outbox_def
        u24_inc_def and_u24_mask Let_def)
qed (simp add: run_task_def)

text \<open>One packet sent again, and all of a list.\<close>

definition resent :: "env \<Rightarrow> Uint24 \<Rightarrow> Packet \<Rightarrow> Conn \<Rightarrow> Conn" where
  "resent env p pk conn =
     (let st = c_state conn; m = fst (rm_retransmit (clock env (c_reads conn)) p (st_retransmission st))
      in chan_try_send (build_datagram (st_seq st) pk) (conn\<lparr>c_reads := Suc (Suc (c_reads conn)),
           c_state := st\<lparr>st_seq := snd (u24_inc (st_seq st)),
             st_retransmission := rm_add (clock env (Suc (c_reads conn))) (st_seq st) pk m\<rparr>\<rparr>))"

lemma resend_all_step:
  "resend_all env (p # rest) conn =
     (case rm_pending (st_retransmission (c_state conn)) (u24 p) of
        None \<Rightarrow> resend_all env rest (conn\<lparr>c_reads := Suc (c_reads conn)\<rparr>)
      | Some pk \<Rightarrow> resend_all env rest (resent env p pk conn))"
proof -
  let ?m = "st_retransmission (c_state conn)" and ?now = "clock env (c_reads conn)"
  have "snd (rm_retransmit ?now p ?m) = rm_pending ?m (u24 p)" by (simp add: rm_retransmit_def rm_remove_result)
  then show ?thesis
    by (cases "rm_retransmit ?now p ?m")
      (auto simp: read_clock_def u24_inc_def resent_def Let_def split: option.split)
qed

lemma resent_fields:
  assumes "rm_pending (st_retransmission (c_state conn)) (u24 p) = Some pk"
  shows "c_log (resent env p pk conn) = c_log conn @ [TrySent (build_datagram (st_seq (c_state conn)) pk)]"
    and "st_seq (c_state (resent env p pk conn)) = snd (u24_inc (st_seq (c_state conn)))"
    and "rm_pending (st_retransmission (c_state (resent env p pk conn)))
      = (rm_pending (st_retransmission (c_state conn)))(u24 p := None, u24 (st_seq (c_state conn)) \<mapsto> pk)"
  by (simp_all add: resent_def chan_try_send_def emit_def rm_retransmit_def rm_pending_add rm_pending_remove Let_def)

lemma retains_resent:
  assumes "rm_pending (st_retransmission (c_state conn)) (u24 p) = Some pk"
  shows "retains keep conn (resent env p pk conn)"
proof -
  let ?st = "c_state conn" and ?now = "clock env (c_reads conn)"
  let ?m = "fst (rm_remove ?now p 2 (st_retransmission ?st))"
  show ?thesis
  proof (rule retains_send)
    show "outbox (resent env p pk conn) = (snd (u24_inc (st_seq ?st)), st_order_index ?st, st_message_index ?st,
        rm_add (clock env (Suc (c_reads conn))) (st_seq ?st) pk ?m)"
      by (simp add: outbox_def resent_def rm_retransmit_def chan_try_send_def emit_def Let_def)
    show "fst ` set (unacknowledged ?m) \<subseteq> fst ` set (unacknowledged (st_retransmission ?st))" by (rule keys_remove)
    show "packets_of (st_retransmission ?st) \<subseteq># add_mset pk (packets_of ?m)" if "rm_inv (st_retransmission ?st)"
      using packets_of_remove [OF that, where now = ?now and i = p and n = 2] assms rm_remove_result [of ?now p 2 "st_retransmission ?st"]
      by (cases "rm_remove ?now p 2 (st_retransmission ?st)") simp
  qed (simp_all add: outbox_typed_def outbox_def resent_fields [OF assms] rm_inv_remove)
qed

lemma retains_read: "retains keep conn (conn\<lparr>c_reads := n\<rparr>)"
  by (rule retains_frame) simp_all

lemma retains_resend_all: "retains keep conn (resend_all env ps conn)"
proof (induction ps arbitrary: conn)
  case (Cons p rest)
  show ?case
    using retains_trans [OF retains_read Cons.IH] retains_trans [OF retains_resent Cons.IH]
    by (simp add: resend_all_step del: resend_all.simps split: option.split)
qed simp

lemma retains_acknowledge_all: "retains False conn (acknowledge_all env seqs conn)"
proof (induction seqs arbitrary: conn)
  case (Cons seq rest)
  let ?m = "st_retransmission (c_state conn)"
  let ?m' = "fst (rm_acknowledge (clock env (c_reads conn)) seq ?m)"
  let ?c = "conn\<lparr>c_reads := Suc (c_reads conn), c_state := (c_state conn)\<lparr>st_retransmission := ?m'\<rparr>\<rparr>"
  have "retains False conn ?c"
    by (rule retains_forget [where m = ?m' and ?m0.0 = ?m])
      (simp_all add: outbox_def rm_acknowledge_def rm_inv_remove keys_remove)
  moreover have "acknowledge_all env (seq # rest) conn = acknowledge_all env rest ?c"
    by (simp add: read_clock_def Let_def split: prod.split)
  ultimately show ?case using retains_trans [OF _ Cons.IH] by simp
qed simp

lemma retains_check_resend: "retains keep conn (check_resend env now conn)"
proof -
  obtain m rtt where rtt: "rm_rtt now (st_retransmission (c_state conn)) = (m, rtt)"
    by (cases "rm_rtt now (st_retransmission (c_state conn))")
  let ?c = "conn\<lparr>c_rtt := of_nat rtt, c_state := (c_state conn)\<lparr>st_retransmission := m\<rparr>\<rparr>"
  have "retains keep conn ?c"
    using rm_rtt_pending [of now "st_retransmission (c_state conn)"] rm_inv_rtt [of "st_retransmission (c_state conn)" now] rtt
    by (intro retains_update) (auto simp: outbox_typed_def outbox_def)
  from retains_trans [OF this retains_resend_all] show ?thesis
    by (simp add: check_resend_def rtt Let_def)
qed

section \<open>Receiving leaves the outbox alone\<close>

lemma outbox_window_frame: "window_frame conn conn' \<Longrightarrow> outbox conn' = outbox conn"
  by (auto simp: window_frame_def window_erased_def outbox_def dest: arg_cong [where f = st_seq]
      arg_cong [where f = st_order_index] arg_cong [where f = st_message_index] arg_cong [where f = st_retransmission])

context connection_handler
begin

lemma outbox_dispatch: "outbox (fst (dispatch_packet env h pk conn)) = outbox conn"
proof -
  have packet: "outbox (fst (receive_packet env h pk conn)) = outbox conn" for pk conn
    using receive_packet_frame [of env pk conn] by (auto simp: outbox_def)
  then have "outbox (fst (receive_split_packet env h pk conn)) = outbox conn"
    by (simp add: receive_split_packet_def Let_def and_then_st_def outbox_def split: outcome.split)
  with packet show ?thesis by (simp add: dispatch_packet_def)
qed

lemma outbox_receive_datagram: "outbox (fst (receive_datagram env h data conn)) = outbox conn"
proof (cases rule: receive_datagram_cases [of env h data conn])
  case (stop conn' r)
  then show ?thesis using outbox_window_frame by simp
next
  case (go_on conn')
  have "outbox (fst (handle_datagram env h (drop 3 data) conn')) = outbox conn"
    by (rule handle_datagram_keeps [where P = "\<lambda>c. outbox c = outbox conn"])
      (use go_on(2) outbox_window_frame outbox_dispatch in simp_all)
  with go_on(1) show ?thesis by simp
qed

end

section \<open>Steps\<close>

text \<open>The reception of an acknowledgement.\<close>

fun acknowledges :: "bytes \<Rightarrow> bool" where
  "acknowledges [] = False"
| "acknowledges (b # data) = (b AND BIT_FLAG_ACK \<noteq> 0)"

lemma evolves_log: "evolves listed conn conn' \<Longrightarrow> length (c_log conn) \<le> length (c_log conn')"
  by (auto simp: evolves_def life_log_def)

lemma retains_chain:
  "retains keep conn conn' \<Longrightarrow> outbox c = outbox conn' \<Longrightarrow> length (c_log conn') \<le> length (c_log c) \<Longrightarrow> retains keep conn c"
  using retains_trans retains_frame by blast

context life_handler
begin

lemma retains_receive:
  "retains (\<not> acknowledges data) conn (fst (conn_receive env h data conn))"
proof (cases data)
  case Nil
  then show ?thesis by (simp add: conn_receive_def read_clock_def retains_frame)
next
  case (Cons b rest)
  let ?c = "conn\<lparr>c_reads := Suc (c_reads conn), c_last_activity := clock env (c_reads conn)\<rparr>"
  have c: "retains keep conn ?c" for keep by (rule retains_frame) simp_all
  have "length (c_log ?c) \<le> length (c_log (fst (receive_datagram env h rest ?c)))"
    using evolves_log [OF evolves_receive_datagram [OF evolves_refl]] .
  then have datagram: "retains keep conn (fst (receive_datagram env h rest ?c))" for keep
    using retains_chain [OF c] outbox_receive_datagram by blast
  have ack: "retains False conn (fst (handle_ack env rest ?c))"
  proof (cases "ack_read (env_profile env) [] rest")
    case (Pair packets r)
    then show ?thesis using c retains_trans [OF c retains_acknowledge_all] by (cases r) (simp_all add: handle_ack_def split: unit.split)
  qed
  have nack: "retains keep conn (fst (handle_nack env rest ?c))" for keep
  proof (cases "ack_read (env_profile env) [] rest")
    case (Pair packets r)
    then show ?thesis using c retains_trans [OF c retains_resend_all] by (cases r) (simp_all add: handle_nack_def split: unit.split)
  qed
  show ?thesis
    using datagram ack nack c by (simp add: Cons conn_receive_def read_clock_def Let_def)
qed

lemma retains_close_immediately:
  assumes "retains keep conn c"
  shows "retains keep conn (close_immediately (h_close h) c)"
  by (rule retains_chain [OF assms outbox_state [OF splits_close_immediately]
        evolves_log [OF close_evolves [OF evolves_refl]]])

lemma retains_flush_acks:
  assumes "retains keep conn c"
  shows "retains keep conn (fst (flush_acks env c))"
proof (rule retains_chain [OF assms])
  have "outbox (fst (send_ack env packets c)) = outbox c" for packets c
    using outbox_window_frame [OF window_frame_send_ack_loop [of c env BIT_FLAG_ACK packets "c_ack_buf c"]]
    by (cases "send_ack_loop env BIT_FLAG_ACK packets (c_ack_buf c) c";
        cases "snd (send_ack_loop env BIT_FLAG_ACK packets (c_ack_buf c) c)")
      (simp_all add: send_ack_def send_acknowledgement_def)
  moreover have "fst (ignore_error r) = fst r" for r :: "Conn \<times> unit outcome"
    by (cases r; cases "snd r") auto
  ultimately show "outbox (fst (flush_acks env c)) = outbox c"
    by (simp add: flush_acks_def Let_def outbox_def)
  show "length (c_log c) \<le> length (c_log (fst (flush_acks env c)))"
    by (rule evolves_log [OF evolves_flush_acks [OF evolves_refl]])
qed

lemma retains_tick: "retains keep conn (fst (tick env (h_close h) tick_count conn))"
proof -
  have clock: "retains keep conn c \<Longrightarrow> retains keep conn (fst (read_clock env c))" for c
    by (erule retains_chain) (simp_all add: read_clock_def)
  have wall: "retains keep conn c \<Longrightarrow> retains keep conn (fst (read_wall env c))"
    "retains keep conn c \<Longrightarrow> retains keep conn (fst (timestamp env c))" for c
    by (erule retains_chain; simp add: read_wall_def timestamp_def)+
  have message: "retains keep conn c \<Longrightarrow> retains keep conn (fst (send_message data c))" for data c
    by (erule retains_chain) (simp_all add: send_message_def)
  have closing: "retains keep conn c \<Longrightarrow> retains keep conn (conn_close env c)" for c
    by (erule retains_chain) (simp_all add: conn_close_def read_wall_def outbox_def)
  have resend: "retains keep conn c \<Longrightarrow> retains keep conn (check_resend env now c)" for now c
    using retains_trans [OF _ retains_check_resend] .
  show ?thesis
    unfolding tick_def Let_def
    by (intro keeps_ping [where P = "retains keep conn"] keeps_and_then_st [where P = "retains keep conn"]
        keeps_case_pair [where P = "retains keep conn"] keeps_case_pair_conn [where P = "retains keep conn"]
        keeps_if [where P = "retains keep conn"] keeps_if_conn [where P = "retains keep conn"]
        keeps_return [where P = "retains keep conn"] clock wall message closing resend
        retains_flush_acks retains_close_immediately retains_refl)
qed

end

text \<open>The steps that are not the reception of an acknowledgement.\<close>

inductive quiet_step :: "env \<Rightarrow> ConnectionHandler \<Rightarrow> Conn \<Rightarrow> Conn \<Rightarrow> bool" for env h where
  Quiet_received: "\<not> acknowledges data \<Longrightarrow> quiet_step env h conn (fst (conn_receive env h data conn))"
| Quiet_written: "quiet_step env h conn (fst (conn_write env data conn))"
| Quiet_messaged: "quiet_step env h conn (fst (send_message data conn))"
| Quiet_task_run: "quiet_step env h conn (run_task env k conn)"
| Quiet_ticked: "quiet_step env h conn (fst (tick env (h_close h) tick_count conn))"
| Quiet_closing: "quiet_step env h conn (conn_close env conn)"
| Quiet_closed: "quiet_step env h conn (close_immediately (h_close h) conn)"

abbreviation quiet_steps :: "env \<Rightarrow> ConnectionHandler \<Rightarrow> Conn \<Rightarrow> Conn \<Rightarrow> bool" where
  "quiet_steps env h \<equiv> (quiet_step env h)\<^sup>*\<^sup>*"

lemma retains_conn_write:
  assumes "\<And>es. send_ok env es"
  shows "retains keep conn (fst (conn_write env data conn))"
proof (cases "split (env_profile env) data (effective_mtu conn)")
  case (Ok fragments)
  let ?st = "(c_state conn)\<lparr>st_order_index := snd (u24_inc (st_order_index (c_state conn)))\<rparr>"
  have "retains keep conn (conn\<lparr>c_state := ?st\<rparr>)" "retains keep conn (conn\<lparr>c_state := ?st\<lparr>st_split_id := s\<rparr>\<rparr>)" for s
    by (rule retains_update; simp add: outbox_typed_def outbox_def)+
  note frags = this [THEN retains_trans, OF retains_write_fragments [OF assms]]
  show ?thesis
    using Ok frags by (simp add: conn_write_def write_locked_def u24_inc_def Let_def)
qed (simp_all add: conn_write_def write_locked_def)

context life_handler
begin

lemma retains_message: "retains keep conn (fst (send_message data conn))"
  by (rule retains_frame) (simp_all add: send_message_def)

lemma retains_closing: "retains keep conn (conn_close env conn)"
  by (rule retains_frame) (simp_all add: conn_close_def read_wall_def outbox_def)

lemmas retains_methods = retains_message retains_closing retains_run_task retains_tick
  retains_close_immediately [OF retains_refl]

lemma retains_quiet_step:
  assumes "\<And>es. send_ok env es" and "quiet_step env h conn conn'"
  shows "retains True conn conn'"
  using assms(2)
proof (cases rule: quiet_step.cases)
  case (Quiet_received data)
  then show ?thesis using retains_receive [of data conn env] by simp
qed (simp_all add: retains_methods retains_conn_write [OF assms(1)])

lemma retains_step:
  assumes "\<And>es. send_ok env es" and "conn_step env h conn conn'"
  shows "retains False conn conn'"
  using assms(2)
proof (cases rule: conn_step.cases)
  case (Received data)
  then show ?thesis using retains_receive [of data conn env] by (auto simp: retains_def)
qed (simp_all add: retains_methods retains_conn_write [OF assms(1)])

lemma retains_steps:
  assumes "\<And>es. send_ok env es" and "conn_steps env h conn conn'"
  shows "retains False conn conn'"
  using assms(2)
proof induction
  case (step a b)
  show ?case using retains_trans [OF step.IH] retains_step [OF assms(1) step(2)] by blast
qed simp

lemma retains_quiet_steps:
  assumes "\<And>es. send_ok env es" and "quiet_steps env h conn conn'"
  shows "retains True conn conn'"
  using assms(2)
proof induction
  case (step a b)
  show ?case using retains_trans [OF step.IH] retains_quiet_step [OF assms(1) step(2)] by blast
qed simp

end

lemma fresh_outbox: "outbox_typed (conn_new addr mtu now)" "ahead (conn_new addr mtu now)"
  "next_seq (conn_new addr mtu now) = 0" "c_log (conn_new addr mtu now) = []"
  by (simp_all add: outbox_typed_def outbox_def ahead_def next_seq_def conn_new_def conn_state_new_def rm_new_def
      rm_inv_def u24_new_def u24_ok_def)

context life_handler
begin

lemma reachable_waits:
  assumes "\<And>es. send_ok env es" and "conn_steps env h (conn_new addr mtu now) conn" and "quiet_steps env h conn conn'"
  shows "outbox_typed conn' \<and> (length (c_log conn') < 2 ^ 24 \<longrightarrow> ahead conn' \<and> awaiting conn \<subseteq># awaiting conn')"
proof -
  note first = retains_steps [OF assms(1,2)] and rest = retains_quiet_steps [OF assms(1,3)]
  have typed: "outbox_typed conn" using first fresh_outbox(1) by (simp add: retains_def)
  moreover have "ahead conn' \<and> awaiting conn \<subseteq># awaiting conn'" if room: "length (c_log conn') < 2 ^ 24"
  proof -
    have "length (c_log conn) \<le> length (c_log conn')" using rest by (simp add: retains_def)
    then have "ahead conn" "next_seq conn \<le> length (c_log conn)"
      using first fresh_outbox room unfolding retains_def by (simp_all add: grown_def)
    moreover from this have "next_seq conn + grown conn conn' < 2 ^ 24"
      using room \<open>length (c_log conn) \<le> length (c_log conn')\<close> by (simp add: grown_def)
    ultimately show ?thesis using rest typed by (simp add: retains_def)
  qed
  ultimately show ?thesis using rest by (simp add: retains_def)
qed

end

section \<open>Retransmission\<close>

text \<open>The packets that wait under some numbers, and the datagrams that carry them next.\<close>

definition waiting_under :: "Conn \<Rightarrow> Uint24 list \<Rightarrow> Packet list" where
  "waiting_under conn ps = List.map_filter (\<lambda>p. rm_pending (st_retransmission (c_state conn)) (u24 p)) ps"

fun next_datagrams :: "Uint24 \<Rightarrow> Packet list \<Rightarrow> effect list" where
  "next_datagrams seq [] = []"
| "next_datagrams seq (pk # pks) = TrySent (build_datagram seq pk) # next_datagrams (snd (u24_inc seq)) pks"

lemma awaiting_resent:
  assumes "outbox_typed conn" and "ahead conn" and "rm_pending (st_retransmission (c_state conn)) (u24 p) = Some pk"
  shows "awaiting (resent env p pk conn) = awaiting conn"
proof -
  let ?st = "c_state conn" and ?now = "clock env (c_reads conn)"
  let ?m = "fst (rm_remove ?now p 2 (st_retransmission ?st))"
  have inv: "rm_inv (st_retransmission ?st)" using assms(1) by (simp add: outbox_typed_def outbox_def)
  have "packets_of (st_retransmission ?st) = add_mset pk (packets_of ?m)"
    using packets_of_remove [OF inv, where now = ?now and i = p and n = 2] assms(3)
      rm_remove_result [of ?now p 2 "st_retransmission ?st"]
    by (cases "rm_remove ?now p 2 (st_retransmission ?st)") simp
  moreover have "u24 (st_seq ?st) \<notin> fst ` set (unacknowledged ?m)"
    using assms(2) keys_remove [of ?now p 2 "st_retransmission ?st"] unfolding ahead_def by blast
  ultimately show ?thesis
    by (simp add: awaiting_def resent_def rm_retransmit_def chan_try_send_def emit_def packets_of_add Let_def)
qed

lemma resend_all_fields:
  assumes "outbox_typed conn" and "ahead conn" and "distinct ps" and "\<forall>p \<in> set ps. u24 p < u24 (st_seq (c_state conn))"
    and "next_seq conn + length ps < 2 ^ 24"
  shows "c_log (resend_all env ps conn) = c_log conn @ next_datagrams (st_seq (c_state conn)) (waiting_under conn ps)
    \<and> awaiting (resend_all env ps conn) = awaiting conn
    \<and> (\<forall>p \<in> set ps. rm_pending (st_retransmission (c_state (resend_all env ps conn))) (u24 p) = None)
    \<and> (\<forall>i. i < u24 (st_seq (c_state conn)) \<longrightarrow> i \<notin> u24 ` set ps \<longrightarrow>
        rm_pending (st_retransmission (c_state (resend_all env ps conn))) i = rm_pending (st_retransmission (c_state conn)) i)"
  using assms
proof (induction ps arbitrary: conn)
  case Nil
  then show ?case by (simp add: waiting_under_def map_filter_simps)
next
  case (Cons p rest)
  let ?seq = "st_seq (c_state conn)"
  show ?case
  proof (cases "rm_pending (st_retransmission (c_state conn)) (u24 p)")
    case None
    let ?c = "conn\<lparr>c_reads := Suc (c_reads conn)\<rparr>"
    have "outbox_typed ?c" "ahead ?c" "next_seq ?c = next_seq conn" "awaiting ?c = awaiting conn"
      using Cons.prems(1,2) by (simp_all add: outbox_typed_def ahead_def next_seq_def awaiting_def)
    moreover have "u24 p \<notin> u24 ` set rest" using Cons.prems(3) by (metis distinct.simps(2) image_iff u24_eq_iff)
    ultimately show ?thesis using Cons.IH [of ?c] Cons.prems None
      by (simp add: resend_all_step waiting_under_def map_filter_simps del: resend_all.simps)
  next
    case (Some pk)
    let ?c = "resent env p pk conn"
    note f = resent_fields [OF Some, of env]
    have one: "grown conn ?c = 1" by (simp add: grown_def f(1))
    have c: "outbox_typed ?c" "ahead ?c" "next_seq ?c \<le> next_seq conn + 1"
      using retains_resent [OF Some, of True env] Cons.prems(1,2,5) one by (simp_all add: retains_def)
    have ok: "u24_ok ?seq" using Cons.prems(1) by (simp add: outbox_typed_def outbox_def)
    have seq: "unat (u24 (snd (u24_inc ?seq))) = unat (u24 ?seq) + 1"
      using Cons.prems(5) ok by (simp add: unat_u24_inc next_seq_def)
    then have above: "i < u24 (st_seq (c_state ?c))" if "i \<le> u24 ?seq" for i
      using that by (simp add: f(2) word_le_nat_alt word_less_nat_alt)
    have ne: "u24 q \<noteq> u24 p" "u24 q \<noteq> u24 ?seq" if "q \<in> set rest" for q
      using that Cons.prems(3,4) u24_eq_iff by (metis distinct.simps(2)) (use that Cons.prems(4) in auto)
    have waiting: "waiting_under conn (p # rest) = pk # waiting_under ?c rest"
    proof -
      have "waiting_under ?c qs = waiting_under conn qs" if "set qs \<subseteq> set rest" for qs
        using that ne by (induction qs) (auto simp: waiting_under_def map_filter_simps f(3) split: option.split)
      from this [of rest] Some show ?thesis by (simp add: waiting_under_def map_filter_simps)
    qed
    have "\<forall>q \<in> set rest. u24 q < u24 (st_seq (c_state ?c))"
      using Cons.prems(4) above by (auto intro: less_imp_le)
    note IH = Cons.IH [OF c(1,2) _ this]
    have step: "resend_all env (p # rest) conn = resend_all env rest ?c"
      by (simp add: resend_all_step Some del: resend_all.simps)
    have pending: "rm_pending (st_retransmission (c_state ?c)) i = (if i = u24 p then None
        else rm_pending (st_retransmission (c_state conn)) i)" if "i < u24 ?seq" for i
      using that by (auto simp: f(3))
    show ?thesis unfolding step
    proof (intro conjI)
      show "c_log (resend_all env rest ?c) = c_log conn @ next_datagrams ?seq (waiting_under conn (p # rest))"
        using IH Cons.prems(3,5) c(3) by (simp add: f(1,2) waiting)
      show "awaiting (resend_all env rest ?c) = awaiting conn"
        using IH Cons.prems(3,5) c(3) awaiting_resent [OF Cons.prems(1,2) Some] by simp
      have frame: "rm_pending (st_retransmission (c_state (resend_all env rest ?c))) i
          = rm_pending (st_retransmission (c_state ?c)) i"
        if "i < u24 ?seq" "i \<notin> u24 ` set rest" for i
        using IH Cons.prems(3,5) c(3) that above [of i] by simp
      show "\<forall>q \<in> set (p # rest). rm_pending (st_retransmission (c_state (resend_all env rest ?c))) (u24 q) = None"
      proof
        fix q
        assume q: "q \<in> set (p # rest)"
        show "rm_pending (st_retransmission (c_state (resend_all env rest ?c))) (u24 q) = None"
        proof (cases "q \<in> set rest")
          case True
          then show ?thesis using IH Cons.prems(3,5) c(3) by simp
        next
          case False
          with q have "q = p" by simp
          moreover have "u24 p < u24 ?seq" using Cons.prems(4) by simp
          moreover have "u24 p \<notin> u24 ` set rest" using ne(1) by (metis image_iff)
          ultimately show ?thesis using frame pending by simp
        qed
      qed
      show "\<forall>i. i < u24 ?seq \<longrightarrow> i \<notin> u24 ` set (p # rest) \<longrightarrow>
          rm_pending (st_retransmission (c_state (resend_all env rest ?c))) i
            = rm_pending (st_retransmission (c_state conn)) i"
        using frame pending by simp
    qed
  qed
qed

section \<open>Properties\<close>

text \<open>
  C8. Nothing sent is forgotten before it is acknowledged. As long as the send channel is open
  and fewer than \<open>2 ^ 24\<close> effects have happened, every packet that waits in a reachable
  state, a listener's or a dialer's, still waits after any further run in which no acknowledgement
  arrives, whatever else does: under its number or the one of its last retransmission.
\<close>

theorem packets_wait:
  assumes "\<And>es. send_ok env es" and "h = listener_handler \<or> h = dialer_handler"
    and "conn_steps env h (conn_new addr mtu now) conn" and "quiet_steps env h conn conn'"
    and "length (c_log conn') < 2 ^ 24"
  shows "awaiting conn \<subseteq># awaiting conn'"
  using assms listener_life.reachable_waits dialer_life.reachable_waits by blast

theorem packets_wait_witness:
  "awaiting (run_task (still_env Debug) 0 (fst (send_message [0] (conn_new (V4 1 2) 1400 0))))
     \<subseteq># awaiting (conn_close (still_env Debug)
          (run_task (still_env Debug) 0 (fst (send_message [0] (conn_new (V4 1 2) 1400 0)))))"
proof -
  let ?env = "still_env Debug" and ?new = "conn_new (V4 1 2) 1400 0"
  let ?c = "run_task ?env 0 (fst (send_message [0] ?new))"
  have "conn_steps ?env listener_handler ?new (fst (send_message [0] ?new))"
    by (rule r_into_rtranclp, rule conn_step.Messaged)
  then have steps: "conn_steps ?env listener_handler ?new ?c" "quiet_steps ?env listener_handler ?c (conn_close ?env ?c)"
    by (auto intro: rtranclp.rtrancl_into_rtrancl conn_step.Task_run quiet_step.Quiet_closing)
  have "length (c_log (conn_close ?env ?c)) = 1"
    by (simp add: run_task_def send_message_def send_message_task_def read_clock_def chan_try_send_def emit_def
        conn_close_def read_wall_def conn_new_def u24_inc_def Let_def)
  with packets_wait [OF _ _ steps] show ?thesis by simp
qed

text \<open>
  C34. The types of the sending side: in every reachable state of a connection whose send channel
  is open the three counters have 24 bits, the resend map holds each number once, and every number
  it holds has 24 bits, however often the counters have wrapped.
\<close>

theorem outbox_well_typed:
  assumes "\<And>es. send_ok env es" and "h = listener_handler \<or> h = dialer_handler"
    and "conn_steps env h (conn_new addr mtu now) conn"
  shows "u24_ok (st_seq (c_state conn)) \<and> u24_ok (st_order_index (c_state conn))
    \<and> u24_ok (st_message_index (c_state conn)) \<and> rm_inv (st_retransmission (c_state conn))
    \<and> (\<forall>i. rm_pending (st_retransmission (c_state conn)) i \<noteq> None \<longrightarrow> unat i < 2 ^ 24)"
proof -
  have "outbox_typed conn"
    using assms listener_life.reachable_waits [OF _ _ rtranclp.rtrancl_refl]
      dialer_life.reachable_waits [OF _ _ rtranclp.rtrancl_refl] by blast
  then show ?thesis
    by (auto simp: outbox_typed_def outbox_def rm_pending_def dest!: map_of_SomeD intro: rev_image_eqI)
qed

theorem outbox_well_typed_witness:
  "rm_inv (st_retransmission (c_state (run_task (still_env Debug) 0
     (fst (send_message [0] (conn_new (V4 1 2) 1400 0))))))"
proof -
  let ?c = "fst (send_message [0] (conn_new (V4 1 2) 1400 0))"
  have "conn_steps (still_env Debug) dialer_handler (conn_new (V4 1 2) 1400 0) ?c"
    by (rule r_into_rtranclp, rule conn_step.Messaged)
  then have "conn_steps (still_env Debug) dialer_handler (conn_new (V4 1 2) 1400 0) (run_task (still_env Debug) 0 ?c)"
    by (rule rtranclp.rtrancl_into_rtrancl, intro conn_step.Task_run)
  from outbox_well_typed [OF _ _ this] show ?thesis by simp
qed

text \<open>Acknowledged packets.\<close>

lemma acknowledge_all_fields:
  "rm_pending (st_retransmission (c_state (acknowledge_all env ps conn)))
     = (\<lambda>i. if i \<in> u24 ` set ps then None else rm_pending (st_retransmission (c_state conn)) i)
   \<and> c_log (acknowledge_all env ps conn) = c_log conn
   \<and> st_seq (c_state (acknowledge_all env ps conn)) = st_seq (c_state conn)"
proof (induction ps arbitrary: conn)
  case (Cons p rest)
  let ?m = "st_retransmission (c_state conn)"
  let ?c = "conn\<lparr>c_reads := Suc (c_reads conn), c_state := (c_state conn)\<lparr>st_retransmission :=
    fst (rm_acknowledge (clock env (c_reads conn)) p ?m)\<rparr>\<rparr>"
  have "acknowledge_all env (p # rest) conn = acknowledge_all env rest ?c"
    by (simp add: read_clock_def Let_def split: prod.split)
  then show ?case
    using Cons.IH [of ?c] by (auto simp: fun_eq_iff rm_acknowledge_def rm_pending_remove)
qed simp

text \<open>
  C21. An acknowledgement releases exactly the packets it names: afterwards none of its numbers
  waits, every other number waits for the same packet as before, and nothing is sent.
\<close>

theorem ack_releases_exactly:
  assumes "b AND BIT_FLAG_ACK \<noteq> 0" and "ack_read (env_profile env) [] data = (ps, Ok ())"
  shows "\<exists>conn'. conn_receive env h (b # data) conn = (conn', Ok ())
    \<and> rm_pending (st_retransmission (c_state conn'))
        = (\<lambda>i. if i \<in> u24 ` set ps then None else rm_pending (st_retransmission (c_state conn)) i)
    \<and> c_log conn' = c_log conn \<and> st_seq (c_state conn') = st_seq (c_state conn)"
  using assms acknowledge_all_fields [of env ps "conn\<lparr>c_reads := Suc (c_reads conn), c_last_activity := clock env (c_reads conn)\<rparr>"]
  by (simp add: conn_receive_def read_clock_def handle_ack_def Let_def split: unit.split cong: if_cong)

theorem ack_releases_exactly_witness:
  "\<exists>conn'. conn_receive (still_env Debug) dialer_handler (0xc0 # [0, 1, 1, 5, 0, 0]) (conn_new (V4 1 2) 1400 0) = (conn', Ok ())
     \<and> rm_pending (st_retransmission (c_state conn')) 5 = None"
proof -
  have "ack_read (env_profile (still_env Debug)) [] [0, 1, 1, 5, 0, 0] = ([Uint24 5], Ok ())"
    by code_simp
  from ack_releases_exactly [OF _ this, where b = "0xc0" and h = dialer_handler and conn = "conn_new (V4 1 2) 1400 0"]
  show ?thesis by (auto simp: flag_defs)
qed

text \<open>
  C20. A negative acknowledgement gets the packets it names sent again: in the order of its
  numbers, each waiting packet in one datagram, under consecutive new sequence numbers. The named
  numbers are free afterwards, the others wait for what they did, and the packets that wait are
  the same as before. The numbers are taken to be different numbers sent before, and the counter
  not to wrap.
\<close>

theorem nack_retransmits:
  assumes "b AND BIT_FLAG_ACK = 0" and "b AND BIT_FLAG_NACK \<noteq> 0"
    and "ack_read (env_profile env) [] data = (ps, Ok ())"
    and "outbox_typed conn" and "ahead conn" and "distinct ps" and "\<forall>p \<in> set ps. u24 p < u24 (st_seq (c_state conn))"
    and "next_seq conn + length ps < 2 ^ 24"
  shows "\<exists>conn'. conn_receive env h (b # data) conn = (conn', Ok ())
    \<and> c_log conn' = c_log conn @ next_datagrams (st_seq (c_state conn)) (waiting_under conn ps)
    \<and> awaiting conn' = awaiting conn
    \<and> (\<forall>p \<in> set ps. rm_pending (st_retransmission (c_state conn')) (u24 p) = None)
    \<and> (\<forall>i. i < u24 (st_seq (c_state conn)) \<longrightarrow> i \<notin> u24 ` set ps \<longrightarrow>
        rm_pending (st_retransmission (c_state conn')) i = rm_pending (st_retransmission (c_state conn)) i)"
proof -
  let ?c = "conn\<lparr>c_reads := Suc (c_reads conn), c_last_activity := clock env (c_reads conn)\<rparr>"
  have "outbox_typed ?c" "ahead ?c" "next_seq ?c = next_seq conn" "awaiting ?c = awaiting conn"
      "waiting_under ?c ps = waiting_under conn ps"
    using assms(4,5) by (simp_all add: outbox_typed_def ahead_def next_seq_def awaiting_def waiting_under_def)
  moreover have "conn_receive env h (b # data) conn = (resend_all env ps ?c, Ok ())"
    using assms(1-3) by (simp add: conn_receive_def read_clock_def handle_nack_def Let_def split: unit.split)
  ultimately show ?thesis using resend_all_fields [of ?c ps env] assms(6-8) by simp
qed

theorem nack_retransmits_witness:
  "c_log (fst (conn_receive (still_env Debug) dialer_handler (0xa0 # [0, 1, 1, 0, 0, 0])
     (run_task (still_env Debug) 0 (fst (send_message [7] (conn_new (V4 1 2) 1400 0))))))
   = (let pk = packet_new\<lparr>content := [7], order_index := Uint24 0, message_index := Uint24 0\<rparr>
      in [TrySent (build_datagram (Uint24 0) pk), TrySent (build_datagram (Uint24 1) pk)])"
proof -
  let ?env = "still_env Debug" and ?pk = "packet_new\<lparr>content := [7], order_index := Uint24 0, message_index := Uint24 0\<rparr>"
  let ?c = "run_task ?env 0 (fst (send_message [7] (conn_new (V4 1 2) 1400 0)))"
  have read: "ack_read (env_profile ?env) [] [0, 1, 1, 0, 0, 0] = ([Uint24 0], Ok ())" by code_simp
  have c: "c_log ?c = [TrySent (build_datagram (Uint24 0) ?pk)]" "st_seq (c_state ?c) = Uint24 1"
      "st_retransmission (c_state ?c) = rm_add 0 (Uint24 0) ?pk rm_new"
      "st_order_index (c_state ?c) = Uint24 1" "st_message_index (c_state ?c) = Uint24 1"
    by (simp_all add: run_task_def send_message_def send_message_task_def read_clock_def chan_try_send_def emit_def
        conn_new_def conn_state_new_def u24_inc_def u24_mask_def u24_new_def Let_def)
  have "outbox_typed ?c" "ahead ?c" "next_seq ?c = 1"
    by (simp_all add: outbox_typed_def outbox_def ahead_def next_seq_def c rm_inv_add u24_ok_def)
      (simp_all add: rm_add_def rm_new_def)
  from nack_retransmits [OF _ _ read this(1,2), where b = "0xa0" and h = dialer_handler] this(3)
  show ?thesis
    by (auto simp: flag_defs c waiting_under_def map_filter_simps rm_pending_add Let_def)
qed

end
