(* ===== verification/Closing.thy ===== *)
theory Closing
  imports Conn_Life
begin

text \<open>
  How connections end: what a tick does to a closing connection, and that a connection whose peer
  has fallen silent is closed. The two readings of time of a tick come from the environment of that
  tick; the statements are about every environment whose readings are late enough.
\<close>

section \<open>One tick\<close>

text \<open>Flushing the acknowledgements, without overflow checks.\<close>

lemma flush_acks_Release:
  assumes "env_profile env = Release"
  shows "\<exists>conn'. flush_acks env conn = (conn', Ok ()) \<and> c_closing conn' = c_closing conn
    \<and> c_rtt conn' = c_rtt conn \<and> c_last_activity conn' = c_last_activity conn \<and> c_closed conn' = c_closed conn
    \<and> st_retransmission (c_state conn') = st_retransmission (c_state conn)"
proof (cases "st_ack_slice (c_state conn) = []")
  case True
  then show ?thesis by (simp add: flush_acks_def)
next
  case False
  let ?c = "conn\<lparr>c_state := (c_state conn)\<lparr>st_ack_slice := []\<rparr>\<rparr>"
  obtain buf c where "send_ack_loop env BIT_FLAG_ACK (st_ack_slice (c_state conn)) (c_ack_buf ?c) ?c = (c, Ok buf)"
    using send_ack_loop_Release [OF assms] by blast
  moreover obtain es where "c = ?c\<lparr>c_log := es\<rparr>"
    using send_ack_loop_log [of env BIT_FLAG_ACK "st_ack_slice (c_state conn)" "c_ack_buf ?c" ?c] calculation by auto
  ultimately show ?thesis
    using False by (simp add: flush_acks_def send_ack_def send_acknowledgement_def Let_def)
qed

lemma resend_all_fields_kept:
  "c_closing (resend_all env ps conn) = c_closing conn \<and> c_closed (resend_all env ps conn) = c_closed conn"
  by (induction env ps conn rule: resend_all.induct)
    (simp_all add: read_clock_def chan_try_send_def emit_def Let_def split: prod.split option.split)

lemma check_resend_empty:
  assumes "unacknowledged (st_retransmission (c_state conn)) = []" and "hash_order env [] = []"
  shows "unacknowledged (st_retransmission (c_state (check_resend env now conn))) = []"
proof (cases "rm_rtt now (st_retransmission (c_state conn))")
  case (Pair m rtt)
  then have "unacknowledged m = []" using rm_rtt_pending [of now "st_retransmission (c_state conn)"] assms(1) by simp
  with Pair assms(2) show ?thesis by (simp add: check_resend_def overdue_records_def Let_def)
qed

text \<open>The connection at the point of a tick where the closing time is read.\<close>

definition before_closing :: "env \<Rightarrow> u64 \<Rightarrow> Conn \<Rightarrow> Conn" where
  "before_closing env tick_count conn =
     (let conn = fst (flush_acks env conn)
      in if tick_count mod 3 = 0
         then (case read_clock env conn of (conn, now) \<Rightarrow> check_resend env now conn) else conn)"

lemma before_closing_kept:
  assumes "env_profile env = Release"
  shows "c_closing (before_closing env k conn) = c_closing conn" and "c_closed (before_closing env k conn) = c_closed conn"
    and "k mod 3 \<noteq> 0 \<Longrightarrow> c_rtt (before_closing env k conn) = c_rtt conn
      \<and> c_last_activity (before_closing env k conn) = c_last_activity conn"
proof -
  obtain c where c: "flush_acks env conn = (c, Ok ())" "c_closing c = c_closing conn" "c_rtt c = c_rtt conn"
      "c_last_activity c = c_last_activity conn" "c_closed c = c_closed conn"
    using flush_acks_Release [OF assms, of conn] by blast
  then show "c_closing (before_closing env k conn) = c_closing conn" "c_closed (before_closing env k conn) = c_closed conn"
    by (simp_all add: before_closing_def read_clock_def check_resend_def resend_all_fields_kept Let_def split: prod.split)
  show "c_rtt (before_closing env k conn) = c_rtt conn \<and> c_last_activity (before_closing env k conn) = c_last_activity conn"
    if "k mod 3 \<noteq> 0"
    using c that by (simp add: before_closing_def Let_def)
qed

text \<open>The seconds since the closing time, at a reading of the wall clock.\<close>

definition seconds :: "env \<Rightarrow> nat \<Rightarrow> i64" where
  "seconds env n = of_nat (wall env n div 1000000000)"

definition acks_left :: "Conn \<Rightarrow> nat" where
  "acks_left conn = length (unacknowledged (st_retransmission (c_state conn)))"

lemma tick_closing:
  fixes conn :: Conn and tick_count :: u64
  assumes "env_profile env = Release" and "c_closing conn \<noteq> 0"
  defines "c \<equiv> before_closing env (tick_count + 1) conn"
  defines "since \<equiv> unat (seconds env (c_reads c) - c_closing conn)"
  shows "tick env close tick_count conn =
    (if acks_left c = 0 \<and> 1 < since \<or> 5 < since
     then (close_immediately close (c\<lparr>c_reads := Suc (c_reads c)\<rparr>), Ok (tick_count + 1, True))
     else (c\<lparr>c_reads := Suc (c_reads c)\<rparr>, Ok (tick_count + 1, False)))"
proof -
  obtain c1 where c1: "flush_acks env conn = (c1, Ok ())" using flush_acks_Release [OF assms(1)] by blast
  have c: "c = (if (tick_count + 1) mod 3 = 0 then (case read_clock env c1 of (conn, now) \<Rightarrow> check_resend env now conn) else c1)"
    by (simp add: c_def before_closing_def c1 Let_def)
  have "c_closing c = c_closing conn" unfolding c_def by (rule before_closing_kept [OF assms(1)])
  then show ?thesis
    using assms(2) by (simp add: tick_def c1 c [symmetric] read_wall_def since_def seconds_def acks_left_def Let_def)
qed

lemma tick_idle:
  fixes conn :: Conn and tick_count :: u64
  assumes "env_profile env = Release" and "c_closing conn = 0" and "(tick_count + 1) mod 5 = 0"
  defines "c \<equiv> before_closing env (tick_count + 1) conn"
  shows "\<exists>c'. c_closing c' = 0 \<and> c_closed c' = c_closed c
    \<and> tick env close tick_count conn =
      (if duration_since (clock env (Suc (c_reads c))) (c_last_activity c) > from_secs 5 + unat (c_rtt c) * 2
       then conn_close env c' else c', Ok (tick_count + 1, False)) \<and> c_reads c' = Suc (Suc (c_reads c))"
proof -
  obtain c1 where c1: "flush_acks env conn = (c1, Ok ())" using flush_acks_Release [OF assms(1)] by blast
  have c: "c = (if (tick_count + 1) mod 3 = 0 then (case read_clock env c1 of (conn, now) \<Rightarrow> check_resend env now conn) else c1)"
    by (simp add: c_def before_closing_def c1 Let_def)
  have closing: "c_closing c = 0" using before_closing_kept(1) [OF assms(1)] assms(2) by (simp add: c_def)
  obtain ping where ping: "connected_ping_write (connected_ping_new (of_nat (wall env (c_reads c) div 1000000))) = Ok ping"
    by (simp add: connected_ping_write_def)
  let ?c = "c\<lparr>c_tasks := c_tasks c @ [ping], c_reads := Suc (Suc (c_reads c))\<rparr>"
  show ?thesis
    using closing assms(3) ping
    by (intro exI [of _ ?c])
      (simp add: tick_def c1 c [symmetric] timestamp_def read_wall_def send_message_def read_clock_def Let_def)
qed

lemma close_immediately_closed:
  assumes "\<And>c. c_closed c \<Longrightarrow> c_closed (close c)"
  shows "c_closed (close_immediately close conn)"
  using assms by (simp add: close_immediately_def send_message_def emit_def)

lemma handlers_keep_closed:
  "c_closed c \<Longrightarrow> c_closed (h_close listener_handler c)" "c_closed c \<Longrightarrow> c_closed (h_close dialer_handler c)"
  by (simp_all add: listener_handler_def dialer_handler_def listener_close_def dialer_close_def emit_def)

section \<open>Properties\<close>

text \<open>
  What a tick does to a connection that is closing, without overflow checks: more than five
  seconds after the closing started, by the clock of the tick, the connection is closed and its
  ticker ends; in the first second it stays open; in between it is closed exactly when no packet
  waits for its acknowledgement any more.
\<close>

theorem closing_completes:
  assumes "env_profile env = Release" and "h = listener_handler \<or> h = dialer_handler" and "c_closing conn \<noteq> 0"
    and "\<not> c_closed conn"
  shows "\<exists>conn' ended. tick env (h_close h) tick_count conn = (conn', Ok (tick_count + 1, ended))
    \<and> c_closed conn' = ended
    \<and> ((\<forall>n. 5 < unat (seconds env n - c_closing conn)) \<longrightarrow> ended)
    \<and> ((\<forall>n. unat (seconds env n - c_closing conn) \<le> 1) \<longrightarrow> \<not> ended)
    \<and> ((\<forall>n. unat (seconds env n - c_closing conn) \<in> {2..5}) \<longrightarrow>
         (ended \<longleftrightarrow> acks_left (before_closing env (tick_count + 1) conn) = 0))"
proof -
  let ?c = "before_closing env (tick_count + 1) conn"
  let ?since = "unat (seconds env (c_reads ?c) - c_closing conn)"
  let ?ended = "acks_left ?c = 0 \<and> 1 < ?since \<or> 5 < ?since"
  have open': "\<not> c_closed ?c" using before_closing_kept(2) [OF assms(1)] assms(4) by simp
  have closed: "c_closed (close_immediately (h_close h) c)" for c
    using assms(2) close_immediately_closed handlers_keep_closed by metis
  let ?r = "\<lambda>f. f (seconds env (c_reads ?c) - c_closing conn)"
  show ?thesis
    using tick_closing [OF assms(1,3), of "h_close h" tick_count] open' closed
    by (intro exI [of _ "fst (tick env (h_close h) tick_count conn)"] exI [of _ ?ended] conjI impI)
      (auto dest: spec [of _ "c_reads ?c"])
qed

theorem closing_completes_witness:
  "\<exists>conn'. tick ((still_env Release)\<lparr>wall := (\<lambda>_. 16000000000)\<rparr>) (h_close listener_handler) 3
      ((conn_new (V4 1 2) 1400 0)\<lparr>c_closing := 10\<rparr>) = (conn', Ok (4, True)) \<and> c_closed conn'"
proof -
  let ?env = "(still_env Release)\<lparr>wall := (\<lambda>_. 16000000000)\<rparr>" and ?conn = "(conn_new (V4 1 2) 1400 0)\<lparr>c_closing := 10\<rparr>"
  have "seconds ?env n = 16" for n by (simp add: seconds_def)
  then show ?thesis
    using closing_completes [of ?env listener_handler ?conn 3] by (auto simp: conn_new_def still_env_def)
qed

text \<open>
  C19. A connection whose peer has fallen silent ends. When a tick that checks for activity finds
  the last one more than five seconds and two round trips ago, it starts the closing; a tick more
  than five seconds later closes the connection, whatever waits for acknowledgement, and ends the
  ticker.
\<close>

theorem silent_peer_closes:
  assumes "env_profile env = Release" and "env_profile env' = Release"
    and "h = listener_handler \<or> h = dialer_handler" and "c_closing conn = 0"
    and "(tick_count + 1) mod 5 = 0" and "(tick_count + 1) mod 3 \<noteq> 0"
    and "\<And>n. from_secs 5 + unat (c_rtt conn) * 2 < duration_since (clock env n) (c_last_activity conn)"
    and "\<And>n. seconds env n \<noteq> 0" and "\<And>n n'. 5 < unat (seconds env' n' - seconds env n)"
  shows "\<exists>conn1 conn2. tick env (h_close h) tick_count conn = (conn1, Ok (tick_count + 1, False))
    \<and> c_closing conn1 \<noteq> 0
    \<and> tick env' (h_close h) tick_count' conn1 = (conn2, Ok (tick_count' + 1, True)) \<and> c_closed conn2"
proof -
  let ?c = "before_closing env (tick_count + 1) conn"
  have kept: "c_rtt ?c = c_rtt conn" "c_last_activity ?c = c_last_activity conn"
    using before_closing_kept(3) [OF assms(1,6)] by simp_all
  obtain c' where c': "c_closing c' = 0" "tick env (h_close h) tick_count conn = (conn_close env c', Ok (tick_count + 1, False))"
    using tick_idle [OF assms(1,4,5), of "h_close h"] assms(7) by (auto simp: kept)
  have closing: "c_closing (conn_close env c') = seconds env (c_reads c')"
    using c'(1) by (simp add: conn_close_def read_wall_def seconds_def)
  have closed: "c_closed (close_immediately (h_close h) c)" for c
    using assms(3) close_immediately_closed handlers_keep_closed by metis
  have "c_closing (conn_close env c') \<noteq> 0" using closing assms(8) by simp
  from tick_closing [OF assms(2) this, of "h_close h" tick_count'] show ?thesis
    using c'(2) closing assms(8,9) closed by auto
qed

theorem silent_peer_closes_witness:
  "\<exists>conn1 conn2. tick ((still_env Release)\<lparr>clock := (\<lambda>_. 6000000000), wall := (\<lambda>_. 10000000000)\<rparr>)
       (h_close dialer_handler) 4 (conn_new (V4 1 2) 1400 0) = (conn1, Ok (5, False))
     \<and> tick ((still_env Release)\<lparr>wall := (\<lambda>_. 16000000000)\<rparr>) (h_close dialer_handler) 64 conn1 = (conn2, Ok (65, True))
     \<and> c_closed conn2"
proof -
  let ?env = "(still_env Release)\<lparr>clock := (\<lambda>_. 6000000000), wall := (\<lambda>_. 10000000000)\<rparr>"
  let ?env' = "(still_env Release)\<lparr>wall := (\<lambda>_. 16000000000)\<rparr>"
  have "seconds ?env n = 10" "seconds ?env' n = 16" for n by (simp_all add: seconds_def)
  then show ?thesis
    using silent_peer_closes [of ?env ?env' dialer_handler "conn_new (V4 1 2) 1400 0" 4 64]
    by (auto simp: conn_new_def still_env_def duration_since_def)
qed

end
