(* ===== verification/Channels.thy ===== *)
theory Channels
  imports Conn_Life
begin

text \<open>
  The ends of a connection's channels, \<open>src/conn.rs\<close>: the task that moves datagrams from the send
  channel to the socket, the two methods that read from the user's channel, and waiting for the
  connection to be established. \<open>tokio\<close>'s \<open>select!\<close> takes any branch that is ready; which one is
  the argument \<open>recv_first\<close>. \<open>Notify::notify_waiters\<close> wakes the futures that exist when it is
  called and leaves nothing for those created later, so \<open>notified\<close> says whether the cancellation
  was notified since the method made its future.
\<close>

section \<open>The sender task\<close>

text \<open>
  The channel of 256 datagrams, what went to the socket, and whether the task has returned, which
  closes the channel. Errors of the socket are logged and ignored.
\<close>

record Sender =
  sd_channel :: "bytes list"
  sd_sent :: "bytes list"
  sd_ended :: bool

definition SEND_CAPACITY :: nat where "SEND_CAPACITY = 256"

definition sender_new :: Sender where
  "sender_new = \<lparr>sd_channel = [], sd_sent = [], sd_ended = False\<rparr>"

text \<open>\<open>try_send\<close>, and the moment an awaited \<open>send\<close> completes; the flag says whether it succeeded.\<close>

definition sender_offer :: "bytes \<Rightarrow> Sender \<Rightarrow> Sender \<times> bool" where
  "sender_offer data s =
     (if sd_ended s \<or> SEND_CAPACITY \<le> length (sd_channel s) then (s, False)
      else (s\<lparr>sd_channel := sd_channel s @ [data]\<rparr>, True))"

text \<open>
  One turn of the loop: a datagram is received, or the cancellation drains the channel. A
  cancellation notified while the task is inside \<open>send_to\<close> finds no future and is no turn.
\<close>

definition sender_recv :: "Sender \<Rightarrow> Sender" where
  "sender_recv s =
     (case sd_channel s of
        [] \<Rightarrow> s
      | data # rest \<Rightarrow> if sd_ended s then s
          else s\<lparr>sd_channel := rest, sd_sent := sd_sent s @ [data]\<rparr>)"

fun drain :: "bytes list \<Rightarrow> bytes list \<Rightarrow> bytes list" where
  "drain [] sent = sent"
| "drain (data # rest) sent = drain rest (sent @ [data])"

definition sender_cancelled :: "Sender \<Rightarrow> Sender" where
  "sender_cancelled s =
     (if sd_ended s then s
      else s\<lparr>sd_channel := [], sd_sent := drain (sd_channel s) (sd_sent s), sd_ended := True\<rparr>)"

section \<open>Reading\<close>

text \<open>
  \<open>None\<close> is a method that keeps waiting. The sender of the user's channel is a field of the
  connection, so the channel does not close. A packet that does not fit the buffer is consumed.
\<close>

definition read_packet :: "bool \<Rightarrow> bool \<Rightarrow> bytes list \<Rightarrow> (bytes list \<times> bytes outcome) option" where
  "read_packet notified recv_first channel =
     (case channel of
        data # rest \<Rightarrow> if notified \<and> \<not> recv_first then Some (channel, Err ConnectionClosed)
                       else Some (rest, Ok data)
      | [] \<Rightarrow> if notified then Some (channel, Err ConnectionClosed) else None)"

definition conn_read :: "bool \<Rightarrow> bool \<Rightarrow> bytes \<Rightarrow> bytes list \<Rightarrow> (bytes list \<times> bytes \<times> nat outcome) option" where
  "conn_read notified recv_first buf channel =
     (case channel of
        data # rest \<Rightarrow>
          if notified \<and> \<not> recv_first then Some (channel, buf, Err ConnectionClosed)
          else if length buf < length data then Some (rest, buf, Err BufferTooSmall)
          else Some (rest, data @ drop (length data) buf, Ok (length data))
      | [] \<Rightarrow> if notified then Some (channel, buf, Err ConnectionClosed) else None)"

section \<open>Waiting for the connection\<close>

text \<open>
  The three moments of \<open>wait_connected\<close>: before it loads the flag, before it makes its future, and
  waiting on it.
\<close>

datatype waiter = Load_flag | Make_future | On_future | Returned

definition waiter_step :: "Conn \<Rightarrow> waiter \<Rightarrow> waiter" where
  "waiter_step conn w =
     (case w of Load_flag \<Rightarrow> if c_connected conn then Returned else Make_future
      | Make_future \<Rightarrow> On_future | On_future \<Rightarrow> On_future | Returned \<Rightarrow> Returned)"

text \<open>\<open>mark_connected\<close> beside a waiter: it wakes one that has made its future.\<close>

definition mark_connected_beside :: "Conn \<Rightarrow> waiter \<Rightarrow> Conn \<times> waiter" where
  "mark_connected_beside conn w =
     (mark_connected conn, if \<not> c_connected conn \<and> w = On_future then Returned else w)"

section \<open>Whole runs\<close>

datatype sender_event = Offer bytes | Recv | Cancelled_event

fun sender_run :: "sender_event list \<Rightarrow> Sender \<Rightarrow> Sender \<times> bytes list" where
  "sender_run [] s = (s, [])"
| "sender_run (Offer data # es) s =
     (let (s, ok) = sender_offer data s; (s, accepted) = sender_run es s
      in (s, if ok then data # accepted else accepted))"
| "sender_run (Recv # es) s = sender_run es (sender_recv s)"
| "sender_run (Cancelled_event # es) s = sender_run es (sender_cancelled s)"

lemma drain_append: "drain channel sent = sent @ channel"
  by (induction channel sent rule: drain.induct) auto

text \<open>A sender and what it has accepted: nothing lost, nothing repeated, a bounded channel.\<close>

definition sender_ok :: "Sender \<Rightarrow> bytes list \<Rightarrow> bool" where
  "sender_ok s accepted \<longleftrightarrow> sd_sent s @ sd_channel s = accepted \<and> length (sd_channel s) \<le> SEND_CAPACITY
     \<and> (sd_ended s \<longrightarrow> sd_channel s = [])"

lemma sender_ok_steps:
  assumes "sender_ok s accepted"
  shows "sender_ok (sender_recv s) accepted" and "sender_ok (sender_cancelled s) accepted"
    and "sender_ok (fst (sender_offer data s)) (if snd (sender_offer data s) then accepted @ [data] else accepted)"
  using assms by (auto simp: sender_ok_def sender_recv_def sender_cancelled_def sender_offer_def drain_append
      split: list.split)

lemma sender_run_ok:
  "sender_ok s before \<Longrightarrow> sender_run es s = (s', accepted) \<Longrightarrow> sender_ok s' (before @ accepted)"
proof (induction es s arbitrary: before s' accepted rule: sender_run.induct)
  case (2 data es s)
  obtain s1 ok where offer: "sender_offer data s = (s1, ok)" by (cases "sender_offer data s")
  obtain s2 rest where run: "sender_run es s1 = (s2, rest)" by (cases "sender_run es s1")
  have "sender_ok s1 (if ok then before @ [data] else before)"
    using sender_ok_steps(3) [OF "2.prems"(1), of data] offer by simp
  from "2.IH" [OF refl offer [symmetric] this run] "2.prems"(2) offer run show ?case
    by (cases ok) simp_all
qed (simp_all add: sender_ok_steps)

lemma sender_run_ended:
  "sd_ended s \<or> Cancelled_event \<in> set es \<Longrightarrow> sd_ended (fst (sender_run es s))"
proof (induction es s rule: sender_run.induct)
  case (2 data es s)
  obtain s1 ok where offer: "sender_offer data s = (s1, ok)" by (cases "sender_offer data s")
  then have "sd_ended s \<longrightarrow> sd_ended s1" by (auto simp: sender_offer_def split: if_splits)
  with "2.IH" [OF refl offer [symmetric]] "2.prems" offer show ?case by (auto split: prod.split)
next
  case (3 es s)
  have "sd_ended s \<longrightarrow> sd_ended (sender_recv s)" by (simp add: sender_recv_def split: list.split)
  with 3 show ?case by auto
next
  case (4 es s)
  have "sd_ended (sender_cancelled s)" by (simp add: sender_cancelled_def)
  with 4 show ?case by simp
qed simp

section \<open>Properties\<close>

text \<open>
  C31. The sender task is a queue: whatever offers, turns of the loop and cancellations happen, in
  any order, the socket gets a prefix of the accepted datagrams, in order and each once, and the
  channel holds the rest; at most 256 wait; once cancelled, everything accepted before has gone
  out and nothing is accepted any more, so that a notification of the disconnection that its task
  offers late is lost.
\<close>

theorem sender_is_fifo:
  "case sender_run es sender_new of (s, accepted) \<Rightarrow>
     sd_sent s @ sd_channel s = accepted \<and> length (sd_channel s) \<le> 256
     \<and> (Cancelled_event \<in> set es \<longrightarrow> sd_sent s = accepted \<and> sender_offer data s = (s, False))"
proof -
  obtain s accepted where run: "sender_run es sender_new = (s, accepted)" by (cases "sender_run es sender_new")
  have "sender_ok sender_new []" by (simp add: sender_ok_def sender_new_def)
  from sender_run_ok [OF this run] have "sender_ok s accepted" by simp
  moreover have "Cancelled_event \<in> set es \<longrightarrow> sd_ended s" using sender_run_ended [of sender_new es] run by simp
  ultimately show ?thesis
    by (auto simp: run sender_ok_def SEND_CAPACITY_def sender_offer_def)
qed

theorem sender_is_fifo_witness:
  "sd_sent (fst (sender_run [Offer [1], Offer [2], Recv, Cancelled_event, Offer [3]] sender_new)) = [[1], [2]]"
proof -
  let ?es = "[Offer [1], Offer [2], Recv, Cancelled_event, Offer [3]]"
  have "snd (sender_run ?es sender_new) = [[1], [2]]" by code_simp
  with sender_is_fifo [of ?es "[]"] show ?thesis by (cases "sender_run ?es sender_new") simp
qed

text \<open>
  What is offered after the cancellation is never sent. \<open>close_immediately\<close> spawns the task that sends the
  disconnect notification and then cancels: when the sender task is woken before that task is run,
  the peer is not told.
\<close>

lemma ended_refuses: "sd_ended s \<Longrightarrow> snd (sender_run es s) = []"
proof (induction es s rule: sender_run.induct)
  case (3 es s)
  then show ?case by (auto simp: sender_recv_def split: list.split)
qed (auto simp: sender_offer_def sender_cancelled_def split: prod.split if_splits)

theorem late_notification_lost:
  "snd (sender_run (Cancelled_event # Offer notification # es) s) = []"
  using ended_refuses [of "sender_cancelled s" "Offer notification # es"] by (simp add: sender_cancelled_def)

end
