(* ===== verification/Errors.thy ===== *)
theory Errors
  imports Conn_Receive Addr
begin

text \<open>
  Errors as texts, \<open>src/error.rs\<close>: the messages that \<open>thiserror\<close> derives from the attributes of
  the variants, and \<open>OpError\<close>, an error with the operation and the addresses it concerns. The text
  of an \<open>Io\<close> error is the operating system's, its payload here.
\<close>

section \<open>Numbers in messages\<close>

definition hex_digit :: "nat \<Rightarrow> char" where
  "hex_digit n = (if n < 10 then char_of (48 + n) else char_of (87 + n))"

text \<open>\<open>{:x}\<close>.\<close>

fun hex :: "nat \<Rightarrow> string" where
  "hex n = (if n < 16 then [hex_digit n] else hex (n div 16) @ [hex_digit (n mod 16)])"

declare hex.simps [simp del]

section \<open>Messages\<close>

fun display :: "error \<Rightarrow> string" where
  "display BufferTooSmall = ''a message sent was larger than the buffer used to receive the message into''"
| "display ListenerClosed = ''use of closed listener''"
| "display ConnectionClosed = ''use of closed connection''"
| "display NotSupported = ''feature not supported''"
| "display (Io e) = ''io error: '' @ e"
| "display UnexpectedEof = ''unexpected end of file''"
| "display (InvalidPacketLength s) = ''invalid packet length: '' @ s"
| "display MaxAcknowledgement = ''maximum amount of packets in acknowledgement exceeded''"
| "display (ProtocolMismatch client server) =
     ''mismatched protocol: client protocol = '' @ decimal (unat client) @ '', server protocol = ''
       @ decimal (unat server)"
| "display Timeout = ''connection timed out''"
| "display (WindowSizeTooBig lowest highest) =
     ''queue window size is too big ('' @ decimal (unat lowest) @ ''-'' @ decimal (unat highest) @ '')''"
| "display (SplitPacket s) = ''split packet error: '' @ s"
| "display ZeroPacket = ''handle packet: zero packet length''"
| "display (InvalidCookie got expected) =
     ''invalid cookie '' @ [CHR 0x27] @ hex (unat got) @ [CHR 0x27] @ '', expected '' @ [CHR 0x27]
       @ hex (unat expected) @ [CHR 0x27]"
| "display (UnexpectedPacket packet_type) = ''unexpected '' @ packet_type @ '' packet''"
| "display (UnknownPacket packet_id len) =
     ''unknown unconnected packet (id=0x'' @ hex (unat packet_id) @ '', len='' @ decimal len @ '')''"
| "display (Other s) = s"
| "display TimestampInFuture = ''timestamp is in the future''"

section \<open>Operation errors\<close>

record OpError =
  oe_op :: string
  oe_net :: string
  oe_source :: "SocketAddr option"
  oe_addr :: "SocketAddr option"
  oe_err :: error

definition op_error_new :: "string \<Rightarrow> error \<Rightarrow> OpError" where
  "op_error_new op err = \<lparr>oe_op = op, oe_net = ''raknet'', oe_source = None, oe_addr = None, oe_err = err\<rparr>"

definition with_addr :: "SocketAddr \<Rightarrow> OpError \<Rightarrow> OpError" where
  "with_addr addr self = self\<lparr>oe_addr := Some addr\<rparr>"

definition with_source :: "SocketAddr \<Rightarrow> OpError \<Rightarrow> OpError" where
  "with_source source self = self\<lparr>oe_source := Some source\<rparr>"

definition op_error_display :: "OpError \<Rightarrow> string" where
  "op_error_display self = oe_op self @ '' '' @ oe_net self @ '': '' @ display (oe_err self)"

definition op_error_source :: "OpError \<Rightarrow> error option" where
  "op_error_source self = Some (oe_err self)"

text \<open>The cookies of an invalid-cookie message can be read back: \<open>hex\<close> is injective.\<close>

lemma hex_digit_inj: "a < 16 \<Longrightarrow> b < 16 \<Longrightarrow> hex_digit a = hex_digit b \<Longrightarrow> a = b"
  by (auto simp: hex_digit_def of_char_of dest!: arg_cong [where f = "of_char :: char \<Rightarrow> nat"] split: if_splits)

lemma hex_not_Nil: "hex n \<noteq> []"
  by (subst hex.simps) simp

lemma hex_inj: "hex a = hex b \<Longrightarrow> a = b"
proof (induction a arbitrary: b rule: less_induct)
  case (less a)
  show ?case
  proof (cases "a < 16 \<or> b < 16")
    case True
    with less.prems show ?thesis
      using hex_digit_inj
      by (subst (asm) hex.simps, subst (asm) (2) hex.simps) (auto simp: hex_not_Nil hex_not_Nil [symmetric] split: if_splits)
  next
    case False
    then have "hex (a div 16) = hex (b div 16)" "hex_digit (a mod 16) = hex_digit (b mod 16)"
      using less.prems by (simp_all add: hex.simps [of a] hex.simps [of b])
    then have "a div 16 = b div 16" "a mod 16 = b mod 16"
      using less.IH False hex_digit_inj by simp_all
    then show ?thesis by (metis div_mult_mod_eq)
  qed
qed

end
