(* ===== verification/Login.thy ===== *)
theory Login
  imports Handshake Delivery
begin

text \<open>
  The login, the part of the handshake that runs inside the connections: the dialer requests the
  connection, the listener's connection accepts it, the dialer's answers and is connected, and so
  is the listener's when the answer arrives. The two connections, their handlers and the tasks
  that send are composed as the program composes them, on a network that delivers the three
  datagrams.
\<close>

section \<open>A connection in step\<close>

text \<open>
  \<open>n\<close> packets were sent and \<open>m\<close> received in order, nothing was missed, and \<open>tasks\<close> are to be sent.
\<close>

definition in_step :: "nat \<Rightarrow> nat \<Rightarrow> bytes list \<Rightarrow> Conn \<Rightarrow> bool" where
  "in_step n m tasks conn \<longleftrightarrow> c_tasks conn = tasks \<and> c_closing conn = 0
     \<and> st_seq (c_state conn) = u24_plus (Uint24 0) n \<and> st_order_index (c_state conn) = u24_plus (Uint24 0) n
     \<and> st_message_index (c_state conn) = u24_plus (Uint24 0) n
     \<and> st_win (c_state conn) = dw_at (u24_plus (Uint24 0) m)
     \<and> st_packet_queue (c_state conn) = pq_at (u24_plus (Uint24 0) m)"

text \<open>The datagram that carries the \<open>n\<close>-th internal message.\<close>

definition message_packet :: "nat \<Rightarrow> bytes \<Rightarrow> Packet" where
  "message_packet n data = packet_new\<lparr>content := data, order_index := u24_plus (Uint24 0) n,
     message_index := u24_plus (Uint24 0) n\<rparr>"

definition message_datagram :: "nat \<Rightarrow> bytes \<Rightarrow> bytes" where
  "message_datagram n data = build_datagram (u24_plus (Uint24 0) n) (message_packet n data)"

lemma in_step_new: "in_step 0 0 [] (conn_new addr mtu now)"
  by (simp add: in_step_def conn_new_def conn_state_new_def u24_new_def dw_new_def dw_at_def pq_new_def pq_at_def u24_ok_def)

lemma u24_plus_plus: "u24_plus (u24_plus v n) k = u24_plus v (n + k)"
proof -
  have "take_bit 24 (take_bit 24 (u24 v + of_nat n) + of_nat k) = take_bit 24 (u24 v + of_nat n + of_nat k)"
    by (rule word_unat_eq_iff [THEN iffD2])
      (simp add: unat_take_bit unat_word_ariths mod_mod_cancel mod_simps)
  then show ?thesis by (simp add: u24_plus_def algebra_simps)
qed

lemma u24_inc_plus: "u24_inc (u24_plus v n) = (u24_plus v n, u24_plus v (Suc n))"
  using u24_plus_1 [of "u24_plus v n"] u24_inc_old [of "u24_plus v n"]
  by (metis Suc_eq_plus1 prod.collapse u24_ok_plus u24_plus_plus)

lemma in_step_task:
  assumes "in_step n m [data] conn"
  shows "in_step (Suc n) m [] (run_task env 0 conn)
    \<and> c_log (run_task env 0 conn) = c_log conn @ [TrySent (message_datagram n data)]
    \<and> c_connected (run_task env 0 conn) = c_connected conn
    \<and> c_remote_addr (run_task env 0 conn) = c_remote_addr conn"
  using assms
  by (simp add: in_step_def run_task_def send_message_task_def u24_inc_plus read_clock_def chan_try_send_def
      emit_def message_datagram_def message_packet_def Let_def)

lemma dispatch_next:
  assumes "st_packet_queue (c_state conn) = pq_at v" and "u24_inner v" and "\<not> split_flag pk"
    and "reliability pk = RELIABILITY_RELIABLE_ORDERED" and "order_index pk = v"
  shows "dispatch_packet env h pk conn = handle_packet env h (content pk)
    (conn\<lparr>c_state := (c_state conn)\<lparr>st_packet_queue := pq_at (snd (u24_inc v))\<rparr>\<rparr>)"
proof -
  obtain q where q: "pq_put v (content pk) (pq_at v) = (q, True)" "pq_window_size (env_profile env) q = Ok 1"
      "pq_fetch q = (pq_at (snd (u24_inc v)), [content pk])"
    using pq_at_receive [OF assms(2)] by blast
  have return: "and_then_st r (\<lambda>c _. (c, Ok ())) = r" for r :: "Conn \<times> unit outcome"
    by (cases r; cases "snd r") auto
  from q assms show ?thesis
    by (simp add: dispatch_packet_def receive_packet_def return MAX_WINDOW_SIZE_def Let_def)
qed

lemma in_step_receive:
  assumes step: "in_step n m tasks conn" and m: "m < 2 ^ 24 - 1" and data: "data \<noteq> []" "length data < 1000"
  shows "\<exists>c. conn_receive env h (message_datagram m data) conn = handle_packet env h data c
    \<and> in_step n (Suc m) tasks c \<and> c_log c = c_log conn \<and> c_connected c = c_connected conn
    \<and> c_remote_addr c = c_remote_addr conn"
proof -
  let ?v = "u24_plus (Uint24 0) m" and ?q = "message_packet m data"
  have "unat (u24 ?v) = m" using m unat_u24_plus [of "Uint24 0" m] by simp
  then have v: "u24_inner ?v" using m by (simp add: u24_inner_def word_less_nat_alt)
  have "u24_ok (Uint24 0)" by (simp add: u24_ok_def)
  then have wf: "packet_wf ?q"
    using data by (simp add: packet_wf_def message_packet_def packet_new_def reliability_defs)
  let ?c0 = "conn\<lparr>c_reads := Suc (c_reads conn), c_last_activity := clock env (c_reads conn)\<rparr>"
  let ?c1 = "?c0\<lparr>c_reads := Suc (c_reads ?c0), c_state := (c_state ?c0)\<lparr>
      st_win := dw_at (u24_plus ?v 1), st_ack_slice := st_ack_slice (c_state ?c0) @ [?v]\<rparr>\<rparr>"
  let ?c2 = "set_pk packet_new ?c1"
  let ?pk = "packet_decoded (st_pk (c_state ?c1)) ?q"
  have win: "st_win (c_state ?c0) = dw_at ?v" using step by (simp add: in_step_def)
  have "conn_receive env h (message_datagram m data) conn = dispatch_packet env h ?pk ?c2"
    unfolding message_datagram_def conn_receive_datagram receive_datagram_next_eq [OF win v] handle_datagram_one [OF wf] ..
  moreover have "\<not> split_flag ?pk" "reliability ?pk = RELIABILITY_RELIABLE_ORDERED" "order_index ?pk = ?v"
      "content ?pk = data"
    by (simp_all add: packet_decoded_def message_packet_def packet_new_def is_sequenced_or_ordered_def)
  moreover have "st_packet_queue (c_state ?c2) = pq_at ?v" using step by (simp add: in_step_def set_pk_def)
  ultimately have "conn_receive env h (message_datagram m data) conn = handle_packet env h data
      (?c2\<lparr>c_state := (c_state ?c2)\<lparr>st_packet_queue := pq_at (snd (u24_inc ?v))\<rparr>\<rparr>)"
    using dispatch_next [OF _ v, of ?c2 ?pk env h] by simp
  moreover have "in_step n (Suc m) tasks (?c2\<lparr>c_state := (c_state ?c2)\<lparr>st_packet_queue := pq_at (snd (u24_inc ?v))\<rparr>\<rparr>)"
    using step by (simp add: in_step_def set_pk_def u24_plus_plus u24_inc_plus)
  ultimately show ?thesis
    by (intro exI [of _ "?c2\<lparr>c_state := (c_state ?c2)\<lparr>st_packet_queue := pq_at (snd (u24_inc ?v))\<rparr>\<rparr>"])
      (simp add: set_pk_def)
qed

text \<open>A datagram that the sockets read whole.\<close>

definition one_datagram :: "bytes \<Rightarrow> bool" where
  "one_datagram data \<longleftrightarrow> data \<noteq> [] \<and> length data \<le> 1500"

lemma one_datagram_message:
  assumes "length data < 1000"
  shows "one_datagram (message_datagram n data)"
proof -
  let ?pk = "message_packet n data"
  have "message_datagram n data
      = write_uint24 [BIT_FLAG_DATAGRAM OR BIT_FLAG_NEEDS_B_AND_AS] (u24_plus (Uint24 0) n) @ packet_write ?pk []"
    unfolding message_datagram_def build_datagram_def by (rule packet_write_append)
  moreover have "length (packet_write ?pk []) < 1100"
    using assms by (simp add: length_packet_write message_part_def sequence_part_def order_part_def
        split_part_def message_packet_def packet_new_def)
  ultimately show ?thesis unfolding one_datagram_def by (auto simp flip: length_0_conv)
qed

section \<open>The messages\<close>

lemma length_accepted: "length (CONNECTION_REQUEST_ACCEPTED # accepted_body (accepted_new addr t t')) < 1000"
  using sizeof_addr_bounds [of addr]
  by (simp add: accepted_body_def accepted_new_def default_system_addresses_def addrs_bytes_def length_concat sum_list_replicate)

lemma length_incoming: "length (NEW_INCOMING_CONNECTION # incoming_body (incoming_new addr t t')) < 1000"
  using sizeof_addr_bounds [of addr]
  by (simp add: incoming_body_def incoming_new_def default_system_addresses_def addrs_bytes_def length_concat sum_list_replicate)

text \<open>The three handlers, on a connection that is not closing.\<close>

lemma listener_takes_request:
  assumes "in_step n m [] c" and "connection_request_write (connection_request_new guid t) = Ok data"
  shows "\<exists>c' response. handle_packet env listener_handler data c = (c', Ok ()) \<and> in_step n m [response] c'
    \<and> (\<exists>t t'. response = CONNECTION_REQUEST_ACCEPTED # accepted_body (accepted_new (c_remote_addr c) t t'))
    \<and> c_log c' = c_log c \<and> c_connected c' = c_connected c \<and> c_remote_addr c' = c_remote_addr c"
proof -
  obtain body where data: "data = CONNECTION_REQUEST # body" "connection_request_read body = Ok (connection_request_new guid t)"
    using connection_request.dec_enc [of "connection_request_new guid t"] assms(2) by auto
  let ?t = "of_nat (wall env (c_reads c) div 1000000)"
  let ?response = "CONNECTION_REQUEST_ACCEPTED # accepted_body (accepted_new (c_remote_addr c) t ?t)"
  let ?c = "c\<lparr>c_reads := Suc (c_reads c), c_tasks := c_tasks c @ [?response]\<rparr>"
  have "handle_packet env listener_handler data c = (?c, Ok ())"
    using assms(1) data
    by (simp add: handle_packet_def in_step_def listener_handler_def listener_handle_def handled_def
        handle_connection_request_def timestamp_def read_wall_def accepted_write_body send_message_def
        connection_request_new_def Let_def)
  with assms(1) show ?thesis by (intro exI [of _ ?c] exI [of _ ?response]) (auto simp: in_step_def)
qed

lemma dialer_takes_acceptance:
  assumes "in_step n m [] c" and "\<not> c_connected c"
    and "data = CONNECTION_REQUEST_ACCEPTED # accepted_body (accepted_new addr t t')"
  shows "\<exists>c' response. handle_packet env dialer_handler data c = (c', Ok ()) \<and> in_step n m [response] c'
    \<and> (\<exists>t t'. response = NEW_INCOMING_CONNECTION # incoming_body (incoming_new (c_remote_addr c) t t'))
    \<and> c_log c' = c_log c @ [NotifyConnected] \<and> c_connected c' \<and> c_remote_addr c' = c_remote_addr c"
proof -
  let ?t = "of_nat (wall env (c_reads c) div 1000000)"
  let ?response = "NEW_INCOMING_CONNECTION # incoming_body (incoming_new (c_remote_addr c) t' ?t)"
  let ?c = "c\<lparr>c_reads := Suc (c_reads c), c_tasks := c_tasks c @ [?response], c_connected := True,
    c_log := c_log c @ [NotifyConnected]\<rparr>"
  have "accepted_read (accepted_body (accepted_new addr t t')) = Ok (accepted_wire (accepted_new addr t t'))"
    by (rule accepted_read_body) (simp add: accepted_new_def)
  then have "handle_packet env dialer_handler data c = (?c, Ok ())"
    using assms
    by (simp add: handle_packet_def in_step_def dialer_handler_def dialer_handle_def handled_def
        handle_connection_request_accepted_def timestamp_def read_wall_def incoming_write_body send_message_def
        accepted_wire_def accepted_new_def mark_connected_def emit_def id_defs Let_def)
  with assms(1) show ?thesis by (intro exI [of _ ?c] exI [of _ ?response]) (auto simp: in_step_def)
qed

lemma listener_takes_incoming:
  assumes "in_step n m tasks c" and "\<not> c_connected c" and "data = NEW_INCOMING_CONNECTION # rest"
  shows "\<exists>c'. handle_packet env listener_handler data c = (c', Ok ()) \<and> in_step n m tasks c'
    \<and> c_log c' = c_log c @ [NotifyConnected] \<and> c_connected c' \<and> c_remote_addr c' = c_remote_addr c"
proof -
  let ?c = "c\<lparr>c_connected := True, c_log := c_log c @ [NotifyConnected]\<rparr>"
  have "handle_packet env listener_handler data c = (?c, Ok ())"
    using assms
    by (simp add: handle_packet_def in_step_def listener_handler_def listener_handle_def handled_def
        handle_new_incoming_connection_def mark_connected_def emit_def id_defs)
  with assms(1) show ?thesis by (intro exI [of _ ?c]) (simp add: in_step_def)
qed

section \<open>The login\<close>

text \<open>
  A dialer that has started and the fresh connection of a listener, in any environments: the
  dialer's task sends one datagram; on it the listener's connection answers with one; on that the
  dialer is connected and answers; on that the listener's connection is connected. Every call
  succeeds, each side notifies its waiters once and delivers nothing to its user.
\<close>

lemma login_run:
  "\<exists>q1 q2 q3 d0 l1 d2 l3.
    (let d1 = run_task denv 0 d0; l2 = run_task lenv 0 l1; d3 = run_task denv 0 d2
     in dial_start denv remote guid mtu now = (d0, Ok ())
       \<and> conn_receive lenv listener_handler q1 (conn_new addr mtu' now') = (l1, Ok ())
       \<and> conn_receive denv dialer_handler q2 d1 = (d2, Ok ())
       \<and> conn_receive lenv listener_handler q3 l2 = (l3, Ok ())
       \<and> c_log d1 = [TrySent q1] \<and> c_log l1 = [] \<and> c_log l2 = [TrySent q2]
       \<and> c_log d3 = [TrySent q1, NotifyConnected, TrySent q3] \<and> c_log l3 = [TrySent q2, NotifyConnected]
       \<and> c_connected d3 \<and> c_connected l3 \<and> c_tasks d3 = [] \<and> c_tasks l3 = []
       \<and> c_tasks d0 \<noteq> [] \<and> \<not> c_connected d1 \<and> c_connected d2 \<and> c_tasks d2 \<noteq> []
       \<and> list_all one_datagram [q1, q2, q3])"
proof -
  obtain t request d0 where request: "connection_request_write (connection_request_new guid t) = Ok request"
      "request \<noteq> []" "length request < 1000" and d0: "dial_start denv remote guid mtu now = (d0, Ok ())"
      "in_step 0 0 [request] d0" "c_log d0 = []" "\<not> c_connected d0"
  proof -
    let ?t = "of_nat (wall denv 0 div 1000000) :: i64"
    obtain request where r: "connection_request_write (connection_request_new guid ?t) = Ok request"
        "request \<noteq> []" "length request < 1000"
      by (simp add: connection_request_write_def)
    let ?d0 = "(conn_new remote mtu now)\<lparr>c_reads := 1, c_tasks := [request]\<rparr>"
    have "dial_start denv remote guid mtu now = (?d0, Ok ())"
      using r(1) by (simp add: dial_start_def timestamp_def read_wall_def send_message_def conn_new_def Let_def)
    moreover have "in_step 0 0 [request] ?d0" using in_step_new [of remote mtu now] by (simp add: in_step_def)
    ultimately show ?thesis using that [OF r] by (simp add: conn_new_def)
  qed
  let ?d1 = "run_task denv 0 d0"
  note d1 = in_step_task [OF d0(2), of denv]
  let ?q1 = "message_datagram 0 request"
  obtain c1 where c1: "conn_receive lenv listener_handler ?q1 (conn_new addr mtu' now') = handle_packet lenv listener_handler request c1"
      "in_step 0 1 [] c1" "c_log c1 = []" "\<not> c_connected c1"
    using in_step_receive [OF in_step_new _ request(2,3), of lenv listener_handler addr mtu' now'] by (auto simp: conn_new_def)
  obtain l1 response where l1: "handle_packet lenv listener_handler request c1 = (l1, Ok ())" "in_step 0 1 [response] l1"
      "\<exists>a t t'. response = CONNECTION_REQUEST_ACCEPTED # accepted_body (accepted_new a t t')"
      "c_log l1 = []" "\<not> c_connected l1"
    using listener_takes_request [OF c1(2) request(1), where env = lenv] c1(3,4) by metis
  let ?l2 = "run_task lenv 0 l1"
  note l2 = in_step_task [OF l1(2), of lenv]
  let ?q2 = "message_datagram 0 response"
  have response: "response \<noteq> []" "length response < 1000" using l1(3) length_accepted by auto
  have "in_step 1 0 [] ?d1" using d1 by simp
  from in_step_receive [OF this _ response, of denv dialer_handler]
  obtain c2 where c2: "conn_receive denv dialer_handler ?q2 ?d1 = handle_packet denv dialer_handler response c2"
      "in_step 1 1 [] c2" "c_log c2 = c_log ?d1" "\<not> c_connected c2"
    using d1 d0(4) by auto
  obtain d2 answer where d2: "handle_packet denv dialer_handler response c2 = (d2, Ok ())" "in_step 1 1 [answer] d2"
      "\<exists>a t t'. answer = NEW_INCOMING_CONNECTION # incoming_body (incoming_new a t t')"
      "c_log d2 = c_log c2 @ [NotifyConnected]" "c_connected d2"
    using l1(3) dialer_takes_acceptance [OF c2(2,4), where env = denv] by blast
  let ?d3 = "run_task denv 0 d2"
  note d3 = in_step_task [OF d2(2), of denv]
  let ?q3 = "message_datagram 1 answer"
  have answer: "answer \<noteq> []" "length answer < 1000" using d2(3) length_incoming by auto
  have small: "(1 :: nat) < 2 ^ 24 - 1" by simp
  have "in_step 1 1 [] ?l2" using l2 by simp
  from in_step_receive [OF this small answer, of lenv listener_handler]
  obtain c3 where c3: "conn_receive lenv listener_handler ?q3 ?l2 = handle_packet lenv listener_handler answer c3"
      "in_step 1 2 [] c3" "c_log c3 = c_log ?l2" "\<not> c_connected c3"
    using l2 l1(5) by (auto simp: numeral_2_eq_2)
  obtain l3 where l3: "handle_packet lenv listener_handler answer c3 = (l3, Ok ())" "in_step 1 2 [] l3"
      "c_log l3 = c_log c3 @ [NotifyConnected]" "c_connected l3"
    using d2(3) listener_takes_incoming [OF c3(2,4), where env = lenv] by blast
  have "list_all one_datagram [?q1, ?q2, ?q3]"
    using request(3) response(2) answer(2) by (simp add: one_datagram_message)
  moreover have "conn_receive lenv listener_handler ?q1 (conn_new addr mtu' now') = (l1, Ok ())"
      "conn_receive denv dialer_handler ?q2 ?d1 = (d2, Ok ())" "conn_receive lenv listener_handler ?q3 ?l2 = (l3, Ok ())"
    using c1(1) l1(1) c2(1) d2(1) c3(1) l3(1) by simp_all
  moreover have "c_log ?d1 = [TrySent ?q1]" "c_log ?l2 = [TrySent ?q2]"
      "c_log ?d3 = [TrySent ?q1, NotifyConnected, TrySent ?q3]" "c_log l3 = [TrySent ?q2, NotifyConnected]"
      "c_connected ?d3" "c_tasks ?d3 = []" "c_tasks l3 = []"
      "c_tasks d0 \<noteq> []" "\<not> c_connected ?d1" "c_connected d2" "c_tasks d2 \<noteq> []"
    using d0(2-4) d1 l1(4) l2 c2(3) d2(2,4,5) d3 c3(3) l3(2,3) by (simp_all add: in_step_def)
  ultimately show ?thesis
    using d0(1) l1(4) l3(4) unfolding Let_def by blast
qed

section \<open>The login through the two loops\<close>

text \<open>The listener hands a datagram of a known address to its connection.\<close>

lemma received_known:
  assumes "map_of (l_connections l) addr = Some k" and "\<not> is_blocked addr l" and "one_datagram q"
    and "conn_receive (le_conn env k) listener_handler q (l_conns l ! k) = (c, Ok ())"
    and "removals (drop (length (c_log (l_conns l ! k))) (c_log c)) = []"
  shows "listen_received env q addr l = l\<lparr>l_pc := Checking, l_conns := (l_conns l)[k := c]\<rparr>"
  using assms is_blocked_fixed [of "l\<lparr>l_pc := Checking\<rparr>" l addr]
  by (simp add: listen_received_def one_datagram_def fixed_part_def handle_def with_conn_def Let_def)

text \<open>The first task of the \<open>k\<close>-th connection of the listener is run.\<close>

definition conn_turn :: "listen_env \<Rightarrow> nat \<Rightarrow> Listener \<Rightarrow> Listener" where
  "conn_turn env k l = fst (with_conn k (\<lambda>c. (run_task (le_conn env k) 0 c, ())) l)"

lemma conn_turn_eq:
  assumes "removals (drop (length (c_log (l_conns l ! k))) (c_log (run_task (le_conn env k) 0 (l_conns l ! k)))) = []"
  shows "conn_turn env k l = l\<lparr>l_conns := (l_conns l)[k := run_task (le_conn env k) 0 (l_conns l ! k)]\<rparr>"
  using assms by (simp add: conn_turn_def with_conn_def Let_def)

lemma dial_receive_one:
  "one_datagram q \<Longrightarrow> conn_receive env dialer_handler q conn = (conn', Ok ()) \<Longrightarrow>
   dial_receive env [Datagram q] conn = (conn', False)"
  by (simp add: one_datagram_def)

text \<open>The login of a dialer with the listener that has registered its address.\<close>

lemma login_through_listener:
  assumes known: "map_of (l_connections l) addr = Some k" and k: "k < length (l_conns l)"
    and fresh: "l_conns l ! k = conn_new addr mtu' now'" and "\<not> is_blocked addr l"
  shows "\<exists>q1 q2 q3.
    (let d = run_task denv 0 (fst (dial_start denv remote guid mtu now));
         l2 = conn_turn env k (listen_received env q1 addr l);
         (d2, ended) = dial_receive denv [Datagram q2] d; d3 = run_task denv 0 d2;
         l3 = listen_received env q3 addr l2
     in c_log d = [TrySent q1] \<and> c_log (l_conns l2 ! k) = [TrySent q2] \<and> \<not> ended
       \<and> c_log d3 = [TrySent q1, NotifyConnected, TrySent q3] \<and> c_connected d3
       \<and> c_log (l_conns l3 ! k) = [TrySent q2, NotifyConnected] \<and> c_connected (l_conns l3 ! k)
       \<and> c_tasks (fst (dial_start denv remote guid mtu now)) \<noteq> [] \<and> \<not> c_connected d \<and> c_connected d2 \<and> c_tasks d2 \<noteq> []
       \<and> (\<exists>c. l3 = l\<lparr>l_pc := Checking, l_conns := (l_conns l)[k := c]\<rparr>))"
proof -
  from login_run [of denv "le_conn env k" remote guid mtu now addr mtu' now']
  obtain q1 q2 q3 d0 c1 d2 c3 where
      d0: "dial_start denv remote guid mtu now = (d0, Ok ())"
    and c1: "conn_receive (le_conn env k) listener_handler q1 (conn_new addr mtu' now') = (c1, Ok ())" "c_log c1 = []"
    and d2: "conn_receive denv dialer_handler q2 (run_task denv 0 d0) = (d2, Ok ())"
    and c2: "c_log (run_task (le_conn env k) 0 c1) = [TrySent q2]"
    and c3: "conn_receive (le_conn env k) listener_handler q3 (run_task (le_conn env k) 0 c1) = (c3, Ok ())"
      "c_log c3 = [TrySent q2, NotifyConnected]" "c_connected c3"
    and d: "c_log (run_task denv 0 d0) = [TrySent q1]" "c_connected (run_task denv 0 d2)"
      "c_log (run_task denv 0 d2) = [TrySent q1, NotifyConnected, TrySent q3]"
    and w: "c_tasks d0 \<noteq> []" "\<not> c_connected (run_task denv 0 d0)" "c_connected d2" "c_tasks d2 \<noteq> []"
    and one: "one_datagram q1" "one_datagram q2" "one_datagram q3"
    by (auto simp: Let_def)
  let ?l1 = "l\<lparr>l_pc := Checking, l_conns := (l_conns l)[k := c1]\<rparr>"
  let ?l2 = "l\<lparr>l_pc := Checking, l_conns := (l_conns l)[k := run_task (le_conn env k) 0 c1]\<rparr>"
  let ?l3 = "l\<lparr>l_pc := Checking, l_conns := (l_conns l)[k := c3]\<rparr>"
  have l1: "listen_received env q1 addr l = ?l1"
    using received_known [OF known assms(4) one(1), of env c1] fresh c1 by simp
  have l2: "conn_turn env k ?l1 = ?l2"
    using conn_turn_eq [of ?l1 k env] k c1(2) c2 by simp
  have "\<not> is_blocked addr ?l2" using assms(4) is_blocked_fixed [of ?l2 l addr] by (simp add: fixed_part_def)
  with received_known [of ?l2 addr k q3 env c3] known k c2 c3 one(3)
  have l3: "listen_received env q3 addr ?l2 = ?l3" by simp
  show ?thesis
    using k d0 c2 c3 d w dial_receive_one [OF one(2) d2] l3
    by (intro exI [of _ q1] exI [of _ q2] exI [of _ q3]) (simp only: l1 l2 Let_def, auto)
qed

text \<open>Both sides from the first request to the accepted connection.\<close>

lemma connect_run:
  assumes "map_of (l_connections l) addr = None" and "\<not> is_blocked addr l" and "l_id l \<noteq> 0"
    and "\<And>n. le_send_to env n = None" and "k < 9" and "mtu = concat (map (replicate 3) MTU_SIZES) ! k"
    and "\<not> l_closed l" and "l_incoming l = []"
  shows "\<exists>d1 d2 r1 r2 q1 q2 q3.
    (\<forall>hs s. (\<forall>n. de_send hs n = None) \<and> (\<forall>j < k. de_recv hs (ds_io s + 2 * j + 1) = Elapsed)
        \<and> de_recv hs (ds_io s + 2 * k + 1) = Arrived r1 \<and> de_recv hs (ds_io s + 2 * k + 3) = Arrived r2 \<longrightarrow>
        (\<exists>unanswered s'. length unanswered = k \<and> dial_handshake dialer hs remote guid s = (s', Ok mtu)
           \<and> ds_sent s' = ds_sent s @ unanswered @ [d1, d2]))
    \<and> (let i = length (l_conns l);
           l2 = listen_received env d2 addr (listen_received env d1 addr l);
           d = run_task denv 0 (fst (dial_start denv remote guid mtu now));
           l3 = conn_turn env i (listen_received env q1 addr l2);
           (d', ended) = dial_receive denv [Datagram q2] d; d'' = run_task denv 0 d';
           l4 = listen_received env q3 addr l3
       in l_out l4 = l_out l @ [(addr, r1), (addr, r2)]
         \<and> c_log d = [TrySent q1] \<and> c_log (l_conns l3 ! i) = [TrySent q2] \<and> \<not> ended
         \<and> c_log d'' = [TrySent q1, NotifyConnected, TrySent q3] \<and> is_connected d''
         \<and> is_connected (l_conns l4 ! i) \<and> i \<in> set (l_waiting l4)
         \<and> map_of (l_connections l4) addr = Some i
         \<and> snd (accept (send_incoming i (wait_over i l4))) = Some (Ok i)
         \<and> c_tasks (fst (dial_start denv remote guid mtu now)) \<noteq> [] \<and> \<not> c_connected d \<and> c_connected d' \<and> c_tasks d' \<noteq> [])"
proof -
  let ?i = "length (l_conns l)"
  from handshake_run [OF assms(1-6), of dialer remote guid]
  obtain d1 d2 r1 r2 now' where hs: "\<forall>hs s. (\<forall>n. de_send hs n = None) \<and> (\<forall>j < k. de_recv hs (ds_io s + 2 * j + 1) = Elapsed)
        \<and> de_recv hs (ds_io s + 2 * k + 1) = Arrived r1 \<and> de_recv hs (ds_io s + 2 * k + 3) = Arrived r2 \<longrightarrow>
        (\<exists>unanswered s'. length unanswered = k \<and> dial_handshake dialer hs remote guid s = (s', Ok mtu)
           \<and> ds_sent s' = ds_sent s @ unanswered @ [d1, d2])"
    and h: "let l1 = listen_received env d1 addr l; l2 = listen_received env d2 addr l1 in
      l_out l2 = l_out l @ [(addr, r1), (addr, r2)] \<and> l_conns l2 = l_conns l @ [conn_new addr mtu now']
      \<and> map_of (l_connections l2) addr = Some ?i \<and> l_waiting l2 = l_waiting l @ [?i]
      \<and> l_incoming l2 = l_incoming l \<and> fixed_part l2 = fixed_part l"
    by (elim exE conjE) (rule that; assumption)
  define l2 where "l2 = listen_received env d2 addr (listen_received env d1 addr l)"
  note h = h [unfolded Let_def, folded l2_def]
  then have same: "fixed_part l2 = fixed_part l" and i: "?i < length (l_conns l2)" by simp_all
  from same have "l_closed l2 = l_closed l" by (simp add: fixed_part_def)
  with assms(7) have opened: "\<not> l_closed l2" by simp
  from assms(2) have unblocked: "\<not> is_blocked addr l2" unfolding is_blocked_fixed [OF same] .
  from h have "map_of (l_connections l2) addr = Some ?i" "l_conns l2 ! ?i = conn_new addr mtu now'" by simp_all
  from login_through_listener [OF this(1) i this(2) unblocked, of denv remote guid mtu now env]
  obtain q1 q2 q3 where q: "let d = run_task denv 0 (fst (dial_start denv remote guid mtu now));
         l3 = conn_turn env ?i (listen_received env q1 addr l2);
         (d', ended) = dial_receive denv [Datagram q2] d; d'' = run_task denv 0 d';
         l4 = listen_received env q3 addr l3
     in c_log d = [TrySent q1] \<and> c_log (l_conns l3 ! ?i) = [TrySent q2] \<and> \<not> ended
       \<and> c_log d'' = [TrySent q1, NotifyConnected, TrySent q3] \<and> c_connected d''
       \<and> c_log (l_conns l4 ! ?i) = [TrySent q2, NotifyConnected] \<and> c_connected (l_conns l4 ! ?i)
       \<and> c_tasks (fst (dial_start denv remote guid mtu now)) \<noteq> [] \<and> \<not> c_connected d \<and> c_connected d' \<and> c_tasks d' \<noteq> []
       \<and> (\<exists>c. l4 = l2\<lparr>l_pc := Checking, l_conns := (l_conns l2)[?i := c]\<rparr>)"
    by blast
  let ?d = "run_task denv 0 (fst (dial_start denv remote guid mtu now))"
  obtain d' ended where r: "dial_receive denv [Datagram q2] ?d = (d', ended)" by fastforce
  note q = q [unfolded Let_def r prod.case]
  have accepted: "snd (accept (send_incoming ?i (wait_over ?i (l2\<lparr>l_pc := pc, l_conns := cs\<rparr>)))) = Some (Ok ?i)" for pc cs
    using h assms(8) opened by (simp add: accept_def send_incoming_def wait_over_def)
  show ?thesis
    unfolding is_connected_def
    by (rule exI [of _ d1], rule exI [of _ d2], rule exI [of _ r1], rule exI [of _ r2],
        rule exI [of _ q1], rule exI [of _ q2], rule exI [of _ q3], rule conjI [OF hs])
      (insert accepted q h assms(8), simp only: l2_def [symmetric] Let_def r prod.case, elim conjE exE, simp)
qed

section \<open>Properties\<close>

text \<open>
  Connecting works from the first datagram to \<open>accept\<close>. A dialer whose first \<open>k\<close> requests get no answer
  and a listener that has nothing to do with its address: when the datagrams arrive, the handshake
  gives both the same MTU; then the dialer's connection request, the answer of the listener's
  connection and the dialer's answer to it make both connected, in any environments of the two
  connections; the task that waits for the connection can hand it on, and the next \<open>accept\<close> returns it.
\<close>

theorem dialing_connects:
  assumes "map_of (l_connections l) addr = None" and "\<not> is_blocked addr l" and "l_id l \<noteq> 0"
    and "\<And>n. le_send_to env n = None" and "k < 9" and "mtu = concat (map (replicate 3) MTU_SIZES) ! k"
    and "\<not> l_closed l" and "l_incoming l = []"
  shows "\<exists>d1 d2 r1 r2 q1 q2 q3.
    (\<forall>hs s. (\<forall>n. de_send hs n = None) \<and> (\<forall>j < k. de_recv hs (ds_io s + 2 * j + 1) = Elapsed)
        \<and> de_recv hs (ds_io s + 2 * k + 1) = Arrived r1 \<and> de_recv hs (ds_io s + 2 * k + 3) = Arrived r2 \<longrightarrow>
        (\<exists>unanswered s'. length unanswered = k \<and> dial_handshake dialer hs remote guid s = (s', Ok mtu)
           \<and> ds_sent s' = ds_sent s @ unanswered @ [d1, d2]))
    \<and> (let i = length (l_conns l);
           l2 = listen_received env d2 addr (listen_received env d1 addr l);
           d = run_task denv 0 (fst (dial_start denv remote guid mtu now));
           l3 = conn_turn env i (listen_received env q1 addr l2);
           (d', ended) = dial_receive denv [Datagram q2] d; d'' = run_task denv 0 d';
           l4 = listen_received env q3 addr l3
       in l_out l4 = l_out l @ [(addr, r1), (addr, r2)]
         \<and> c_log d = [TrySent q1] \<and> c_log (l_conns l3 ! i) = [TrySent q2] \<and> \<not> ended
         \<and> c_log d'' = [TrySent q1, NotifyConnected, TrySent q3] \<and> is_connected d''
         \<and> is_connected (l_conns l4 ! i) \<and> i \<in> set (l_waiting l4)
         \<and> map_of (l_connections l4) addr = Some i
         \<and> snd (accept (send_incoming i (wait_over i l4))) = Some (Ok i))"
  using connect_run [OF assms, of dialer remote guid denv now] unfolding Let_def case_prod_beta by blast

theorem dialing_connects_witness:
  "\<exists>d1 d2 q1 q3. let l2 = listen_received (still_listen_env (\<lambda>_. 0x2a)) d2 (V4 1 2)
          (listen_received (still_listen_env (\<lambda>_. 0x2a)) d1 (V4 1 2) (fresh listen_config_default 7 9));
       l4 = listen_received (still_listen_env (\<lambda>_. 0x2a)) q3 (V4 1 2) (conn_turn (still_listen_env (\<lambda>_. 0x2a)) 0
          (listen_received (still_listen_env (\<lambda>_. 0x2a)) q1 (V4 1 2) l2))
     in is_connected (l_conns l4 ! 0) \<and> snd (accept (send_incoming 0 (wait_over 0 l4))) = Some (Ok 0)"
proof -
  let ?l = "fresh listen_config_default 7 9"
  have l: "l_id ?l \<noteq> 0" "\<not> l_closed ?l" "l_incoming ?l = []" "length (l_conns ?l) = 0"
      "map_of (l_connections ?l) (V4 1 2) = None" "\<not> is_blocked (V4 1 2) ?l"
    by (simp_all add: fresh_def listen_check_def listener_new_def is_blocked_def)
  have nine: "(0 :: nat) < 9" by simp
  have "1492 = concat (map (replicate 3) MTU_SIZES) ! 0" by (simp add: MTU_SIZES_def numeral_3_eq_3)
  from dialing_connects [OF l(5,6,1) still_listen_env_simps(3) [of "\<lambda>_. 0x2a"] nine this l(2,3),
      where dialer = dialer_default and remote = "V4 9 10" and guid = 5 and denv = "still_env Release" and now = 0]
  show ?thesis unfolding l(4) Let_def case_prod_beta by (elim exE conjE) (intro exI conjI, assumption+)
qed

end
