(* ===== verification/Addr_Text.thy ===== *)
theory Addr_Text
  imports Errors
begin

text \<open>
  Socket addresses as texts: \<open>addr.parse::<SocketAddr>()\<close> of \<open>src/dial.rs\<close>, the parser of the standard
  library. A reader takes a text and gives a value and the rest of the text, or \<open>None\<close>; a reader
  that fails leaves the text as it was. A text is a list of bytes.
\<close>

section \<open>Numbers\<close>

type_synonym 'a reader = "string \<Rightarrow> ('a \<times> string) option"

definition to_digit :: "nat \<Rightarrow> char \<Rightarrow> nat option" where
  "to_digit radix c =
     (let n = of_char c;
          d = (if 48 \<le> n \<and> n \<le> 57 then n - 48 else if 97 \<le> n \<and> n \<le> 122 then n - 87
               else if 65 \<le> n \<and> n \<le> 90 then n - 55 else radix)
      in if d < radix then Some d else None)"

text \<open>The digits a text starts with.\<close>

fun read_digits :: "nat \<Rightarrow> string \<Rightarrow> nat list \<times> string" where
  "read_digits radix [] = ([], [])"
| "read_digits radix (c # s) =
     (case to_digit radix c of
        None \<Rightarrow> ([], c # s)
      | Some d \<Rightarrow> let (ds, rest) = read_digits radix s in (d # ds, rest))"

text \<open>
  \<open>read_number\<close> for a type whose numbers are below \<open>bound\<close>: more digits than \<open>max_digits\<close>, a leading
  zero that is not allowed, or a number that does not fit the type are no number.
\<close>

definition read_number :: "nat \<Rightarrow> nat \<Rightarrow> nat option \<Rightarrow> bool \<Rightarrow> nat reader" where
  "read_number bound radix max_digits allow_zero_prefix s =
     (let (ds, rest) = read_digits radix s; n = foldl (\<lambda>n d. n * radix + d) 0 ds
      in if ds = [] then None
         else if (case max_digits of None \<Rightarrow> False | Some m \<Rightarrow> m < length ds) then None
         else if \<not> allow_zero_prefix \<and> hd ds = 0 \<and> 1 < length ds then None
         else if n < bound then Some (n, rest) else None)"

definition read_given_char :: "char \<Rightarrow> unit reader" where
  "read_given_char c s = (case s of [] \<Rightarrow> None | c' # rest \<Rightarrow> if c' = c then Some ((), rest) else None)"

text \<open>One reader after the other.\<close>

definition and_read :: "'a reader \<Rightarrow> ('a \<Rightarrow> 'b reader) \<Rightarrow> 'b reader" where
  "and_read p f s = Option.bind (p s) (\<lambda>(a, rest). f a rest)"

text \<open>A separator comes before every part but the first.\<close>

definition read_separator :: "char \<Rightarrow> nat \<Rightarrow> 'a reader \<Rightarrow> 'a reader" where
  "read_separator sep index p = (if index = 0 then p else and_read (read_given_char sep) (\<lambda>_. p))"

section \<open>Addresses\<close>

definition read_octet :: "nat reader" where
  "read_octet = read_number 256 10 (Some 3) False"

definition read_ipv4_addr :: "nat list reader" where
  "read_ipv4_addr =
     and_read (read_separator CHR ''.'' 0 read_octet) (\<lambda>a.
     and_read (read_separator CHR ''.'' 1 read_octet) (\<lambda>b.
     and_read (read_separator CHR ''.'' 2 read_octet) (\<lambda>c.
     and_read (read_separator CHR ''.'' 3 read_octet) (\<lambda>d rest. Some ([a, b, c, d], rest)))))"

text \<open>
  \<open>read_groups\<close> from group \<open>i\<close> on: the groups read, whether the last two are an embedded version 4
  address, and the rest. Such an address needs room for two groups.
\<close>

function read_groups :: "nat \<Rightarrow> nat \<Rightarrow> string \<Rightarrow> nat list \<times> bool \<times> string" where
  "read_groups i limit s =
     (if limit \<le> i then ([], False, s)
      else case (if i < limit - 1 then read_separator CHR '':'' i read_ipv4_addr s else None) of
        Some (v4, rest) \<Rightarrow> ([v4 ! 0 * 256 + v4 ! 1, v4 ! 2 * 256 + v4 ! 3], True, rest)
      | None \<Rightarrow>
          (case read_separator CHR '':'' i (read_number 65536 16 (Some 4) True) s of
             Some (g, rest) \<Rightarrow> let (gs, v4, rest) = read_groups (Suc i) limit rest in (g # gs, v4, rest)
           | None \<Rightarrow> ([], False, s)))"
  by pat_completeness auto
termination
  by (relation "measure (\<lambda>(i, limit, s). limit - i)") auto

declare read_groups.simps [simp del]

text \<open>The groups missing between the part before \<open>::\<close> and the part behind it are zero.\<close>

definition read_ipv6_addr :: "nat list reader" where
  "read_ipv6_addr s =
     (let (front, front_v4, rest) = read_groups 0 8 s
      in if length front = 8 then Some (front, rest)
         else if front_v4 then None
         else and_read (read_given_char CHR '':'') (\<lambda>_. and_read (read_given_char CHR '':'') (\<lambda>_ rest.
                let (back, back_v4, rest) = read_groups 0 (8 - (length front + 1)) rest
                in Some (front @ replicate (8 - length front - length back) 0 @ back, rest))) rest)"

definition read_port :: "nat reader" where
  "read_port = and_read (read_given_char CHR '':'') (\<lambda>_. read_number 65536 10 None True)"

definition read_scope_id :: "nat reader" where
  "read_scope_id = and_read (read_given_char CHR ''%'') (\<lambda>_. read_number (2 ^ 32) 10 None True)"

definition of_parts :: "nat \<Rightarrow> nat list \<Rightarrow> 'a::len word" where
  "of_parts base ps = of_nat (foldl (\<lambda>n p. n * base + p) 0 ps)"

definition read_socket_addr_v4 :: "SocketAddr reader" where
  "read_socket_addr_v4 =
     and_read read_ipv4_addr (\<lambda>ip. and_read read_port (\<lambda>port rest.
       Some (V4 (of_parts 256 ip) (of_nat port), rest)))"

definition read_socket_addr_v6 :: "SocketAddr reader" where
  "read_socket_addr_v6 =
     and_read (read_given_char CHR ''['') (\<lambda>_. and_read read_ipv6_addr (\<lambda>ip rest.
       let (scope, rest) = (case read_scope_id rest of Some r \<Rightarrow> r | None \<Rightarrow> (0, rest))
       in and_read (read_given_char CHR '']'') (\<lambda>_. and_read read_port (\<lambda>port rest.
            Some (V6 (of_parts 65536 ip) (of_nat port) 0 (of_nat scope), rest))) rest))"

text \<open>All of the text must be read.\<close>

definition parse_socket_addr :: "string \<Rightarrow> SocketAddr option" where
  "parse_socket_addr s =
     (case (case read_socket_addr_v4 s of Some r \<Rightarrow> Some r | None \<Rightarrow> read_socket_addr_v6 s) of
        Some (addr, []) \<Rightarrow> Some addr | _ \<Rightarrow> None)"

text \<open>The \<open>map_err\<close> of its callers, with the text of \<open>AddrParseError\<close>.\<close>

definition parse_addr :: "string \<Rightarrow> SocketAddr outcome" where
  "parse_addr s =
     (case parse_socket_addr s of
        Some addr \<Rightarrow> Ok addr
      | None \<Rightarrow> Err (Other (''invalid address: '' @ ''invalid socket address syntax'')))"

section \<open>Version 4 addresses\<close>

text \<open>An address as one writes it.\<close>

definition v4_text :: "nat list \<Rightarrow> nat \<Rightarrow> string" where
  "v4_text ip port =
     decimal (ip ! 0) @ ''.'' @ decimal (ip ! 1) @ ''.'' @ decimal (ip ! 2) @ ''.'' @ decimal (ip ! 3)
       @ '':'' @ decimal port"

lemma to_digit_decimal: "d < 10 \<Longrightarrow> to_digit 10 (char_of (48 + d)) = Some d"
  by (simp add: to_digit_def of_char_of Let_def)

lemma read_digits_append:
  "list_all (\<lambda>c. to_digit radix c \<noteq> None) s \<Longrightarrow> rest = [] \<or> to_digit radix (hd rest) = None \<Longrightarrow>
    read_digits radix (s @ rest) = (map (\<lambda>c. the (to_digit radix c)) s, rest)"
proof (induction s)
  case Nil
  then show ?case by (cases rest) auto
qed auto

lemma decimal_digits:
  "list_all (\<lambda>c. to_digit 10 c \<noteq> None) (decimal n)
   \<and> foldl (\<lambda>n d. n * 10 + d) 0 (map (\<lambda>c. the (to_digit 10 c)) (decimal n)) = n
   \<and> decimal n \<noteq> [] \<and> (the (to_digit 10 (hd (decimal n))) = 0 \<longrightarrow> n = 0) \<and> (n < 10 \<longrightarrow> length (decimal n) = 1)"
proof (induction n rule: decimal.induct)
  case (1 n)
  show ?case
  proof (cases "n < 10")
    case True
    then show ?thesis by (simp add: decimal.simps [of n] to_digit_decimal)
  next
    case False
    then have d: "decimal n = decimal (n div 10) @ [char_of (48 + n mod 10)]" by (simp add: decimal.simps [of n])
    note IH = "1.IH" [OF False]
    have "n div 10 \<noteq> 0" using False by simp
    then show ?thesis using IH False by (simp add: d to_digit_decimal)
  qed
qed

lemma decimal_length: "n < 1000 \<Longrightarrow> length (decimal n) \<le> 3"
  by (simp add: decimal.simps [of n] decimal.simps [of "n div 10"] decimal.simps [of "n div 10 div 10"])

lemma read_number_decimal:
  assumes "n < bound" and "rest = [] \<or> to_digit 10 (hd rest) = None"
    and "\<And>m. max_digits = Some m \<Longrightarrow> length (decimal n) \<le> m"
  shows "read_number bound 10 max_digits allow_zero_prefix (decimal n @ rest) = Some (n, rest)"
proof -
  note d = decimal_digits [of n]
  have "read_digits 10 (decimal n @ rest) = (map (\<lambda>c. the (to_digit 10 c)) (decimal n), rest)"
    by (rule read_digits_append) (use d assms(2) in auto)
  moreover have "\<not> (hd (map (\<lambda>c. the (to_digit 10 c)) (decimal n)) = 0 \<and> 1 < length (decimal n))"
    using d by (auto simp: hd_map)
  ultimately show ?thesis
    using d assms(1,3) by (auto simp: read_number_def Let_def split: option.split)
qed

lemma read_octet_decimal:
  "n < 256 \<Longrightarrow> rest = [] \<or> to_digit 10 (hd rest) = None \<Longrightarrow> read_octet (decimal n @ rest) = Some (n, rest)"
  unfolding read_octet_def by (rule read_number_decimal) (use decimal_length [of n] in auto)

lemma not_digit [simp]: "to_digit 10 CHR ''.'' = None" "to_digit 10 CHR '':'' = None"
  by (simp_all add: to_digit_def)

text \<open>The text of an address and a port is read as that address and port.\<close>

lemma parse_v4_text:
  assumes "length ip = 4" and "list_all (\<lambda>b. b < 256) ip" and "port < 65536"
  shows "parse_socket_addr (v4_text ip port) = Some (V4 (of_parts 256 ip) (of_nat port))"
proof -
  obtain a b c d where ip: "ip = [a, b, c, d]" "a < 256" "b < 256" "c < 256" "d < 256"
    using assms(1,2) by (auto simp: length_Suc_conv numeral_eq_Suc)
  have "read_number 65536 10 None True (decimal port) = Some (port, [])"
    using read_number_decimal [OF assms(3), of "[]" None True] by simp
  then have "read_socket_addr_v4 (v4_text ip port) = Some (V4 (of_parts 256 ip) (of_nat port), [])"
    by (simp add: read_socket_addr_v4_def read_ipv4_addr_def read_port_def and_read_def read_separator_def
        read_given_char_def v4_text_def ip read_octet_decimal)
  then show ?thesis by (simp add: parse_socket_addr_def)
qed

end
