(* ===== verification/Entry_Points.thy ===== *)
theory Entry_Points
  imports Login Channels Addr_Text
begin

text \<open>
  The calls a user starts with: \<open>dial\<close>, \<open>dial_addr\<close> and \<open>ping\<close> of \<open>src/dial.rs\<close> and \<open>listen\<close> of
  \<open>src/listener.rs\<close>, from the text of an address to what the user gets. While \<open>dial_addr\<close> waits for the
  connection to be established the tasks of the connection go on; what happens until the timeout
  is a list of turns, in any order.
\<close>

section \<open>Sockets\<close>

text \<open>What the calls need besides sending and receiving: the errors of binding and connecting.\<close>

record host = dial_env +
  ho_bind :: "string \<Rightarrow> string option"
  ho_connect :: "SocketAddr \<Rightarrow> string option"

fun is_ipv6 :: "SocketAddr \<Rightarrow> bool" where
  "is_ipv6 (V4 ip port) = False"
| "is_ipv6 (V6 ip port flow scope) = True"

definition local_addr_for :: "SocketAddr \<Rightarrow> string" where
  "local_addr_for remote_addr = (if is_ipv6 remote_addr then ''[::]:0'' else ''0.0.0.0:0'')"

definition io_result :: "string option \<Rightarrow> unit outcome" where
  "io_result r = (case r of None \<Rightarrow> Ok () | Some e \<Rightarrow> Err (Io e))"

definition dial_socket :: "host \<Rightarrow> SocketAddr \<Rightarrow> unit outcome" where
  "dial_socket host remote_addr =
     and_then (io_result (ho_bind host (local_addr_for remote_addr))) (\<lambda>_. io_result (ho_connect host remote_addr))"

section \<open>Waiting for the connection\<close>

text \<open>
  What may happen while \<open>dial_addr\<close> waits: the receiving task gets something, a spawned task is run,
  the ticker ticks, or the waiting future is polled.
\<close>

datatype dial_turn = Receives dial_event | Runs_task nat | Ticks_at u64 | Polls

text \<open>A waiter that has made its future is woken when the connection is marked connected.\<close>

definition woken :: "Conn \<Rightarrow> Conn \<Rightarrow> waiter \<Rightarrow> waiter" where
  "woken conn conn' w = (if \<not> c_connected conn \<and> c_connected conn' \<and> w = On_future then Returned else w)"

text \<open>
  The turns until the timeout. The result is the connection and whether the time ran out before
  \<open>wait_connected\<close> returned; \<open>receiving\<close> says whether the receiving task is still there.
\<close>

fun dial_wait :: "env \<Rightarrow> dial_turn list \<Rightarrow> bool \<Rightarrow> waiter \<Rightarrow> Conn \<Rightarrow> Conn \<times> bool" where
  "dial_wait env [] receiving w conn = (conn, True)"
| "dial_wait env (Receives event # turns) receiving w conn =
     (if receiving then
        let (conn', ended) = dial_receive env [event] conn
        in dial_wait env turns (\<not> ended) (woken conn conn' w) conn'
      else dial_wait env turns receiving w conn)"
| "dial_wait env (Runs_task k # turns) receiving w conn =
     dial_wait env turns receiving w (if k < length (c_tasks conn) then run_task env k conn else conn)"
| "dial_wait env (Ticks_at n # turns) receiving w conn =
     dial_wait env turns receiving w (fst (tick env dialer_close n conn))"
| "dial_wait env (Polls # turns) receiving w conn =
     (let w = waiter_step conn w
      in if w = Returned then (conn, False) else dial_wait env turns receiving w conn)"

section \<open>Dialing\<close>

text \<open>The state is what went over the socket and the connection, once there is one.\<close>

definition dial_addr ::
  "Dialer \<Rightarrow> host \<Rightarrow> env \<Rightarrow> u64 \<Rightarrow> instant \<Rightarrow> dial_turn list \<Rightarrow> SocketAddr \<Rightarrow> dial_state
     \<Rightarrow> (dial_state \<times> Conn option) \<times> Conn outcome" where
  "dial_addr dialer host env client_guid now turns remote_addr s =
     and_then_st ((s, None), dial_socket host remote_addr) (\<lambda>(s, _) _.
     let (s, r) = dial_handshake dialer (dial_env.truncate host) remote_addr client_guid s in
     and_then_st ((s, None), r) (\<lambda>(s, _) mtu.
     let (conn, r) = dial_start env remote_addr client_guid mtu now in
     and_then_st ((s, Some conn), r) (\<lambda>(s, _) _.
     let (conn, timed_out) = dial_wait env turns True Load_flag conn;
         (conn, r) = dial_finish timed_out conn
     in and_then_st ((s, Some conn), r) (\<lambda>st _. (st, Ok conn)))))"

definition dial_with ::
  "Dialer \<Rightarrow> host \<Rightarrow> env \<Rightarrow> u64 \<Rightarrow> instant \<Rightarrow> dial_turn list \<Rightarrow> string \<Rightarrow> dial_state
     \<Rightarrow> (dial_state \<times> Conn option) \<times> Conn outcome" where
  "dial_with dialer host env client_guid now turns addr s =
     and_then_st ((s, None), parse_addr addr) (\<lambda>(s, _) remote_addr.
       dial_addr dialer host env client_guid now turns remote_addr s)"

definition dial ::
  "host \<Rightarrow> env \<Rightarrow> u64 \<Rightarrow> instant \<Rightarrow> dial_turn list \<Rightarrow> string \<Rightarrow> dial_state
     \<Rightarrow> (dial_state \<times> Conn option) \<times> Conn outcome" where
  "dial = dial_with dialer_default"

section \<open>Pinging and listening\<close>

text \<open>
  The whole of \<open>ping_timeout\<close>; the timeout is an outcome of the reception, so \<open>ping\<close> is the same.
\<close>

definition ping_addr :: "host \<Rightarrow> i64 \<Rightarrow> i64 \<Rightarrow> string \<Rightarrow> dial_state \<Rightarrow> dial_state \<times> bytes outcome" where
  "ping_addr host time client_guid addr s =
     and_then_st (s, parse_addr addr) (\<lambda>s remote_addr.
     and_then_st (s, io_result (ho_bind host (local_addr_for remote_addr))) (\<lambda>s _.
       ping_timeout (dial_env.truncate host) time client_guid s))"

definition ping :: "host \<Rightarrow> i64 \<Rightarrow> i64 \<Rightarrow> string \<Rightarrow> dial_state \<Rightarrow> dial_state \<times> bytes outcome" where
  "ping = ping_addr"

definition config_listen :: "host \<Rightarrow> i64 \<Rightarrow> u32 \<Rightarrow> ListenConfig \<Rightarrow> string \<Rightarrow> Listener outcome" where
  "config_listen host guid salt self addr =
     and_then (io_result (ho_bind host addr)) (\<lambda>_. Ok (listener_new self guid salt))"

definition listener_bind :: "host \<Rightarrow> i64 \<Rightarrow> u32 \<Rightarrow> string \<Rightarrow> Listener outcome" where
  "listener_bind host guid salt addr = config_listen host guid salt listen_config_default addr"

definition listen :: "host \<Rightarrow> i64 \<Rightarrow> u32 \<Rightarrow> string \<Rightarrow> Listener outcome" where
  "listen host guid salt addr = listener_bind host guid salt addr"

section \<open>What waiting leaves\<close>

lemma dial_receive_step:
  assumes "dial_receive env [event] conn = (conn', ended)"
  shows "conn_steps env dialer_handler conn conn'"
proof (cases event)
  case (Datagram data)
  have "conn' = conn \<or> conn' = fst (conn_receive env dialer_handler (take 1500 data) conn)"
    using assms unfolding Datagram
    by (cases "conn_receive env dialer_handler (take 1500 data) conn"; cases "snd (conn_receive env dialer_handler (take 1500 data) conn)")
      (auto simp: Let_def split: if_splits)
  then show ?thesis using conn_step.Received by blast
qed (use assms in auto)

lemma connected_stays: "conn_steps env dialer_handler conn conn' \<Longrightarrow> c_connected conn \<Longrightarrow> c_connected conn'"
  using dialer_life.evolves_conn_steps by (auto simp: evolves_def)

lemma dial_wait_steps:
  assumes "dial_wait env turns receiving w conn = (conn', timed_out)" and "w = Returned \<Longrightarrow> c_connected conn"
  shows "conn_steps env dialer_handler conn conn' \<and> (\<not> timed_out \<longrightarrow> c_connected conn')"
  using assms
proof (induction env turns receiving w conn rule: dial_wait.induct)
  case (2 env event turns receiving w conn)
  show ?case
  proof (cases receiving)
    case True
    obtain c ended where r: "dial_receive env [event] conn = (c, ended)" by (cases "dial_receive env [event] conn")
    note steps = dial_receive_step [OF r]
    have "woken conn c w = Returned \<Longrightarrow> c_connected c"
      using "2.prems"(2) connected_stays [OF steps] by (auto simp: woken_def split: if_splits)
    with "2.IH"(1) [OF True r [symmetric] refl] "2.prems"(1) True r steps show ?thesis by (auto intro: rtranclp_trans)
  qed (use 2 in simp)
next
  case (3 env k turns receiving w conn)
  let ?c = "if k < length (c_tasks conn) then run_task env k conn else conn"
  have steps: "conn_steps env dialer_handler conn ?c" using conn_step.Task_run by auto
  then show ?case using "3.IH" "3.prems" connected_stays [OF steps] by (auto intro: rtranclp_trans)
next
  case (4 env n turns receiving w conn)
  let ?c = "fst (tick env dialer_close n conn)"
  have steps: "conn_steps env dialer_handler conn ?c"
    using conn_step.Ticked [of env dialer_handler conn n] by (simp add: dialer_handler_def r_into_rtranclp)
  then show ?case using "4.IH" "4.prems" connected_stays [OF steps] by (auto intro: rtranclp_trans)
next
  case (5 env turns receiving w conn)
  show ?case
  proof (cases "waiter_step conn w = Returned")
    case True
    then have "c_connected conn" using "5.prems"(2) by (auto simp: waiter_step_def split: waiter.splits if_splits)
    then show ?thesis using True "5.prems"(1) by simp
  qed (use 5 in \<open>simp add: Let_def\<close>)
qed simp

lemma dial_start_evolves:
  "evolves False (conn_new addr mtu now) (fst (dial_start env addr guid mtu now)) \<and> snd (dial_start env addr guid mtu now) = Ok ()"
proof -
  obtain conn t where t: "timestamp env (conn_new addr mtu now) = (conn, t)" by (cases "timestamp env (conn_new addr mtu now)")
  have "evolves False (conn_new addr mtu now) (fst (timestamp env (conn_new addr mtu now)))"
    by (rule evolves_timestamp) simp
  then show ?thesis
    by (simp add: dial_start_def connection_request_write_def send_message_def t)
qed

text \<open>What dialing makes of a connection: it is the same connection, established or closed.\<close>

lemma dialed_life:
  assumes "evolves False (conn_new addr mtu now) conn"
  shows "c_remote_addr conn = addr \<and> 400 \<le> c_mtu conn \<and> c_mtu conn \<le> 1492
    \<and> count_list (c_log conn) NotifyCancel = (if c_closed conn then 1 else 0)"
proof -
  have "c_remote_addr conn = addr \<and> c_mtu conn = clamp_mtu mtu" "\<exists>es. life_log False (conn_new addr mtu now) conn es"
    using assms by (simp_all add: evolves_def conn_new_def)
  moreover have "400 \<le> clamp_mtu mtu \<and> clamp_mtu mtu \<le> 1492"
    by (simp add: clamp_mtu_def MIN_MTU_SIZE_def MAX_MTU_SIZE_def)
  ultimately show ?thesis by (auto simp: life_log_def conn_new_def)
qed

lemma dial_finished:
  assumes "dial_wait env turns True Load_flag (fst (dial_start env remote guid mtu now)) = (conn, timed_out)"
    and "dial_finish timed_out conn = (conn', r)"
  shows "evolves False (conn_new remote mtu now) conn'
    \<and> (case r of Ok _ \<Rightarrow> c_connected conn' | Err e \<Rightarrow> e = Timeout \<and> c_closed conn' | Panic \<Rightarrow> False)"
proof -
  note steps = dial_wait_steps [OF assms(1)]
  have "evolves False (fst (dial_start env remote guid mtu now)) conn"
    by (rule dialer_life.evolves_conn_steps [where env = env]) (use steps in simp)
  with dial_start_evolves have e: "evolves False (conn_new remote mtu now) conn" by (blast intro: evolves_trans)
  have "conn_step env dialer_handler conn (close_immediately dialer_close conn)"
    using conn_step.Closed [of env dialer_handler conn] by (simp add: dialer_handler_def)
  then have c: "evolves False (conn_new remote mtu now) (close_immediately dialer_close conn)"
    using e dialer_life.evolves_conn_step evolves_trans by blast
  have "c_closed (close_immediately dialer_close conn)"
    by (simp add: close_immediately_def dialer_close_def emit_def send_message_def)
  then show ?thesis using assms(2) steps e c by (auto simp: dial_finish_def split: if_splits)
qed

lemma dial_socket_no_panic: "dial_socket host remote \<noteq> Panic"
  by (simp add: dial_socket_def io_result_def split: option.splits)

section \<open>A host\<close>

text \<open>A host on which every call succeeds and every reception brings \<open>r\<close>, at first, or \<open>r'\<close>.\<close>

definition lucky_host :: "bytes \<Rightarrow> bytes \<Rightarrow> host" where
  "lucky_host r r' = \<lparr>de_profile = Debug, de_send = (\<lambda>_. None), de_recv = (\<lambda>n. Arrived (if n = 1 then r else r')),
     ho_bind = (\<lambda>_. None), ho_connect = (\<lambda>_. None)\<rparr>"

lemma lucky_host_simps [simp]:
  "de_send (lucky_host r r') n = None" "de_recv (lucky_host r r') n = Arrived (if n = 1 then r else r')"
  "ho_bind (lucky_host r r') a = None" "ho_connect (lucky_host r r') addr = None"
  by (simp_all add: lucky_host_def)

lemma sample_target: "parse_socket_addr ''1.2.3.4:19132'' = Some (V4 0x01020304 19132)"
proof -
  have "v4_text [1, 2, 3, 4] 19132 = ''1.2.3.4:19132''" by (simp add: v4_text_def decimal.simps char_of_def bit_0 bit_Suc)
  with parse_v4_text [of "[1, 2, 3, 4]" 19132] show ?thesis by (simp add: of_parts_def)
qed

lemma sample_listening:
  "l_id (fresh listen_config_default 7 9) \<noteq> 0" "\<not> l_closed (fresh listen_config_default 7 9)"
  "l_incoming (fresh listen_config_default 7 9) = []" "l_out (fresh listen_config_default 7 9) = []"
  "map_of (l_connections (fresh listen_config_default 7 9)) addr = None"
  "\<not> is_blocked addr (fresh listen_config_default 7 9)"
  by (simp_all add: fresh_def listen_check_def listener_new_def is_blocked_def)

section \<open>Properties\<close>

text \<open>
  C12. What a call of \<open>dial\<close> leaves behind, whatever the network, the operating system and the tasks do. It
  never panics. On success it returns the connection of the parsed address, established, with an
  MTU between 400 and 1492. On failure no connection stays open: either none was made or it has
  been closed, and its tasks have been told so exactly once.
\<close>

theorem dial_outcome:
  "case dial_with dialer host env guid now turns addr s of ((s', made), r) \<Rightarrow>
     (case r of
        Ok conn \<Rightarrow> made = Some conn \<and> c_connected conn \<and> 400 \<le> c_mtu conn \<and> c_mtu conn \<le> 1492
          \<and> parse_socket_addr addr = Some (c_remote_addr conn)
      | Err e \<Rightarrow> (case made of None \<Rightarrow> True
          | Some conn \<Rightarrow> e = Timeout \<and> c_closed conn \<and> count_list (c_log conn) NotifyCancel = 1)
      | Panic \<Rightarrow> False)"
proof (cases "parse_socket_addr addr")
  case (Some remote)
  let ?env = "dial_env.truncate host"
  obtain hs r where h: "dial_handshake dialer ?env remote guid s = (hs, r)" by (cases "dial_handshake dialer ?env remote guid s")
  have "r \<noteq> Panic" using dial_handshake_bounded [of dialer ?env remote guid s] by (auto simp: h)
  show ?thesis
  proof (cases "\<exists>mtu. dial_socket host remote = Ok () \<and> r = Ok mtu")
    case True
    then obtain mtu where mtu: "dial_socket host remote = Ok ()" "r = Ok mtu" by blast
    obtain c0 where c0: "dial_start env remote guid mtu now = (c0, Ok ())"
      using dial_start_evolves [of remote mtu now env guid] by (metis prod.collapse)
    obtain conn timed_out where w: "dial_wait env turns True Load_flag c0 = (conn, timed_out)"
      by (cases "dial_wait env turns True Load_flag c0")
    obtain conn' r' where f: "dial_finish timed_out conn = (conn', r')" by (cases "dial_finish timed_out conn")
    have "dial_with dialer host env guid now turns addr s = and_then_st ((hs, Some conn'), r') (\<lambda>st _. (st, Ok conn'))"
      using Some h mtu w f c0 by (simp add: dial_with_def parse_addr_def dial_addr_def)
    with dial_finished [OF _ f, of env turns remote guid mtu now] w c0 dialed_life [of remote mtu now conn'] Some show ?thesis by (cases r') auto
  next
    case False
    with \<open>r \<noteq> Panic\<close> Some h show ?thesis
      using dial_socket_no_panic [of host remote]
      by (cases "dial_socket host remote"; cases r) (auto simp: dial_with_def parse_addr_def dial_addr_def)
  qed
qed (simp add: dial_with_def parse_addr_def)

text \<open>
  C39. The notification of an established connection can be lost. \<open>wait_connected\<close> tests the flag and only
  then makes the future that the notification wakes: when the request is accepted between the two,
  the wait goes on until the timeout, and an established connection is closed and reported as
  timed out.
\<close>

theorem lost_notification:
  assumes "\<not> c_connected conn" and "dial_receive env [Datagram data] conn = (conn', False)" and "c_connected conn'"
  shows "dial_wait env (Polls # Receives (Datagram data) # replicate n Polls) True Load_flag conn = (conn', True)
    \<and> c_connected conn' \<and> snd (dial_finish True conn') = Err Timeout \<and> c_closed (fst (dial_finish True conn'))
    \<and> dial_wait env (Polls # Polls # Receives (Datagram data) # [Polls]) True Load_flag conn = (conn', False)"
proof -
  have "dial_wait env (replicate n Polls) True w conn' = (conn', True)" if "w = Make_future \<or> w = On_future" for w
    using that by (induction n arbitrary: w) (auto simp: waiter_step_def)
  then show ?thesis using assms
    by (simp add: waiter_step_def woken_def dial_finish_def close_immediately_def dialer_close_def emit_def send_message_def
        del: dial_receive.simps)
qed

theorem lost_notification_witness:
  "\<exists>conn data conn'. dial_wait (still_env Debug) [Polls, Receives (Datagram data), Polls, Polls] True Load_flag conn = (conn', True)
     \<and> c_connected conn' \<and> snd (dial_finish True conn') = Err Timeout"
proof -
  let ?env = "still_env Debug"
  obtain d0 q2 d2 where "conn_receive ?env dialer_handler q2 (run_task ?env 0 d0) = (d2, Ok ())" "one_datagram q2"
      "\<not> c_connected (run_task ?env 0 d0)" "c_connected d2"
    using login_run [of ?env ?env "V4 1 2" 7 1400 0 "V4 3 4" 1400 0] by (auto simp: Let_def)
  with lost_notification [OF _ dial_receive_one, of "run_task ?env 0 d0" q2 ?env d2 2] show ?thesis
    unfolding numeral_2_eq_2 replicate.simps by blast
qed

text \<open>
  C13. A ping is answered. A listener that has no connection with an address and does not block it
  answers the datagram of a ping with its pong data; when the answer arrives, \<open>ping\<close> on the text of the
  listener's address returns exactly these data, if they fit the buffer of the pinging side.
\<close>

theorem ping_answered:
  assumes "map_of (l_connections l) addr = None" and "\<not> is_blocked addr l" and "\<And>n. le_send_to env n = None"
    and "length (l_pong_data l) \<le> 1465"
  shows "\<exists>d r. l_out (listen_received env d addr l) = l_out l @ [(addr, r)]
    \<and> (\<forall>host target remote s. parse_socket_addr target = Some remote \<and> ho_bind host (local_addr_for remote) = None
        \<and> de_send host (ds_io s) = None \<and> de_recv host (Suc (ds_io s)) = Arrived r \<longrightarrow>
          (\<exists>s'. ping host time guid target s = (s', Ok (l_pong_data l)) \<and> ds_sent s' = ds_sent s @ [d]))"
proof -
  let ?ping = "unconnected_ping_new time guid"
  let ?pong = "unconnected_pong_new time (l_id l) (l_pong_data l)"
  obtain body where d: "unconnected_ping_write ?ping = Ok (UNCONNECTED_PING # body)" "unconnected_ping_read body = Ok ?ping"
    using unconnected_ping.dec_enc [of ?ping] by blast
  obtain reply where r: "unconnected_pong_write ?pong = Ok (UNCONNECTED_PONG # reply)" "unconnected_pong_read reply = Ok ?pong"
    using unconnected_pong.dec_enc [of ?pong] assms(4) by (auto simp: unconnected_pong_new_def)
  have len: "length body = 32" "length reply = 34 + length (l_pong_data l)"
    using d(1) r(1) by (auto simp: unconnected_ping_write_def unconnected_pong_write_def unconnected_pong_new_def)
  let ?d = "UNCONNECTED_PING # body" and ?r = "UNCONNECTED_PONG # reply"
  have "\<not> is_blocked addr (l\<lparr>l_pc := Checking\<rparr>)" using assms(2) is_blocked_fixed [of "l\<lparr>l_pc := Checking\<rparr>" l addr] by (simp add: fixed_part_def)
  then have "l_out (listen_received env ?d addr l) = l_out l @ [(addr, ?r)]"
    using assms(1,3) len(1) d(2) r(1)
    by (simp add: listen_received_def handle_def handle_unconnected_def handle_unconnected_ping_def send_to_def
        unconnected_ping_new_def Let_def)
  moreover have "\<exists>s'. ping host time guid target s = (s', Ok (l_pong_data l)) \<and> ds_sent s' = ds_sent s @ [?d]"
    if "parse_socket_addr target = Some remote" "ho_bind host (local_addr_for remote) = None"
      "de_send host (ds_io s) = None" "de_recv host (Suc (ds_io s)) = Arrived ?r" for host target remote s
    using that assms(4) len d(1) r(2)
    by (simp add: ping_def ping_addr_def parse_addr_def io_result_def ping_timeout_def dial_send_def dial_recv_def
        dial_env.truncate_def unconnected_pong_new_def Let_def)
  ultimately show ?thesis by blast
qed

theorem ping_answered_witness:
  "\<exists>r s'. ping (lucky_host r r) 0 5 ''1.2.3.4:19132'' \<lparr>ds_sent = [], ds_io = 0\<rparr> = (s', Ok [77])"
proof -
  let ?l = "(fresh listen_config_default 7 9)\<lparr>l_pong_data := [77]\<rparr>"
  have "map_of (l_connections ?l) (V4 1 2) = None" "\<not> is_blocked (V4 1 2) ?l" "length (l_pong_data ?l) \<le> 1465"
    using sample_listening by (simp_all add: is_blocked_def)
  from ping_answered [OF this(1,2) still_listen_env_simps(3) [of "\<lambda>_. 0x2a"] this(3), of 0 5] obtain r where
    "\<And>host target remote s. parse_socket_addr target = Some remote \<and> ho_bind host (local_addr_for remote) = None
        \<and> de_send host (ds_io s) = None \<and> de_recv host (Suc (ds_io s)) = Arrived r \<Longrightarrow> \<exists>s'. ping host 0 5 target s = (s', Ok [77])"
    by (elim exE conjE) (rule that, fastforce)
  from this [of "''1.2.3.4:19132''" "V4 0x01020304 19132" "lucky_host r r" "\<lparr>ds_sent = [], ds_io = 0\<rparr>"]
  show ?thesis using sample_target by auto
qed

text \<open>A dial that gets through, in two steps: the waiting for the login, and the whole call.\<close>

lemma login_wait:
  assumes "c_tasks d \<noteq> []" and "\<not> c_connected (run_task denv 0 d)"
    and "dial_receive denv [Datagram data] (run_task denv 0 d) = (d', False)"
    and "c_connected d'" and "c_tasks d' \<noteq> []" and "is_connected (run_task denv 0 d')"
  shows "dial_wait denv [Polls, Runs_task 0, Polls, Receives (Datagram data), Runs_task 0, Polls] True Load_flag d
    = (run_task denv 0 d', False)"
proof -
  have "conn_step denv dialer_handler d (run_task denv 0 d)" by (rule conn_step.Task_run)
  then have "\<not> c_connected d" using assms(2) connected_stays by blast
  with assms show ?thesis by (simp add: waiter_step_def woken_def is_connected_def del: dial_receive.simps)
qed

lemma dial_with_run:
  assumes "ho_bind host (local_addr_for remote) = None" and "ho_connect host remote = None"
    and "parse_socket_addr target = Some remote"
    and "dial_handshake dialer (dial_env.truncate host) remote guid s = (s', Ok mtu)"
    and "dial_wait denv turns True Load_flag (fst (dial_start denv remote guid mtu now)) = (d, False)"
  shows "dial_with dialer host denv guid now turns target s = ((s', Some d), Ok d)"
    and "c_remote_addr d = remote" and "c_mtu d = clamp_mtu mtu"
proof -
  obtain d0 where d0: "fst (dial_start denv remote guid mtu now) = d0" by blast
  have start: "dial_start denv remote guid mtu now = (d0, Ok ())"
    using dial_start_evolves [of remote mtu now denv guid] d0 by (metis prod.collapse)
  show "dial_with dialer host denv guid now turns target s = ((s', Some d), Ok d)"
    using assms start unfolding d0
    by (simp add: dial_with_def parse_addr_def dial_addr_def dial_socket_def io_result_def dial_finish_def del: dial_wait.simps)
  show "c_remote_addr d = remote" "c_mtu d = clamp_mtu mtu"
    using dial_finished [OF assms(5), of d "Ok ()"] by (simp_all add: dial_finish_def evolves_def conn_new_def)
qed

text \<open>
  C11. Dialing works from the text of an address to the accepted connection. A dialer whose first \<open>k\<close>
  requests get no answer and a listener that has nothing to do with its address: when the
  datagrams arrive, \<open>dial\<close> returns an established connection to that address with the MTU of the
  attempt that got through, after the turns of its tasks and of its waiter, and the listener's next
  \<open>accept\<close> returns the connection at the other end.
\<close>

theorem dial_succeeds:
  assumes "map_of (l_connections l) addr = None" and "\<not> is_blocked addr l" and "l_id l \<noteq> 0"
    and "\<And>n. le_send_to env n = None" and "k < 9" and "mtu = concat (map (replicate 3) MTU_SIZES) ! k"
    and "\<not> l_closed l" and "l_incoming l = []" and "parse_socket_addr target = Some remote"
  shows "\<exists>d1 d2 r1 r2 q1 q2 q3.
    (\<forall>host s. ho_bind host (local_addr_for remote) = None \<and> ho_connect host remote = None
        \<and> (\<forall>n. de_send host n = None) \<and> (\<forall>j < k. de_recv host (ds_io s + 2 * j + 1) = Elapsed)
        \<and> de_recv host (ds_io s + 2 * k + 1) = Arrived r1 \<and> de_recv host (ds_io s + 2 * k + 3) = Arrived r2 \<longrightarrow>
        (\<exists>unanswered s' conn. length unanswered = k
           \<and> dial_with dialer host denv guid now [Polls, Runs_task 0, Polls, Receives (Datagram q2), Runs_task 0, Polls] target s
             = ((s', Some conn), Ok conn)
           \<and> ds_sent s' = ds_sent s @ unanswered @ [d1, d2] \<and> c_remote_addr conn = remote \<and> c_mtu conn = clamp_mtu mtu
           \<and> c_connected conn \<and> c_log conn = [TrySent q1, NotifyConnected, TrySent q3]))
    \<and> (let i = length (l_conns l);
           l2 = listen_received env d2 addr (listen_received env d1 addr l);
           l3 = conn_turn env i (listen_received env q1 addr l2);
           l4 = listen_received env q3 addr l3
       in l_out l4 = l_out l @ [(addr, r1), (addr, r2)] \<and> c_log (l_conns l3 ! i) = [TrySent q2]
         \<and> is_connected (l_conns l4 ! i) \<and> snd (accept (send_incoming i (wait_over i l4))) = Some (Ok i))"
proof -
  obtain d1 d2 r1 r2 q1 q2 q3 where hs: "\<forall>hs s. (\<forall>n. de_send hs n = None) \<and> (\<forall>j < k. de_recv hs (ds_io s + 2 * j + 1) = Elapsed)
        \<and> de_recv hs (ds_io s + 2 * k + 1) = Arrived r1 \<and> de_recv hs (ds_io s + 2 * k + 3) = Arrived r2 \<longrightarrow>
        (\<exists>unanswered s'. length unanswered = k \<and> dial_handshake dialer hs remote guid s = (s', Ok mtu)
           \<and> ds_sent s' = ds_sent s @ unanswered @ [d1, d2])"
    and q: "let i = length (l_conns l);
           l2 = listen_received env d2 addr (listen_received env d1 addr l);
           d = run_task denv 0 (fst (dial_start denv remote guid mtu now));
           l3 = conn_turn env i (listen_received env q1 addr l2);
           (d', ended) = dial_receive denv [Datagram q2] d; d'' = run_task denv 0 d';
           l4 = listen_received env q3 addr l3
       in l_out l4 = l_out l @ [(addr, r1), (addr, r2)]
         \<and> c_log d = [TrySent q1] \<and> c_log (l_conns l3 ! i) = [TrySent q2] \<and> \<not> ended
         \<and> c_log d'' = [TrySent q1, NotifyConnected, TrySent q3] \<and> is_connected d''
         \<and> is_connected (l_conns l4 ! i) \<and> i \<in> set (l_waiting l4)
         \<and> map_of (l_connections l4) addr = Some i
         \<and> snd (accept (send_incoming i (wait_over i l4))) = Some (Ok i)
         \<and> c_tasks (fst (dial_start denv remote guid mtu now)) \<noteq> [] \<and> \<not> c_connected d \<and> c_connected d' \<and> c_tasks d' \<noteq> []"
    using connect_run [OF assms(1-8), of dialer remote guid denv now] by (elim exE conjE) (rule that; assumption)
  let ?d0 = "fst (dial_start denv remote guid mtu now)"
  obtain d' ended where r: "dial_receive denv [Datagram q2] (run_task denv 0 ?d0) = (d', ended)"
    by (cases "dial_receive denv [Datagram q2] (run_task denv 0 ?d0)")
  note q = q [unfolded Let_def r prod.case]
  have wait: "dial_wait denv [Polls, Runs_task 0, Polls, Receives (Datagram q2), Runs_task 0, Polls] True Load_flag ?d0
      = (run_task denv 0 d', False)"
    by (rule login_wait) (use q r in simp_all)
  show ?thesis
  proof (rule exI [of _ d1], rule exI [of _ d2], rule exI [of _ r1], rule exI [of _ r2],
      rule exI [of _ q1], rule exI [of _ q2], rule exI [of _ q3], rule conjI, intro allI impI, elim conjE)
    fix host :: host and s :: dial_state
    assume h: "ho_bind host (local_addr_for remote) = None" "ho_connect host remote = None"
      "\<forall>n. de_send host n = None" "\<forall>j < k. de_recv host (ds_io s + 2 * j + 1) = Elapsed"
      "de_recv host (ds_io s + 2 * k + 1) = Arrived r1" "de_recv host (ds_io s + 2 * k + 3) = Arrived r2"
    obtain unanswered s' where u: "length unanswered = k" "dial_handshake dialer (dial_env.truncate host) remote guid s = (s', Ok mtu)"
        "ds_sent s' = ds_sent s @ unanswered @ [d1, d2]"
      using hs [THEN spec, THEN spec, of "dial_env.truncate host" s] h by (auto simp: dial_env.truncate_def)
    show "\<exists>unanswered s' conn. length unanswered = k
        \<and> dial_with dialer host denv guid now [Polls, Runs_task 0, Polls, Receives (Datagram q2), Runs_task 0, Polls] target s
          = ((s', Some conn), Ok conn)
        \<and> ds_sent s' = ds_sent s @ unanswered @ [d1, d2] \<and> c_remote_addr conn = remote \<and> c_mtu conn = clamp_mtu mtu
        \<and> c_connected conn \<and> c_log conn = [TrySent q1, NotifyConnected, TrySent q3]"
      using dial_with_run [OF h(1,2) assms(9) u(2) wait] u(1,3) q by (auto simp: is_connected_def)
  qed (insert q, unfold Let_def, elim conjE, intro conjI; assumption)
qed

theorem dial_succeeds_witness:
  "\<exists>r1 r2 q s' conn. dial_with dialer_default (lucky_host r1 r2) (still_env Release) 5 0
       [Polls, Runs_task 0, Polls, Receives (Datagram q), Runs_task 0, Polls] ''1.2.3.4:19132'' \<lparr>ds_sent = [], ds_io = 0\<rparr>
     = ((s', Some conn), Ok conn) \<and> c_connected conn \<and> c_remote_addr conn = V4 0x01020304 19132"
proof -
  let ?s = "\<lparr>ds_sent = [], ds_io = 0\<rparr> :: dial_state"
  have k: "(0 :: nat) < 9" "1492 = concat (map (replicate 3) MTU_SIZES) ! 0" by (simp_all add: MTU_SIZES_def numeral_3_eq_3)
  from dial_succeeds [OF sample_listening(5,6,1) still_listen_env_simps(3) [of "\<lambda>_. 0x2a"] k sample_listening(2,3) sample_target,
      where addr = "V4 1 2" and dialer = dialer_default and denv = "still_env Release" and guid = 5 and now = 0]
  obtain r1 r2 q2 where d: "\<And>host s. ho_bind host (local_addr_for (V4 0x01020304 19132)) = None \<and> ho_connect host (V4 0x01020304 19132) = None
      \<and> (\<forall>n. de_send host n = None) \<and> de_recv host (Suc (ds_io s)) = Arrived r1 \<and> de_recv host (ds_io s + 3) = Arrived r2 \<Longrightarrow>
      \<exists>s' conn. dial_with dialer_default host (still_env Release) 5 0 [Polls, Runs_task 0, Polls, Receives (Datagram q2), Runs_task 0, Polls]
          ''1.2.3.4:19132'' s = ((s', Some conn), Ok conn) \<and> c_remote_addr conn = V4 0x01020304 19132 \<and> c_connected conn"
    by (simp, elim exE conjE) (rule that, blast)
  from d [of "lucky_host r1 r2" ?s] show ?thesis
    by (simp, elim exE) (rule exI [of _ r1], rule exI [of _ r2], rule exI [of _ q2], blast)
qed

end
