(* ===== verification/Outgoing.thy ===== *)
theory Outgoing
  imports Retransmission Ack_Sending
begin

text \<open>
  What a connection puts on the wire. \<open>outgoing Q ns\<close> says that every packet it sends, and every packet
  that waits, is one of \<open>Q\<close>, that a number waits for the packet its datagram carried, and that
  everything else it sends is an acknowledgement, of numbers in a given set, or a negative one.
  Every method keeps it, which \<open>carries\<close> expresses as a relation between the connection a method
  finds and the one it leaves.
\<close>

unbundle bit_operations_syntax

section \<open>What acknowledgements hold\<close>

text \<open>What the loop emits: datagrams with its flag, whose numbers are of the list.\<close>

definition reports :: "u8 \<Rightarrow> Uint24 set \<Rightarrow> bytes \<Rightarrow> bool" where
  "reports flag ns d \<longleftrightarrow> d \<noteq> [] \<and> hd d = flag OR BIT_FLAG_DATAGRAM
     \<and> (\<forall>prof ps. ack_read prof [] (tl d) = (ps, Ok ()) \<longrightarrow> set ps \<subseteq> ns)"

lemma reports_mono: "reports flag ns d \<Longrightarrow> ns \<subseteq> ns' \<Longrightarrow> reports flag ns' d"
  unfolding reports_def by blast

lemma write_to_buf_reports:
  assumes "7 \<le> mtu" and "list_all u24_ok packets" and "packets \<noteq> []"
    and "write_to_buf prof packets [flag OR BIT_FLAG_DATAGRAM] mtu = Ok (d, n)"
  shows "reports flag (set packets) d"
proof -
  obtain rs where d: "d = [flag OR BIT_FLAG_DATAGRAM] @ to_be 2 (of_nat (length rs) :: u16) @ enc_records rs"
      "list_all run_ok rs" "run_lists rs = take n (sort packets)" "length rs < 2 ^ 16"
    using write_to_buf_ok [OF assms(1-3), of prof "[flag OR BIT_FLAG_DATAGRAM]"] assms(4) by auto
  moreover have "set (run_lists rs) \<subseteq> set packets"
    using set_take_subset [of n "sort packets"] unfolding d(3) by simp
  ultimately show ?thesis
    unfolding reports_def using ack_read_sound [OF d(2,4)] by auto
qed

lemma emitted_send_ack_loop:
  assumes "7 \<le> effective_mtu conn" and "list_all u24_ok packets"
  shows "\<exists>ds. emitted (fst (send_ack_loop env flag packets buf conn)) = emitted conn @ ds
    \<and> list_all (reports flag (set packets)) ds"
  using assms
proof (induction env flag packets buf conn rule: send_ack_loop.induct)
  case (1 env flag packets buf conn)
  show ?case
  proof (cases "packets = []")
    case True
    then show ?thesis by (subst send_ack_loop.simps) simp
  next
    case False
    show ?thesis
    proof (cases "write_to_buf (env_profile env) packets [flag OR BIT_FLAG_DATAGRAM] (effective_mtu conn)")
      case (Ok bn)
      obtain d n where bn: "bn = (d, n)" by (cases bn)
      let ?c = "fst (chan_send env d conn)"
      have le: "\<not> length packets < n" using write_to_buf_count [OF Ok [unfolded bn] False] by simp
      have d: "reports flag (set packets) d"
        using write_to_buf_reports [OF "1.prems" False Ok [unfolded bn]] .
      have c: "effective_mtu ?c = effective_mtu conn" "emitted ?c = emitted conn @ [d] \<or> emitted ?c = emitted conn"
        by (simp_all add: chan_send_def effective_mtu_def emit_def)
      have rest: "list_all u24_ok (drop n packets)"
        using "1.prems"(2) by (auto simp: list_all_iff dest: in_set_dropD)
      have "send_ack_loop env flag packets buf conn = send_ack_loop env flag (drop n packets) d ?c"
        using False Ok bn le by (subst send_ack_loop.simps) simp
      moreover obtain ds where "emitted (fst (send_ack_loop env flag (drop n packets) d ?c)) = emitted ?c @ ds"
          "list_all (reports flag (set (drop n packets))) ds"
        using "1.IH" [OF False Ok bn [symmetric] le _ rest] "1.prems"(1) c(1) by auto
      moreover from this(2) have "list_all (reports flag (set packets)) ds"
        by (rule list.pred_mono_strong) (rule reports_mono [OF _ set_drop_subset])
      ultimately show ?thesis using c(2) d by (metis append.assoc list.pred_inject(2) append_Cons append_Nil)
    qed (use False in \<open>subst send_ack_loop.simps; simp\<close>)+
  qed
qed

section \<open>What receiving emits\<close>

text \<open>A reception emits requests for missing datagrams only, and enters at most its own number.\<close>

definition requests_only :: "Conn \<Rightarrow> Conn \<Rightarrow> bool" where
  "requests_only conn conn' \<longleftrightarrow> c_mtu conn' = c_mtu conn
     \<and> (dw_inv (st_win (c_state conn)) \<longrightarrow> dw_inv (st_win (c_state conn'))
         \<and> dw_highest (st_win (c_state conn')) = dw_highest (st_win (c_state conn)))
     \<and> st_ack_slice (c_state conn') = st_ack_slice (c_state conn)
     \<and> set (emitted conn) \<subseteq> set (emitted conn')
     \<and> (\<forall>d \<in> set (emitted conn'). d \<in> set (emitted conn) \<or> reports BIT_FLAG_NACK UNIV d)"

lemma requests_only_refl [simp]: "requests_only conn conn"
  by (simp add: requests_only_def)

lemma requests_only_trans: "requests_only a b \<Longrightarrow> requests_only b c \<Longrightarrow> requests_only a c"
  by (auto simp: requests_only_def subset_iff)

lemma requests_only_same:
  "c_mtu conn' = c_mtu conn \<Longrightarrow> st_win (c_state conn') = st_win (c_state conn) \<Longrightarrow> st_ack_slice (c_state conn') = st_ack_slice (c_state conn) \<Longrightarrow>
   emitted conn' = emitted conn \<Longrightarrow> requests_only conn conn'"
  by (simp add: requests_only_def)

lemma missing_loop_ok:
  "list_all u24_ok indices \<Longrightarrow> list_all u24_ok (snd (missing_loop now clk since candidates queue missing indices))"
proof (induction candidates arbitrary: queue missing indices)
  case (Cons i candidates)
  then have "list_all u24_ok (indices @ [u24_new i])" by simp
  with Cons show ?case
    by (cases "queue i"; cases missing)
      (simp_all only: missing_loop.simps option.case if_True if_False if_cancel)
qed simp

lemma window_missing_effects:
  "requests_only conn (fst (window_missing env since conn)) \<and> list_all u24_ok (snd (window_missing env since conn))"
proof -
  obtain queue indices where m: "missing_loop (clock env (c_reads conn))
      (\<lambda>i. clock env (Suc (c_reads conn) + (2 ^ 24 - unat i))) since
      (range_rev (dw_lowest (st_win (c_state conn))) (dw_highest (st_win (c_state conn))))
      (dw_queue (st_win (c_state conn))) False [] = (queue, indices)" by fastforce
  then have "list_all u24_ok indices" using missing_loop_ok [of "[]"] by (metis list.pred_inject(1) snd_conv)
  moreover have "dw_missing (clock env (c_reads conn)) (\<lambda>i. clock env (Suc (c_reads conn) + (2 ^ 24 - unat i))) since
      (st_win (c_state conn)) = (fst (dw_shift ((st_win (c_state conn))\<lparr>dw_queue := queue\<rparr>)), indices)"
    using m by (simp add: dw_missing_def)
  ultimately show ?thesis
    using dw_missing_window(1,2) [OF _ refl, of "st_win (c_state conn)" "clock env (c_reads conn)"
        "\<lambda>i. clock env (Suc (c_reads conn) + (2 ^ 24 - unat i))" since]
    by (auto simp: window_missing_def read_clock_def requests_only_def Let_def)
qed

lemma requests_only_send_nack:
  assumes "7 \<le> effective_mtu conn" and "list_all u24_ok packets"
  shows "requests_only conn (fst (send_nack env packets conn))"
proof -
  let ?c = "send_ack_loop env BIT_FLAG_NACK packets (c_nack_buf conn) conn"
  have "c_state (fst (send_nack env packets conn)) = c_state conn \<and> c_mtu (fst (send_nack env packets conn)) = c_mtu conn"
    using send_ack_loop_frame [of env BIT_FLAG_NACK packets "c_nack_buf conn" conn]
    by (cases ?c; cases "snd ?c") (simp_all add: send_nack_def send_acknowledgement_def)
  moreover obtain ds where ds: "emitted (fst ?c) = emitted conn @ ds" "list_all (reports BIT_FLAG_NACK (set packets)) ds"
    using emitted_send_ack_loop [OF assms] by blast
  moreover have "reports BIT_FLAG_NACK UNIV d" if "d \<in> set ds" for d
    using ds(2) that reports_mono [of _ "set packets" d UNIV] by (auto simp: list_all_iff)
  ultimately show ?thesis by (auto simp: requests_only_def send_nack_log)
qed

context connection_handler
begin

lemma requests_only_dispatch: "requests_only conn (fst (dispatch_packet env h pk conn))"
proof -
  have packet: "c_mtu (fst (receive_packet env h pk conn)) = c_mtu conn
      \<and> st_win (c_state (fst (receive_packet env h pk conn))) = st_win (c_state conn)
      \<and> st_ack_slice (c_state (fst (receive_packet env h pk conn))) = st_ack_slice (c_state conn)" for pk conn
    using handle_packet_frame handle_packets_frame
    by (auto simp: receive_packet_def Let_def and_then_st_def split: prod.splits outcome.splits)
  then have "requests_only conn (fst (receive_packet env h pk conn))" for pk conn
    by (intro requests_only_same) (simp_all add: emitted_receive_packet)
  moreover from this have "requests_only conn (fst (receive_split_packet env h pk conn))"
    unfolding receive_split_packet_def Let_def
    by (auto simp: and_then_st_def requests_only_def packet emitted_receive_packet split: outcome.split)
  ultimately show ?thesis by (simp add: dispatch_packet_def)
qed

lemma receive_datagram_effects:
  assumes "7 \<le> effective_mtu conn"
  obtains "requests_only conn (fst (receive_datagram env h data conn))"
      and "\<And>seq. 3 \<le> length data \<Longrightarrow> load_uint24 data = Ok seq \<Longrightarrow> dw_seen (st_win (c_state conn)) seq"
    | seq now where "load_uint24 data = Ok seq" and "\<not> dw_seen (st_win (c_state conn)) seq"
      and "requests_only (conn\<lparr>c_state := (c_state conn)\<lparr>st_win := fst (dw_add now seq (st_win (c_state conn))),
           st_ack_slice := st_ack_slice (c_state conn) @ [seq]\<rparr>\<rparr>) (fst (receive_datagram env h data conn))"
proof (cases "length data < 3")
  case True
  then show ?thesis by (intro that(1)) (simp_all add: receive_datagram_def)
next
  case False
  then obtain seq where seq: "load_uint24 data = Ok seq" using load_uint24_no_panic [of data] by auto
  obtain win fresh where add: "dw_add (clock env (c_reads conn)) seq (st_win (c_state conn)) = (win, fresh)"
    by (cases "dw_add (clock env (c_reads conn)) seq (st_win (c_state conn))")
  show ?thesis
  proof (cases fresh)
    case False
    have "dw_seen (st_win (c_state conn)) seq"
      using dw_add_result [of "clock env (c_reads conn)" seq "st_win (c_state conn)"] add False by simp
    with False seq add \<open>\<not> length data < 3\<close> show ?thesis
      by (intro that(1)) (auto simp: receive_datagram_def read_clock_def requests_only_def Let_def)
  next
    case True
    let ?a = "conn\<lparr>c_state := (c_state conn)\<lparr>st_win := fst (dw_add (clock env (c_reads conn)) seq (st_win (c_state conn))),
      st_ack_slice := st_ack_slice (c_state conn) @ [seq]\<rparr>\<rparr>"
    have unseen: "\<not> dw_seen (st_win (c_state conn)) seq"
      using dw_add_result [of "clock env (c_reads conn)" seq "st_win (c_state conn)"] add True by simp
    obtain win' shifted where shift: "dw_shift win = (win', shifted)" by (cases "dw_shift win")
    have win': "dw_inv win \<Longrightarrow> dw_inv win' \<and> dw_highest win' = dw_highest win"
      using dw_shift_spec(1,2) [OF _ shift] by blast
    let ?c1 = "conn\<lparr>c_reads := Suc (c_reads conn), c_state := (c_state conn)\<lparr>st_win := win',
      st_ack_slice := st_ack_slice (c_state conn) @ [seq]\<rparr>\<rparr>"
    let ?since = "unat (c_rtt conn) + unat (c_rtt conn) div 2"
    obtain c2 missing where m: "(if shifted = 0 then window_missing env ?since ?c1
        else (?c1, [])) = (c2, missing)"
      by (cases "if shifted = 0 then window_missing env ?since ?c1 else (?c1, [])")
    have "requests_only ?a ?c1" using add win' by (simp add: requests_only_def)
    moreover have "requests_only ?c1 c2 \<and> list_all u24_ok missing"
      using m window_missing_effects [of ?c1 env ?since] by (auto split: if_splits)
    ultimately have c2: "requests_only ?a c2" "list_all u24_ok missing" using requests_only_trans by blast+
    then have "effective_mtu c2 = effective_mtu conn" by (simp add: requests_only_def effective_mtu_def)
    then have "requests_only c2 (fst (if missing = [] then (c2, Ok ()) else send_nack env missing c2))"
      using requests_only_send_nack [OF _ c2(2), of c2 env] assms by simp
    then have n: "requests_only ?a (fst (if missing = [] then (c2, Ok ()) else send_nack env missing c2))"
      using c2(1) requests_only_trans by blast
    have rest: "requests_only ?a (fst (handle_datagram env h data' c))" if "requests_only ?a c" for data' c
      using that
    proof (rule handle_datagram_keeps [where P = "requests_only ?a"])
      show "requests_only ?a (set_pk pk c)" if "requests_only ?a c" for pk c
        using that by (simp add: set_pk_def requests_only_def)
      show "requests_only ?a (fst (dispatch_packet env h pk c))" if "requests_only ?a c" for pk c
        using that requests_only_dispatch by (rule requests_only_trans)
    qed
    have "receive_datagram env h data conn = and_then_st (c2, dw_size (env_profile env) (st_win (c_state c2))) (\<lambda>c size.
        and_then_st (if missing = [] then (c, Ok ()) else send_nack env missing c) (\<lambda>c' _.
          if size > MAX_WINDOW_SIZE \<and> h_limits_enabled h
          then (c', Err (WindowSizeTooBig (u24 (dw_lowest (st_win (c_state c2)))) (u24 (dw_highest (st_win (c_state c2))))))
          else handle_datagram env h (drop 3 data) c'))"
      using \<open>\<not> length data < 3\<close> seq add True shift m
      by (cases "shifted = 0") (auto simp: receive_datagram_def read_clock_def Let_def cong: if_cong)
    moreover have "requests_only ?a (fst \<dots>)"
      by (rule keeps_pure_then [where P = "requests_only ?a"])
        (use c2(1) n rest in \<open>auto intro!: keeps_and_then_st [where P = "requests_only ?a"]\<close>)
    ultimately show ?thesis using that(2) [OF seq unseen] by simp
  qed
qed

end

section \<open>What goes out\<close>

text \<open>Negative acknowledgements, and acknowledgements of numbers in \<open>ns\<close>.\<close>

definition control :: "Uint24 set \<Rightarrow> bytes \<Rightarrow> bool" where
  "control ns d \<longleftrightarrow> reports BIT_FLAG_NACK UNIV d \<or> reports BIT_FLAG_ACK ns d"

lemma control_mono: "control ns d \<Longrightarrow> ns \<subseteq> ns' \<Longrightarrow> control ns' d"
  unfolding control_def using reports_mono by blast

text \<open>A datagram of the packet that its number waits for, if it still waits for one.\<close>

definition carried :: "(Packet \<Rightarrow> bool) \<Rightarrow> Conn \<Rightarrow> bytes \<Rightarrow> bool" where
  "carried Q conn d \<longleftrightarrow> (\<exists>seq p. Q p \<and> u24_ok seq \<and> u24 seq < u24 (st_seq (c_state conn)) \<and> d = build_datagram seq p
     \<and> (\<forall>q. rm_pending (st_retransmission (c_state conn)) (u24 seq) = Some q \<longrightarrow> q = p))"

definition outgoing :: "(Packet \<Rightarrow> bool) \<Rightarrow> Uint24 set \<Rightarrow> Conn \<Rightarrow> bool" where
  "outgoing Q ns conn \<longleftrightarrow> (\<forall>i p. rm_pending (st_retransmission (c_state conn)) i = Some p \<longrightarrow> Q p)
     \<and> (\<forall>d \<in> set (emitted conn). control ns d \<or> carried Q conn d)"

definition carries :: "(Packet \<Rightarrow> bool) \<Rightarrow> Uint24 set \<Rightarrow> Conn \<Rightarrow> Conn \<Rightarrow> bool" where
  "carries Q ns conn conn' \<longleftrightarrow> retains False conn conn' \<and> set (emitted conn) \<subseteq> set (emitted conn')
     \<and> (outbox_typed conn \<and> ahead conn \<and> next_seq conn + grown conn conn' < 2 ^ 24 \<and> outgoing Q ns conn \<longrightarrow> outgoing Q ns conn')"

lemma carries_trans:
  assumes ab: "carries Q ns a b" and bc: "carries Q ns b c"
  shows "carries Q ns a c"
  unfolding carries_def
proof (intro conjI impI)
  show "retains False a c" using ab bc retains_trans by (simp add: carries_def) blast
  show "set (emitted a) \<subseteq> set (emitted c)" using ab bc by (auto simp: carries_def)
  assume start: "outbox_typed a \<and> ahead a \<and> next_seq a + grown a c < 2 ^ 24 \<and> outgoing Q ns a"
  have grown: "grown a c = grown a b + grown b c" using ab bc by (simp add: carries_def retains_def grown_def)
  then have "next_seq a + grown a b < 2 ^ 24" using start by linarith
  with start ab have b: "outgoing Q ns b" "outbox_typed b" "ahead b" "next_seq b \<le> next_seq a + grown a b"
    by (simp_all add: carries_def retains_def)
  then have "next_seq b + grown b c < 2 ^ 24" using start grown by linarith
  with b bc show "outgoing Q ns c" by (simp add: carries_def)
qed

text \<open>Nothing waits that did not, under the same number, and what was emitted is under control.\<close>

lemma carries_fewer:
  assumes "retains False conn conn'" and "st_seq (c_state conn') = st_seq (c_state conn)"
    and "rm_pending (st_retransmission (c_state conn')) \<subseteq>\<^sub>m rm_pending (st_retransmission (c_state conn))"
    and "set (emitted conn) \<subseteq> set (emitted conn')"
    and "\<And>d. d \<in> set (emitted conn') \<Longrightarrow> d \<in> set (emitted conn) \<or> control ns d"
  shows "carries Q ns conn conn'"
proof -
  have less: "rm_pending (st_retransmission (c_state conn)) i = Some p"
    if "rm_pending (st_retransmission (c_state conn')) i = Some p" for i p
    using assms(3) that by (auto simp: map_le_def dom_def)
  then have "carried Q conn' d" if "carried Q conn d" for d
    using that assms(2) unfolding carried_def by metis
  with less assms(1,4,5) show ?thesis unfolding carries_def outgoing_def by metis
qed

lemma carries_frame:
  assumes "outbox conn' = outbox conn" and "length (c_log conn) \<le> length (c_log conn')"
    and "set (emitted conn) \<subseteq> set (emitted conn')"
    and "\<And>d. d \<in> set (emitted conn') \<Longrightarrow> d \<in> set (emitted conn) \<or> control ns d"
  shows "carries Q ns conn conn'"
  using assms by (intro carries_fewer retains_frame) (simp_all add: outbox_def)

lemma carries_refl [simp]: "carries Q ns conn conn"
  by (rule carries_frame) simp_all

lemma carries_same:
  "outbox conn' = outbox conn \<Longrightarrow> c_log conn' = c_log conn \<Longrightarrow> carries Q ns conn conn'"
  by (rule carries_frame) simp_all

text \<open>A packet sent under the next number.\<close>

lemma carries_send:
  assumes "retains False conn conn'" and "st_seq (c_state conn') = snd (u24_inc (st_seq (c_state conn)))"
    and "rm_pending (st_retransmission (c_state conn')) = m(u24 (st_seq (c_state conn)) \<mapsto> pk)"
    and "m \<subseteq>\<^sub>m rm_pending (st_retransmission (c_state conn))"
    and "outbox_typed conn \<Longrightarrow> outgoing Q ns conn \<Longrightarrow> Q pk"
    and "emitted conn' = emitted conn @ [build_datagram (st_seq (c_state conn)) pk]"
    and "length (c_log conn') = Suc (length (c_log conn))"
  shows "carries Q ns conn conn'"
  unfolding carries_def
proof (intro conjI impI)
  let ?seq = "st_seq (c_state conn)"
  assume start: "outbox_typed conn \<and> ahead conn \<and> next_seq conn + grown conn conn' < 2 ^ 24 \<and> outgoing Q ns conn"
  then have ok: "u24_ok ?seq" and pk: "Q pk" using assms(5) by (simp_all add: outbox_typed_def outbox_def)
  have "unat (u24 (snd (u24_inc ?seq))) = unat (u24 ?seq) + 1"
    using start ok assms(7) by (simp add: unat_u24_inc next_seq_def grown_def)
  then have above: "i < u24 (st_seq (c_state conn'))" if "i \<le> u24 ?seq" for i
    using that by (simp add: assms(2) word_le_nat_alt word_less_nat_alt)
  have old: "rm_pending (st_retransmission (c_state conn)) i = Some p"
    if "rm_pending (st_retransmission (c_state conn')) i = Some p" "i \<noteq> u24 ?seq" for i p
    using that assms(4) by (auto simp: assms(3) map_le_def dom_def)
  have "carried Q conn' d" if d: "carried Q conn d" for d
  proof -
    obtain seq p where s: "Q p" "u24_ok seq" "u24 seq < u24 ?seq" "d = build_datagram seq p"
        "\<And>q. rm_pending (st_retransmission (c_state conn)) (u24 seq) = Some q \<Longrightarrow> q = p"
      using d unfolding carried_def by blast
    moreover have "q = p" if "rm_pending (st_retransmission (c_state conn')) (u24 seq) = Some q" for q
      using s(5) old [OF that] s(3) by simp
    ultimately show ?thesis using above [of "u24 seq"] unfolding carried_def by (metis less_imp_le)
  qed
  moreover have "carried Q conn' (build_datagram ?seq pk)"
    using pk ok above [of "u24 ?seq"] assms(3) unfolding carried_def by auto
  moreover have "Q p" if "rm_pending (st_retransmission (c_state conn')) i = Some p" for i p
    using that old [OF that] start pk by (cases "i = u24 ?seq") (auto simp: outgoing_def assms(3))
  ultimately show "outgoing Q ns conn'"
    using start assms(6) unfolding outgoing_def by auto
qed (use assms(1,6) in auto)

section \<open>The methods\<close>

lemma carries_send_datagram:
  assumes "\<And>es. send_ok env es" and "outbox_typed conn \<Longrightarrow> outgoing Q ns conn \<Longrightarrow> Q pk"
  shows "carries Q ns conn (fst (send_datagram env pk conn))"
proof (rule carries_send [where m = "rm_pending (st_retransmission (c_state conn))" and pk = pk])
  show "retains False conn (fst (send_datagram env pk conn))"
    using retains_send_datagram [OF assms(1)] by blast
qed (use assms in \<open>simp_all add: send_datagram_def read_clock_def chan_send_def emit_def u24_inc_def rm_pending_add Let_def\<close>)

lemma carries_write_fragments:
  assumes "\<And>es. send_ok env es"
  shows "(\<And>j message. j < length cs \<Longrightarrow> u24_ok message \<Longrightarrow> Q (fragment_packet order sid fragments (i + j) message (cs ! j))) \<Longrightarrow>
    carries Q ns conn (fst (write_fragments env order sid fragments i cs n conn))"
proof (induction cs arbitrary: i n conn)
  case (Cons c rest)
  let ?message = "st_message_index (c_state conn)"
  let ?c = "conn\<lparr>c_state := (c_state conn)\<lparr>st_message_index := snd (u24_inc ?message)\<rparr>\<rparr>"
  let ?pk = "fragment_packet order sid fragments i ?message c"
  have inc: "u24_inc ?message = (?message, snd (u24_inc ?message))" by (simp add: u24_inc_def)
  obtain c' where send: "send_datagram env ?pk ?c = (c', Ok ())"
    using retains_send_datagram [OF assms, of False ?c ?pk] prod.collapse by metis
  have "carries Q ns conn ?c"
    by (intro carries_fewer retains_update) (simp_all add: outbox_typed_def outbox_def)
  moreover have "carries Q ns conn c'"
  proof (rule carries_send [where m = "rm_pending (st_retransmission (c_state conn))" and pk = ?pk])
    show "retains False conn c'"
      using retains_trans [OF retains_update retains_send_datagram [OF assms, of False ?c ?pk, THEN conjunct1]] send
      by (simp add: outbox_typed_def outbox_def)
    show "Q ?pk" if "outbox_typed conn"
      using that Cons.prems [of 0 ?message] by (simp add: outbox_typed_def outbox_def)
  qed (use send assms in \<open>auto simp: send_datagram_def read_clock_def chan_send_def emit_def u24_inc_def rm_pending_add Let_def\<close>)
  moreover have "carries Q ns c' (fst (write_fragments env order sid fragments (Suc i) rest (n + length c) c'))"
    by (rule Cons.IH) (use Cons.prems [of "Suc j" for j] in simp)
  ultimately show ?case
    by (subst write_fragments.simps, subst inc)
      (simp only: Let_def prod.case send and_then_st_simps, blast intro: carries_trans)
qed simp

lemma carries_resend_all: "carries Q ns conn (resend_all env ps conn)"
proof (induction ps arbitrary: conn)
  case (Cons p rest)
  show ?case
  proof (cases "rm_pending (st_retransmission (c_state conn)) (u24 p)")
    case None
    have "carries Q ns conn (conn\<lparr>c_reads := Suc (c_reads conn)\<rparr>)" by (rule carries_same) simp_all
    from carries_trans [OF this Cons.IH] None show ?thesis
      by (simp add: resend_all_step del: resend_all.simps)
  next
    case (Some pk)
    note f = resent_fields [OF Some, of env]
    have "carries Q ns conn (resent env p pk conn)"
    proof (rule carries_send [OF retains_resent [OF Some] f(2,3)])
      show "(rm_pending (st_retransmission (c_state conn)))(u24 p := None)
          \<subseteq>\<^sub>m rm_pending (st_retransmission (c_state conn))" by (simp add: map_le_def)
      show "Q pk" if "outgoing Q ns conn" using that Some by (simp add: outgoing_def)
    qed (simp_all add: f(1))
    from carries_trans [OF this Cons.IH] Some show ?thesis
      by (simp add: resend_all_step del: resend_all.simps)
  qed
qed simp

lemma carries_acknowledge_all: "carries Q ns conn (acknowledge_all env ps conn)"
proof (rule carries_fewer [OF retains_acknowledge_all])
  note f = acknowledge_all_fields [of env ps conn]
  show "rm_pending (st_retransmission (c_state (acknowledge_all env ps conn)))
      \<subseteq>\<^sub>m rm_pending (st_retransmission (c_state conn))"
    using f by (auto simp: map_le_def dom_def)
qed (use acknowledge_all_fields [of env ps conn] in auto)

lemma carries_check_resend: "carries Q ns conn (check_resend env now conn)"
proof -
  obtain m rtt where rtt: "rm_rtt now (st_retransmission (c_state conn)) = (m, rtt)"
    by (cases "rm_rtt now (st_retransmission (c_state conn))")
  let ?c = "conn\<lparr>c_rtt := of_nat rtt, c_state := (c_state conn)\<lparr>st_retransmission := m\<rparr>\<rparr>"
  have m: "unacknowledged m = unacknowledged (st_retransmission (c_state conn))"
      "rm_inv (st_retransmission (c_state conn)) \<Longrightarrow> rm_inv m"
    using rm_rtt_pending [of now "st_retransmission (c_state conn)"] rm_inv_rtt [of "st_retransmission (c_state conn)" now] rtt
    by simp_all
  have "rm_pending m = rm_pending (st_retransmission (c_state conn))" by (simp add: rm_pending_def m fun_eq_iff)
  then have "carries Q ns conn ?c"
    by (intro carries_fewer retains_update) (simp_all add: m outbox_typed_def outbox_def)
  from carries_trans [OF this carries_resend_all] show ?thesis by (simp add: check_resend_def rtt Let_def)
qed

lemma flush_acks_frame:
  "(c_state (fst (flush_acks env conn)))\<lparr>st_ack_slice := []\<rparr> = (c_state conn)\<lparr>st_ack_slice := []\<rparr>
   \<and> st_ack_slice (c_state (fst (flush_acks env conn))) = []
   \<and> c_mtu (fst (flush_acks env conn)) = c_mtu conn"
proof -
  have ignore: "fst (ignore_error r) = fst r" for r :: "Conn \<times> unit outcome"
    by (cases r; cases "snd r") auto
  have "c_state (fst (send_ack env packets c)) = c_state c \<and> c_mtu (fst (send_ack env packets c)) = c_mtu c" for packets c
    using send_ack_loop_frame [of env BIT_FLAG_ACK packets "c_ack_buf c" c]
    by (cases "send_ack_loop env BIT_FLAG_ACK packets (c_ack_buf c) c";
        cases "snd (send_ack_loop env BIT_FLAG_ACK packets (c_ack_buf c) c)")
      (simp_all add: send_ack_def send_acknowledgement_def)
  then show ?thesis by (simp add: flush_acks_def ignore Let_def)
qed

lemma flush_acks_emitted:
  assumes "7 \<le> effective_mtu conn" and "list_all u24_ok (st_ack_slice (c_state conn))"
  shows "\<exists>ds. emitted (fst (flush_acks env conn)) = emitted conn @ ds
    \<and> list_all (reports BIT_FLAG_ACK (set (st_ack_slice (c_state conn)))) ds"
proof -
  let ?c = "conn\<lparr>c_state := (c_state conn)\<lparr>st_ack_slice := []\<rparr>\<rparr>"
  have ignore: "fst (ignore_error r) = fst r" for r :: "Conn \<times> unit outcome"
    by (cases r; cases "snd r") auto
  have "effective_mtu ?c = effective_mtu conn" by (simp add: effective_mtu_def)
  with emitted_send_ack_loop [of ?c "st_ack_slice (c_state conn)" env BIT_FLAG_ACK "c_ack_buf ?c"] assms show ?thesis
    by (simp add: flush_acks_def ignore send_ack_log Let_def)
qed

lemma carries_flush_acks:
  assumes "7 \<le> effective_mtu conn" and "list_all u24_ok (st_ack_slice (c_state conn))"
    and "set (st_ack_slice (c_state conn)) \<subseteq> ns"
  shows "carries Q ns conn (fst (flush_acks env conn))"
proof (rule carries_frame)
  have "st_seq ((c_state c)\<lparr>st_ack_slice := []\<rparr>) = st_seq (c_state c)"
      "st_order_index ((c_state c)\<lparr>st_ack_slice := []\<rparr>) = st_order_index (c_state c)"
      "st_message_index ((c_state c)\<lparr>st_ack_slice := []\<rparr>) = st_message_index (c_state c)"
      "st_retransmission ((c_state c)\<lparr>st_ack_slice := []\<rparr>) = st_retransmission (c_state c)" for c
    by simp_all
  then show "outbox (fst (flush_acks env conn)) = outbox conn"
    using flush_acks_frame [of env conn] unfolding outbox_def by metis
  show "length (c_log conn) \<le> length (c_log (fst (flush_acks env conn)))"
    by (rule evolves_log [OF evolves_flush_acks [OF evolves_refl]])
  obtain ds where ds: "emitted (fst (flush_acks env conn)) = emitted conn @ ds"
      "list_all (reports BIT_FLAG_ACK (set (st_ack_slice (c_state conn)))) ds"
    using flush_acks_emitted [OF assms(1,2)] by blast
  show "d \<in> set (emitted conn) \<or> control ns d" if "d \<in> set (emitted (fst (flush_acks env conn)))" for d
    using ds that reports_mono [OF _ assms(3)] unfolding control_def by (auto simp: list_all_iff)
  show "set (emitted conn) \<subseteq> set (emitted (fst (flush_acks env conn)))" by (simp add: ds(1))
qed

lemma carries_conn_write:
  assumes "\<And>es. send_ok env es"
    and "\<And>fragments j message. split (env_profile env) data (effective_mtu conn) = Ok fragments \<Longrightarrow> j < length fragments \<Longrightarrow>
      u24_ok message \<Longrightarrow> Q (fragment_packet (st_order_index (c_state conn)) (ucast (st_split_id (c_state conn)))
        (length fragments) j message (fragments ! j))"
  shows "carries Q ns conn (fst (conn_write env data conn))"
proof (cases "split (env_profile env) data (effective_mtu conn)")
  case (Ok fragments)
  let ?st = "(c_state conn)\<lparr>st_order_index := snd (u24_inc (st_order_index (c_state conn)))\<rparr>"
  have "carries Q ns conn (conn\<lparr>c_state := ?st\<rparr>)" "carries Q ns conn (conn\<lparr>c_state := ?st\<lparr>st_split_id := s\<rparr>\<rparr>)" for s
    by (intro carries_fewer retains_update; simp add: outbox_typed_def outbox_def)+
  note frags = this [THEN carries_trans, OF carries_write_fragments [OF assms(1)]]
  show ?thesis
    using Ok assms(2) [OF Ok] frags by (simp add: conn_write_def write_locked_def u24_inc_def Let_def)
qed (simp_all add: conn_write_def write_locked_def)

lemma carries_run_task:
  assumes "\<And>message. k < length (c_tasks conn) \<Longrightarrow> u24_ok message \<Longrightarrow> Q (packet_new\<lparr>content := c_tasks conn ! k,
      order_index := st_order_index (c_state conn), message_index := message\<rparr>)"
  shows "carries Q ns conn (run_task env k conn)"
proof (cases "k < length (c_tasks conn)")
  case True
  show ?thesis
    by (rule carries_send [OF retains_run_task, where m = "rm_pending (st_retransmission (c_state conn))"
          and pk = "packet_new\<lparr>content := c_tasks conn ! k, order_index := st_order_index (c_state conn),
            message_index := st_message_index (c_state conn)\<rparr>"])
      (use True assms in \<open>simp_all add: run_task_def send_message_task_def read_clock_def chan_try_send_def emit_def
        u24_inc_def rm_pending_add outbox_typed_def outbox_def Let_def\<close>)
qed (simp add: run_task_def)

context life_handler
begin

lemma carries_receive:
  assumes "7 \<le> effective_mtu conn"
  shows "carries Q ns conn (fst (conn_receive env h data conn))"
proof (cases data)
  case Nil
  then show ?thesis by (simp add: conn_receive_def read_clock_def carries_same)
next
  case (Cons b rest)
  let ?c = "conn\<lparr>c_reads := Suc (c_reads conn), c_last_activity := clock env (c_reads conn)\<rparr>"
  have c: "carries Q ns conn ?c" by (rule carries_same) simp_all
  have mtu: "7 \<le> effective_mtu ?c" using assms by (simp add: effective_mtu_def)
  have "carries Q ns ?c (fst (receive_datagram env h rest ?c))"
  proof (rule carries_frame)
    show "outbox (fst (receive_datagram env h rest ?c)) = outbox ?c" by (rule outbox_receive_datagram)
    show "length (c_log ?c) \<le> length (c_log (fst (receive_datagram env h rest ?c)))"
      using evolves_log [OF evolves_receive_datagram [OF evolves_refl]] .
    have "set (emitted ?c) \<subseteq> set (emitted (fst (receive_datagram env h rest ?c)))
        \<and> (\<forall>d \<in> set (emitted (fst (receive_datagram env h rest ?c))). d \<in> set (emitted ?c) \<or> reports BIT_FLAG_NACK UNIV d)"
      by (rule receive_datagram_effects [OF mtu, of env rest]) (simp_all add: requests_only_def)
    then show "set (emitted ?c) \<subseteq> set (emitted (fst (receive_datagram env h rest ?c)))"
      and "d \<in> set (emitted (fst (receive_datagram env h rest ?c))) \<Longrightarrow> d \<in> set (emitted ?c) \<or> control ns d" for d
      unfolding control_def by blast+
  qed
  with c have datagram: "carries Q ns conn (fst (receive_datagram env h rest ?c))" by (rule carries_trans)
  have ack: "carries Q ns conn (fst (handle_ack env rest ?c))"
  proof (cases "ack_read (env_profile env) [] rest")
    case (Pair packets r)
    then show ?thesis using c carries_trans [OF c carries_acknowledge_all] by (cases r) (simp_all add: handle_ack_def split: unit.split)
  qed
  have nack: "carries Q ns conn (fst (handle_nack env rest ?c))"
  proof (cases "ack_read (env_profile env) [] rest")
    case (Pair packets r)
    then show ?thesis using c carries_trans [OF c carries_resend_all] by (cases r) (simp_all add: handle_nack_def split: unit.split)
  qed
  show ?thesis
    using datagram ack nack c by (simp add: Cons conn_receive_def read_clock_def Let_def)
qed

lemma carries_close_immediately: "carries Q ns conn (close_immediately (h_close h) conn)"
proof (rule carries_frame [OF outbox_state [OF splits_close_immediately]])
  show "length (c_log conn) \<le> length (c_log (close_immediately (h_close h) conn))"
    by (rule evolves_log [OF close_evolves [OF evolves_refl]])
qed (use internal_close_immediately [of "h_close h" conn, OF close_internal] in \<open>simp_all add: internal_def\<close>)

lemma carries_tick:
  assumes "7 \<le> effective_mtu conn" and "list_all u24_ok (st_ack_slice (c_state conn))"
    and "set (st_ack_slice (c_state conn)) \<subseteq> ns"
  shows "carries Q ns conn (fst (tick env (h_close h) tick_count conn))"
proof -
  have same: "carries Q ns conn c \<Longrightarrow> outbox c' = outbox c \<Longrightarrow> c_log c' = c_log c \<Longrightarrow> carries Q ns conn c'" for c c'
    using carries_trans [OF _ carries_same] .
  have clock: "carries Q ns conn c \<Longrightarrow> carries Q ns conn (fst (read_clock env c))" for c
    by (erule same) (simp_all add: read_clock_def)
  have wall: "carries Q ns conn c \<Longrightarrow> carries Q ns conn (fst (read_wall env c))"
    "carries Q ns conn c \<Longrightarrow> carries Q ns conn (fst (timestamp env c))" for c
    by (erule same; simp add: read_wall_def timestamp_def)+
  have message: "carries Q ns conn c \<Longrightarrow> carries Q ns conn (fst (send_message data c))" for data c
    by (erule same) (simp_all add: send_message_def)
  have closing: "carries Q ns conn c \<Longrightarrow> carries Q ns conn (conn_close env c)" for c
    by (erule same) (simp_all add: conn_close_def read_wall_def outbox_def)
  have resend: "carries Q ns conn c \<Longrightarrow> carries Q ns conn (check_resend env now c)" for now c
    using carries_trans [OF _ carries_check_resend] .
  have close: "carries Q ns conn c \<Longrightarrow> carries Q ns conn (close_immediately (h_close h) c)" for c
    using carries_trans [OF _ carries_close_immediately] .
  show ?thesis
    unfolding tick_def Let_def
    by (intro keeps_ping [where P = "carries Q ns conn"] keeps_and_then_st [where P = "carries Q ns conn"]
        keeps_case_pair [where P = "carries Q ns conn"] keeps_case_pair_conn [where P = "carries Q ns conn"]
        keeps_if [where P = "carries Q ns conn"] keeps_if_conn [where P = "carries Q ns conn"]
        keeps_return [where P = "carries Q ns conn"] clock wall message closing resend close
        carries_flush_acks [OF assms])
qed

end

section \<open>What is written waits\<close>

lemma pending_awaiting:
  "rm_pending (st_retransmission (c_state conn)) i = Some p \<Longrightarrow> p \<in># awaiting conn"
  by (force simp: rm_pending_def awaiting_def packets_of_def dest!: map_of_SomeD)

lemma awaiting_pending:
  assumes "outbox_typed conn" and "p \<in># awaiting conn"
  obtains i where "rm_pending (st_retransmission (c_state conn)) i = Some p"
proof -
  obtain i rec where r: "(i, rec) \<in> set (unacknowledged (st_retransmission (c_state conn)))" "rr_packet rec = p"
    using assms(2) by (auto simp: awaiting_def packets_of_def)
  have "distinct (map fst (unacknowledged (st_retransmission (c_state conn))))"
    using assms(1) by (simp add: outbox_typed_def outbox_def rm_inv_def)
  with r have "rm_pending (st_retransmission (c_state conn)) i = Some p" by (simp add: rm_pending_def)
  then show ?thesis by (rule that)
qed

lemma grown_trans:
  "retains k a b \<Longrightarrow> retains k' b c \<Longrightarrow> grown a c = grown a b + grown b c"
  by (simp add: retains_def grown_def)

lemma retains_room:
  assumes "retains True a b" and "retains True b c" and "outbox_typed a" and "ahead a" and "next_seq a + grown a c < 2 ^ 24"
  shows "outbox_typed b" and "ahead b" and "next_seq b + grown b c < 2 ^ 24" and "awaiting b \<subseteq># awaiting c"
proof -
  note g = grown_trans [OF assms(1,2)]
  then show b: "outbox_typed b" "ahead b" "next_seq b + grown b c < 2 ^ 24"
    using assms by (auto simp: retains_def)
  then show "awaiting b \<subseteq># awaiting c" using assms(2) by (simp add: retains_def)
qed

lemma write_fragments_await:
  assumes ok: "\<And>es. send_ok env es"
  shows "outbox_typed conn \<Longrightarrow> ahead conn \<Longrightarrow>
    next_seq conn + grown conn (fst (write_fragments env order sid fragments i cs n conn)) < 2 ^ 24 \<Longrightarrow> j < length cs \<Longrightarrow>
    \<exists>message. u24_ok message \<and> fragment_packet order sid fragments (i + j) message (cs ! j)
      \<in># awaiting (fst (write_fragments env order sid fragments i cs n conn))"
proof (induction cs arbitrary: i n conn j)
  case (Cons c rest)
  let ?message = "st_message_index (c_state conn)"
  let ?c = "conn\<lparr>c_state := (c_state conn)\<lparr>st_message_index := snd (u24_inc ?message)\<rparr>\<rparr>"
  let ?pk = "fragment_packet order sid fragments i ?message c"
  have inc: "u24_inc ?message = (?message, snd (u24_inc ?message))" by (simp add: u24_inc_def)
  obtain c' where send: "send_datagram env ?pk ?c = (c', Ok ())"
    using retains_send_datagram [OF ok, of True ?c ?pk] prod.collapse by metis
  let ?finish = "fst (write_fragments env order sid fragments (Suc i) rest (n + length c) c')"
  have step: "fst (write_fragments env order sid fragments i (c # rest) n conn) = ?finish"
    by (subst write_fragments.simps, subst inc) (simp only: Let_def prod.case send and_then_st_simps)
  have first: "retains True conn c'"
    using retains_trans [OF retains_update retains_send_datagram [OF ok, of True ?c ?pk, THEN conjunct1]] send
    by (simp add: outbox_typed_def outbox_def)
  note room = retains_room [OF first retains_write_fragments [OF ok] Cons.prems(1,2) Cons.prems(3) [unfolded step]]
  show ?case
  proof (cases j)
    case 0
    have "rm_pending (st_retransmission (c_state c')) (u24 (st_seq (c_state conn))) = Some ?pk"
      using send ok by (auto simp: send_datagram_def read_clock_def chan_send_def emit_def rm_pending_add u24_inc_def Let_def)
    then have "?pk \<in># awaiting c'" by (rule pending_awaiting)
    then have "?pk \<in># awaiting ?finish" using room(4) by (rule mset_subset_eqD [rotated])
    moreover have "u24_ok ?message" using Cons.prems(1) by (simp add: outbox_typed_def outbox_def)
    ultimately show ?thesis using 0 unfolding step by auto
  next
    case (Suc k)
    with Cons.IH [OF room(1-3), of k] Cons.prems(4) show ?thesis unfolding step by simp
  qed
qed simp

end
