(* ===== verification/Dialogue.thy ===== *)
theory Dialogue
  imports Outgoing
begin

text \<open>
  What the two sides of a connection say to each other: the messages of their users, pings and
  pongs, and the login. A side takes everything the other says, and answers only with what it may
  say itself. The contract is the locale \<open>dialogue\<close>, which the listener's and the dialer's handler
  meet against each other.
\<close>

section \<open>Pings and pongs\<close>

text \<open>
  The time stamps a side makes from its \<open>n\<close>-th clock reading on do not go back. A pong is taken
  when the time in it is not later than every stamp its receiver can still make.
\<close>

definition stamp :: "env \<Rightarrow> nat \<Rightarrow> i64" where
  "stamp env n = of_nat (wall env n div 1000000)"

definition steady :: "env \<Rightarrow> bool" where
  "steady env \<longleftrightarrow> (\<forall>n k. n \<le> k \<longrightarrow> sint (stamp env n) \<le> sint (stamp env k))"

definition past :: "env \<Rightarrow> nat \<Rightarrow> i64 \<Rightarrow> bool" where
  "past env n t \<longleftrightarrow> (\<forall>k \<ge> n. sint t \<le> sint (stamp env k))"

lemma past_mono: "past env n t \<Longrightarrow> n \<le> k \<Longrightarrow> past env k t"
  by (auto simp: past_def)

lemma past_stamp: "steady env \<Longrightarrow> past env n (stamp env n)"
  by (simp add: past_def steady_def)

lemma timestamp_stamp: "timestamp env conn = (conn\<lparr>c_reads := Suc (c_reads conn)\<rparr>, stamp env (c_reads conn))"
  by (simp add: timestamp_def read_wall_def stamp_def)

section \<open>What is said\<close>

text \<open>
  A message of one side, as of its own \<open>n\<close>-th and the peer's \<open>n'\<close>-th reading: the times in pings are
  past for the side that sends them, the times in pongs for the one that gets them back.
\<close>

definition says_ping :: "env \<Rightarrow> nat \<Rightarrow> bytes \<Rightarrow> bool" where
  "says_ping e n m \<longleftrightarrow> (\<exists>t. connected_ping_write (connected_ping_new t) = Ok m \<and> past e n t)"

definition says_pong :: "env \<Rightarrow> nat \<Rightarrow> bytes \<Rightarrow> bool" where
  "says_pong e' n' m \<longleftrightarrow> (\<exists>t u. connected_pong_write (connected_pong_new t u) = Ok m \<and> past e' n' t)"

definition listener_says :: "env \<Rightarrow> nat \<Rightarrow> env \<Rightarrow> nat \<Rightarrow> bytes \<Rightarrow> bool" where
  "listener_says e n e' n' m \<longleftrightarrow> user_message m \<or> says_ping e n m \<or> says_pong e' n' m
     \<or> (\<exists>addr t u. accepted_write (accepted_new addr t u) = Ok m)"

definition dialer_says :: "env \<Rightarrow> nat \<Rightarrow> env \<Rightarrow> nat \<Rightarrow> bytes \<Rightarrow> bool" where
  "dialer_says e n e' n' m \<longleftrightarrow> user_message m \<or> says_ping e n m \<or> says_pong e' n' m
     \<or> (\<exists>guid t. connection_request_write (connection_request_new guid t) = Ok m)
     \<or> (\<exists>addr t u. incoming_write (incoming_new addr t u) = Ok m)"

text \<open>A message that fits one datagram and is not for the user.\<close>

definition brief :: "bytes \<Rightarrow> bool" where
  "brief m \<longleftrightarrow> m \<noteq> [] \<and> hd m \<in> reserved_ids \<and> length m < 300"

lemma brief_ping: "says_ping e n m \<Longrightarrow> brief m"
  by (auto simp: says_ping_def connected_ping_write_def brief_def reserved_ids_def)

lemma brief_pong: "says_pong e n m \<Longrightarrow> brief m"
  by (auto simp: says_pong_def connected_pong_write_def brief_def reserved_ids_def)

lemma brief_request: "connection_request_write m = Ok data \<Longrightarrow> brief data"
  by (auto simp: connection_request_write_def brief_def reserved_ids_def)

lemma brief_accepted: "accepted_write (accepted_new addr t u) = Ok data \<Longrightarrow> brief data"
  using sizeof_addr_bounds [of addr]
  by (auto simp: accepted_write_body accepted_body_def accepted_new_def default_system_addresses_def addrs_bytes_def
      length_concat sum_list_replicate brief_def reserved_ids_def)

lemma brief_incoming: "incoming_write (incoming_new addr t u) = Ok data \<Longrightarrow> brief data"
  using sizeof_addr_bounds [of addr]
  by (auto simp: incoming_write_body incoming_body_def incoming_new_def default_system_addresses_def addrs_bytes_def
      length_concat sum_list_replicate brief_def reserved_ids_def)

lemmas brief_messages = brief_ping brief_pong brief_request brief_accepted brief_incoming

section \<open>The contract\<close>

locale dialogue = life_handler h listed for h listed +
  fixes says heard :: "env \<Rightarrow> nat \<Rightarrow> env \<Rightarrow> nat \<Rightarrow> bytes \<Rightarrow> bool"
  assumes says_mono: "says e n e' n' m \<Longrightarrow> n \<le> k \<Longrightarrow> n' \<le> k' \<Longrightarrow> says e k e' k' m"
    and says_user: "user_message m \<Longrightarrow> says e n e' n' m"
    and says_pings: "says_ping e n m \<Longrightarrow> says e n e' n' m"
    and says_brief: "says e n e' n' m \<Longrightarrow> user_message m \<or> brief m"
    and answers: "heard e' n' e n m \<Longrightarrow> takes (\<lambda>x. says e n e' n' x \<and> brief x) e h n m"
begin

lemma says_sendable: "says e n e' n' m \<Longrightarrow> sendable m"
  using says_brief [of e n e' n' m] by (auto simp: brief_def sendable_def user_message_def)

end

section \<open>The two handlers\<close>

lemma says_parts_mono:
  "says_ping e n m \<Longrightarrow> n \<le> k \<Longrightarrow> says_ping e k m" "says_pong e n m \<Longrightarrow> n \<le> k \<Longrightarrow> says_pong e k m"
  unfolding says_ping_def says_pong_def using past_mono by blast+

lemma listener_says_mono: "listener_says e n e' n' m \<Longrightarrow> n \<le> k \<Longrightarrow> n' \<le> k' \<Longrightarrow> listener_says e k e' k' m"
  unfolding listener_says_def using says_parts_mono by blast

lemma dialer_says_mono: "dialer_says e n e' n' m \<Longrightarrow> n \<le> k \<Longrightarrow> n' \<le> k' \<Longrightarrow> dialer_says e k e' k' m"
  unfolding dialer_says_def using says_parts_mono by blast

text \<open>A message that a handler handles, spawning some answers.\<close>

lemma takes_handled:
  assumes "brief m"
    and "\<And>conn. n \<le> c_reads conn \<Longrightarrow> \<exists>conn' new. h_handle h env m conn = (conn', Ok True) \<and> c_reads conn \<le> c_reads conn'
      \<and> user_packets (c_log conn') = user_packets (c_log conn)
      \<and> c_tasks conn' = c_tasks conn @ new \<and> list_all T new"
  shows "takes T env h n m"
  unfolding takes_def
proof (intro allI impI, elim conjE)
  fix conn :: Conn
  assume n: "n \<le> c_reads conn" and "c_closing conn = 0"
  moreover obtain conn' new where "h_handle h env m conn = (conn', Ok True)" "c_reads conn \<le> c_reads conn'"
      "user_packets (c_log conn') = user_packets (c_log conn)" "c_tasks conn' = c_tasks conn @ new" "list_all T new"
    using assms(2) [OF n] by blast
  ultimately show "\<exists>conn'. handle_packet env h m conn = (conn', Ok ()) \<and> c_reads conn \<le> c_reads conn'
      \<and> user_packets (c_log conn') = user_packets (c_log conn) @ for_user [m]
      \<and> (list_all T (c_tasks conn) \<longrightarrow> list_all T (c_tasks conn'))"
    using assms(1) by (simp add: handle_packet_def brief_def for_user_def)
qed

text \<open>Pings are answered with pongs, pongs with nothing.\<close>

lemma handle_ping:
  assumes "connected_ping_write (connected_ping_new t) = Ok (b # rest)"
  shows "b = CONNECTED_PING"
    and "handled (handle_connected_ping env rest conn) =
      (conn\<lparr>c_reads := Suc (c_reads conn),
         c_tasks := c_tasks conn @ [CONNECTED_PONG # to_be 8 t @ to_be 8 (stamp env (c_reads conn))]\<rparr>, Ok True)"
  using assms connected_ping.dec_enc [of "connected_ping_new t"]
  by (auto simp: handle_connected_ping_def handled_def timestamp_stamp connected_pong_write_def connected_pong_new_def
      connected_ping_new_def send_message_def Let_def)

lemma handle_pong:
  assumes "connected_pong_write (connected_pong_new t u) = Ok (b # rest)" and "past env n t" and "n \<le> c_reads conn"
  shows "b = CONNECTED_PONG"
    and "handled (handle_connected_pong env rest conn) = (conn\<lparr>c_reads := Suc (c_reads conn)\<rparr>, Ok True)"
  using assms connected_pong.dec_enc [of "connected_pong_new t u"]
  by (auto simp: handle_connected_pong_def handled_def timestamp_stamp connected_pong_new_def past_def Let_def not_less)

lemma pong_said: "past e' n' t \<Longrightarrow> says_pong e' n' (CONNECTED_PONG # to_be 8 t @ to_be 8 (u :: i64))"
  unfolding says_pong_def by (rule exI [of _ t], rule exI [of _ u]) (simp add: connected_pong_write_def connected_pong_new_def)

text \<open>What the two handlers have in common.\<close>

lemma answers_pings:
  assumes "\<And>rest conn. h_handle h env (CONNECTED_PING # rest) conn = handled (handle_connected_ping env rest conn)"
    and "\<And>rest conn. h_handle h env (CONNECTED_PONG # rest) conn = handled (handle_connected_pong env rest conn)"
    and "\<And>x. says_pong e' n' x \<Longrightarrow> T x"
  shows "says_ping e' n' m \<Longrightarrow> takes T env h n m" and "says_pong env n m \<Longrightarrow> takes T env h n m"
proof -
  assume m: "says_ping e' n' m"
  then obtain t b rest where t: "connected_ping_write (connected_ping_new t) = Ok (b # rest)" "past e' n' t" "m = b # rest"
    by (auto simp: says_ping_def connected_ping_write_def)
  show "takes T env h n m"
  proof (rule takes_handled [OF brief_ping [OF m]])
    fix conn :: Conn
    show "\<exists>conn' new. h_handle h env m conn = (conn', Ok True) \<and> c_reads conn \<le> c_reads conn'
        \<and> user_packets (c_log conn') = user_packets (c_log conn) \<and> c_tasks conn' = c_tasks conn @ new \<and> list_all T new"
      using handle_ping(1) [OF t(1)] handle_ping(2) [OF t(1), where env = env and conn = conn] assms(1) assms(3) [OF pong_said [OF t(2)]] t(3) by auto
  qed
next
  assume m: "says_pong env n m"
  then obtain t u b rest where t: "connected_pong_write (connected_pong_new t u) = Ok (b # rest)" "past env n t" "m = b # rest"
    by (auto simp: says_pong_def connected_pong_write_def)
  show "takes T env h n m"
  proof (rule takes_handled [OF brief_pong [OF m]])
    fix conn :: Conn
    assume "n \<le> c_reads conn"
    then show "\<exists>conn' new. h_handle h env m conn = (conn', Ok True) \<and> c_reads conn \<le> c_reads conn'
        \<and> user_packets (c_log conn') = user_packets (c_log conn) \<and> c_tasks conn' = c_tasks conn @ new \<and> list_all T new"
      using handle_pong(1) [OF t(1,2)] handle_pong(2) [OF t(1,2), where conn = conn] assms(2) t(3) by auto
  qed
qed

lemma listener_answers:
  assumes "dialer_says e' n' e n m"
  shows "takes (\<lambda>x. listener_says e n e' n' x \<and> brief x) e listener_handler n m"
proof -
  let ?T = "\<lambda>x. listener_says e n e' n' x \<and> brief x"
  have handles: "h_handle listener_handler e (CONNECTED_PING # rest) conn = handled (handle_connected_ping e rest conn)"
    "h_handle listener_handler e (CONNECTED_PONG # rest) conn = handled (handle_connected_pong e rest conn)"
    "h_handle listener_handler e (CONNECTION_REQUEST # rest) conn = handled (handle_connection_request e rest conn)"
    "h_handle listener_handler e (NEW_INCOMING_CONNECTION # rest) conn = handled (handle_new_incoming_connection conn)"
    for rest conn by (simp_all add: listener_handler_def listener_handle_def id_defs)
  have "takes ?T e listener_handler n m" if m: "connection_request_write (connection_request_new guid t) = Ok m" for guid t
  proof (rule takes_handled [OF brief_request [OF m]])
    fix conn :: Conn
    obtain body where body: "m = CONNECTION_REQUEST # body" "connection_request_read body = Ok (connection_request_new guid t)"
      using connection_request.dec_enc [of "connection_request_new guid t"] m by auto
    let ?u = "stamp e (c_reads conn)"
    obtain response where r: "accepted_write (accepted_new (c_remote_addr conn) t ?u) = Ok response"
      using accepted_write_body by blast
    then have "?T response" using brief_accepted unfolding listener_says_def by blast
    with r body show "\<exists>conn' new. h_handle listener_handler e m conn = (conn', Ok True) \<and> c_reads conn \<le> c_reads conn'
        \<and> user_packets (c_log conn') = user_packets (c_log conn) \<and> c_tasks conn' = c_tasks conn @ new \<and> list_all ?T new"
      by (simp add: handles handle_connection_request_def handled_def timestamp_stamp connection_request_new_def
          send_message_def Let_def)
  qed
  moreover have "takes ?T e listener_handler n m" if m: "incoming_write (incoming_new addr t u) = Ok m" for addr t u
  proof (rule takes_handled [OF brief_incoming [OF m]])
    fix conn :: Conn
    show "\<exists>conn' new. h_handle listener_handler e m conn = (conn', Ok True) \<and> c_reads conn \<le> c_reads conn'
        \<and> user_packets (c_log conn') = user_packets (c_log conn) \<and> c_tasks conn' = c_tasks conn @ new \<and> list_all ?T new"
      using m by (auto simp: handles incoming_write_body handle_new_incoming_connection_def handled_def
          mark_connected_def emit_def)
  qed
  moreover note answers_pings [where h = listener_handler and env = e and T = ?T, OF handles(1,2)]
  moreover have "says_pong e' n' x \<Longrightarrow> ?T x" for x by (simp add: listener_says_def brief_pong)
  ultimately show ?thesis using assms listener.takes_user unfolding dialer_says_def by blast
qed

lemma dialer_answers:
  assumes "listener_says e' n' e n m"
  shows "takes (\<lambda>x. dialer_says e n e' n' x \<and> brief x) e dialer_handler n m"
proof -
  let ?T = "\<lambda>x. dialer_says e n e' n' x \<and> brief x"
  have handles: "h_handle dialer_handler e (CONNECTED_PING # rest) conn = handled (handle_connected_ping e rest conn)"
    "h_handle dialer_handler e (CONNECTED_PONG # rest) conn = handled (handle_connected_pong e rest conn)"
    "h_handle dialer_handler e (CONNECTION_REQUEST_ACCEPTED # rest) conn = handled (handle_connection_request_accepted e rest conn)"
    for rest conn by (simp_all add: dialer_handler_def dialer_handle_def id_defs)
  have "takes ?T e dialer_handler n m" if m: "accepted_write (accepted_new addr t u) = Ok m" for addr t u
  proof (rule takes_handled [OF brief_accepted [OF m]])
    fix conn :: Conn
    have body: "m = CONNECTION_REQUEST_ACCEPTED # accepted_body (accepted_new addr t u)"
      using m by (simp add: accepted_write_body)
    have read: "accepted_read (accepted_body (accepted_new addr t u)) = Ok (accepted_wire (accepted_new addr t u))"
      by (rule accepted_read_body) (simp add: accepted_new_def)
    let ?v = "stamp e (c_reads conn)" and ?w = "cra_pong_time (accepted_wire (accepted_new addr t u))"
    obtain response where r: "incoming_write (incoming_new (c_remote_addr conn) ?w ?v) = Ok response"
      using incoming_write_body by blast
    then have "?T response" using brief_incoming unfolding dialer_says_def by blast
    with r body read show "\<exists>conn' new. h_handle dialer_handler e m conn = (conn', Ok True) \<and> c_reads conn \<le> c_reads conn'
        \<and> user_packets (c_log conn') = user_packets (c_log conn) \<and> c_tasks conn' = c_tasks conn @ new \<and> list_all ?T new"
      by (simp add: handles handle_connection_request_accepted_def handled_def timestamp_stamp
          send_message_def mark_connected_def emit_def Let_def)
  qed
  moreover note answers_pings [where h = dialer_handler and env = e and T = ?T, OF handles(1,2)]
  moreover have "says_pong e' n' x \<Longrightarrow> ?T x" for x by (simp add: dialer_says_def brief_pong)
  ultimately show ?thesis using assms dialer.takes_user unfolding listener_says_def by blast
qed

interpretation listening: dialogue listener_handler True listener_says dialer_says
  by unfold_locales
    (use listener_says_mono listener_answers in \<open>auto simp: listener_says_def intro: brief_messages\<close>)

interpretation dialing: dialogue dialer_handler False dialer_says listener_says
  by unfold_locales
    (use dialer_says_mono dialer_answers in \<open>auto simp: dialer_says_def intro: brief_messages\<close>)

end
