(* ===== verification/Peers.thy ===== *)
theory Peers
  imports Dialogue Closing
begin

text \<open>
  One side of a conversation, with its clock, its environment and its tasks, and what it has said.
  It hears any datagram the other side has put on the wire, at any time, any number of times or
  never; it writes, runs its tasks and ticks. \<open>speaker\<close> is what such a side is committed to, and
  every step keeps it.
\<close>

section \<open>What the methods leave alone\<close>

text \<open>The counters that only writing and the tasks advance, and the number of clock readings.\<close>

definition steadfast :: "Conn \<Rightarrow> Conn \<Rightarrow> bool" where
  "steadfast conn conn' \<longleftrightarrow> c_reads conn \<le> c_reads conn' \<and> c_mtu conn' = c_mtu conn
     \<and> st_order_index (c_state conn') = st_order_index (c_state conn)
     \<and> st_split_id (c_state conn') = st_split_id (c_state conn)
     \<and> (c_closed conn \<longrightarrow> c_closed conn')"

lemma steadfast_refl [simp]: "steadfast conn conn"
  by (simp add: steadfast_def)

lemma steadfast_trans: "steadfast a b \<Longrightarrow> steadfast b c \<Longrightarrow> steadfast a c"
  by (simp add: steadfast_def)

text \<open>Neither the tasks nor the window nor the numbers to acknowledge change.\<close>

definition undisturbed :: "Conn \<Rightarrow> Conn \<Rightarrow> bool" where
  "undisturbed conn conn' \<longleftrightarrow> steadfast conn conn' \<and> c_tasks conn' = c_tasks conn
     \<and> st_ack_slice (c_state conn') = st_ack_slice (c_state conn)
     \<and> st_win (c_state conn') = st_win (c_state conn)"

lemma undisturbed_refl [simp]: "undisturbed conn conn"
  by (simp add: undisturbed_def)

lemma undisturbed_trans: "undisturbed a b \<Longrightarrow> undisturbed b c \<Longrightarrow> undisturbed a c"
  using steadfast_trans [of a b c] by (simp add: undisturbed_def)

lemma undisturbed_acknowledge_all: "undisturbed conn (acknowledge_all env ps conn)"
proof (induction ps arbitrary: conn)
  case (Cons p rest)
  let ?c = "conn\<lparr>c_reads := Suc (c_reads conn), c_state := (c_state conn)\<lparr>st_retransmission :=
    fst (rm_acknowledge (clock env (c_reads conn)) p (st_retransmission (c_state conn)))\<rparr>\<rparr>"
  have "acknowledge_all env (p # rest) conn = acknowledge_all env rest ?c"
    by (simp add: read_clock_def Let_def split: prod.split)
  moreover have "undisturbed conn ?c" by (simp add: undisturbed_def steadfast_def)
  ultimately show ?case using undisturbed_trans [OF _ Cons.IH] by simp
qed simp

lemma undisturbed_resend_all: "undisturbed conn (resend_all env ps conn)"
proof (induction ps arbitrary: conn)
  case (Cons p rest)
  have "undisturbed conn (resent env p pk conn)" for pk
    by (simp add: resent_def chan_try_send_def emit_def undisturbed_def steadfast_def Let_def)
  moreover have "undisturbed conn (conn\<lparr>c_reads := Suc (c_reads conn)\<rparr>)" by (simp add: undisturbed_def steadfast_def)
  ultimately show ?case
    using undisturbed_trans [OF _ Cons.IH] by (simp add: resend_all_step del: resend_all.simps split: option.split)
qed simp

lemma undisturbed_check_resend: "undisturbed conn (check_resend env now conn)"
proof -
  obtain m rtt where rtt: "rm_rtt now (st_retransmission (c_state conn)) = (m, rtt)"
    by (cases "rm_rtt now (st_retransmission (c_state conn))")
  have "undisturbed conn (conn\<lparr>c_rtt := of_nat rtt, c_state := (c_state conn)\<lparr>st_retransmission := m\<rparr>\<rparr>)"
    by (simp add: undisturbed_def steadfast_def)
  from undisturbed_trans [OF this undisturbed_resend_all] show ?thesis by (simp add: check_resend_def rtt Let_def)
qed

lemma steadfast_flush_acks:
  "steadfast conn (fst (flush_acks env conn)) \<and> c_tasks (fst (flush_acks env conn)) = c_tasks conn
   \<and> c_reads (fst (flush_acks env conn)) = c_reads conn"
proof -
  have ignore: "fst (ignore_error r) = fst r" for r :: "Conn \<times> unit outcome"
    by (cases r; cases "snd r") auto
  have ack: "steadfast c (fst (send_ack env packets c)) \<and> c_tasks (fst (send_ack env packets c)) = c_tasks c
      \<and> c_reads (fst (send_ack env packets c)) = c_reads c" for packets c
    using send_ack_loop_frame [of env BIT_FLAG_ACK packets "c_ack_buf c" c]
    by (cases "send_ack_loop env BIT_FLAG_ACK packets (c_ack_buf c) c";
        cases "snd (send_ack_loop env BIT_FLAG_ACK packets (c_ack_buf c) c)")
      (simp_all add: send_ack_def send_acknowledgement_def steadfast_def)
  from ack [of "conn\<lparr>c_state := (c_state conn)\<lparr>st_ack_slice := []\<rparr>\<rparr>" "st_ack_slice (c_state conn)"]
  show ?thesis by (simp add: flush_acks_def ignore steadfast_def Let_def)
qed

text \<open>A tick flushes, and then does some of a few things.\<close>

lemma keeps_stamped_ping:
  assumes "P (c\<lparr>c_reads := Suc (c_reads c), c_tasks := c_tasks c @ [CONNECTED_PING # to_be 8 (stamp env (c_reads c))]\<rparr>)"
    and "\<And>c. P c \<Longrightarrow> P (fst (f c))"
  shows "P (fst (case timestamp env c of (c, t) \<Rightarrow>
    (case connected_ping_write (connected_ping_new t) of
       Ok ping \<Rightarrow> (case send_message ping c of (c, _) \<Rightarrow> f c) | Err e \<Rightarrow> (c, Err e) | Panic \<Rightarrow> (c, Panic))))"
  using assms by (simp add: timestamp_stamp connected_ping_write_def connected_ping_new_def send_message_def)

lemma tick_after:
  assumes flush: "flush_acks env conn = (c, Ok ())" and start: "P (before_closing env (n + 1) conn)"
    and reads: "\<And>c. P c \<Longrightarrow> P (c\<lparr>c_reads := Suc (c_reads c)\<rparr>)"
    and ping: "\<And>c. P c \<Longrightarrow> P (c\<lparr>c_reads := Suc (c_reads c),
      c_tasks := c_tasks c @ [CONNECTED_PING # to_be 8 (stamp env (c_reads c))]\<rparr>)"
    and close: "\<And>c. P c \<Longrightarrow> P (close_immediately close c)"
    and closing: "\<And>c. P c \<Longrightarrow> P (conn_close env c)"
  shows "P (fst (tick env close n conn))"
proof -
  have clock: "P c \<Longrightarrow> P (fst (read_clock env c))" for c
    using reads by (simp add: read_clock_def)
  have wall: "P c \<Longrightarrow> P (fst (read_wall env c))" for c
    using reads by (simp add: read_wall_def)
  have before: "(if (n + 1) mod 3 = 0 then (case read_clock env c of (conn, now) \<Rightarrow> check_resend env now conn) else c)
      = before_closing env (n + 1) conn"
    by (simp add: before_closing_def flush)
  show ?thesis
    unfolding tick_def Let_def flush and_then_st_simps before
    by (intro keeps_stamped_ping [where P = P] keeps_and_then_st [where P = P]
        keeps_case_pair [where P = P] keeps_case_pair_conn [where P = P]
        keeps_if [where P = P] keeps_if_conn [where P = P]
        keeps_return [where P = P] clock wall ping closing close start)
qed

lemma tick_keeps:
  assumes "P (fst (flush_acks env conn))"
    and resend: "\<And>now c. P c \<Longrightarrow> P (check_resend env now c)"
    and reads: "\<And>c. P c \<Longrightarrow> P (c\<lparr>c_reads := Suc (c_reads c)\<rparr>)"
    and ping: "\<And>c. P c \<Longrightarrow> P (c\<lparr>c_reads := Suc (c_reads c),
      c_tasks := c_tasks c @ [CONNECTED_PING # to_be 8 (stamp env (c_reads c))]\<rparr>)"
    and close: "\<And>c. P c \<Longrightarrow> P (close_immediately close c)"
    and closing: "\<And>c. P c \<Longrightarrow> P (conn_close env c)"
  shows "P (fst (tick env close n conn))"
proof (cases "flush_acks env conn")
  case (Pair c r)
  show ?thesis
  proof (cases r)
    case (Ok u)
    have "P (before_closing env (n + 1) conn)"
      using assms(1) resend reads by (simp add: before_closing_def read_clock_def Let_def)
    then show ?thesis using tick_after [where P = P] Pair Ok reads ping close closing by simp
  qed (use Pair assms(1) in \<open>simp_all add: tick_def Let_def\<close>)
qed

text \<open>Receiving.\<close>

lemma steadfast_internal: "internal conn conn' \<Longrightarrow> steadfast conn conn'"
  by (simp add: internal_def steadfast_def)

lemma steadfast_window_frame: "window_frame conn conn' \<Longrightarrow> steadfast conn conn'"
  by (auto simp: window_frame_def window_erased_def steadfast_def dest: arg_cong [where f = st_order_index]
      arg_cong [where f = st_split_id])

lemma steadfast_state:
  "c_reads conn' = c_reads conn \<Longrightarrow> c_mtu conn' = c_mtu conn \<Longrightarrow> c_closed conn' = c_closed conn \<Longrightarrow>
   st_order_index (c_state conn') = st_order_index (c_state conn) \<Longrightarrow>
   st_split_id (c_state conn') = st_split_id (c_state conn) \<Longrightarrow> steadfast conn conn'"
  by (simp add: steadfast_def)

text \<open>A bound on the numbers a window has seen.\<close>

definition window_below :: "nat \<Rightarrow> Conn \<Rightarrow> bool" where
  "window_below N conn \<longleftrightarrow> dw_inv (st_win (c_state conn)) \<and> unat (u24 (dw_highest (st_win (c_state conn)))) \<le> N"

lemma dw_add_highest_le:
  assumes "u24_inner seq" and "unat (u24 seq) < N" and "unat (u24 (dw_highest dw)) \<le> N"
  shows "unat (u24 (dw_highest (fst (dw_add now seq dw)))) \<le> N"
  using assms u24_inner_succ [OF assms(1)] by (auto simp: dw_add_def Let_def)

context connection_handler
begin

lemma steadfast_handle_packet: "steadfast conn (fst (handle_packet env h c conn))"
proof (cases "h_handle h env c conn")
  case (Pair conn' r)
  then have "steadfast conn conn'"
    using handle_internal [of conn env c] by (simp add: steadfast_internal)
  with Pair show ?thesis
    by (cases r) (simp_all add: handle_packet_def emit_def steadfast_def)
qed

lemma steadfast_handle_packets: "steadfast conn (fst (handle_packets env h cs conn))"
proof (induction cs arbitrary: conn)
  case (Cons c cs)
  show ?case
    unfolding handle_packets.simps
    by (rule keeps_and_then_st [where P = "steadfast conn"])
      (use steadfast_handle_packet steadfast_trans [OF _ Cons.IH] in blast)+
qed simp

lemma steadfast_receive_packet: "steadfast conn (fst (receive_packet env h pk conn))"
proof -
  have "steadfast conn (fst (handle_packets env h cs (conn\<lparr>c_state := (c_state conn)\<lparr>st_packet_queue := q\<rparr>\<rparr>)))" for cs q
    by (rule steadfast_trans [OF steadfast_state steadfast_handle_packets]) simp_all
  then show ?thesis
    unfolding receive_packet_def Let_def
    by (auto simp: and_then_st_def steadfast_state steadfast_handle_packet split: prod.split outcome.split)
qed

lemma steadfast_dispatch: "steadfast conn (fst (dispatch_packet env h pk conn))"
proof -
  have "steadfast conn (fst (receive_packet env h p (conn\<lparr>c_state := (c_state conn)\<lparr>st_splits := s\<rparr>\<rparr>)))" for p s
    by (rule steadfast_trans [OF steadfast_state steadfast_receive_packet]) simp_all
  then have "steadfast conn (fst (receive_split_packet env h pk conn))"
    unfolding receive_split_packet_def Let_def
    by (auto simp: and_then_st_def steadfast_state split: outcome.split)
  then show ?thesis by (simp add: dispatch_packet_def steadfast_receive_packet)
qed

lemma steadfast_receive_datagram: "steadfast conn (fst (receive_datagram env h data conn))"
proof (cases rule: receive_datagram_cases [of env h data conn])
  case (stop conn' r)
  then show ?thesis using steadfast_window_frame by simp
next
  case (go_on conn')
  have "steadfast conn (fst (handle_datagram env h (drop 3 data) conn'))"
  proof (rule handle_datagram_keeps [where P = "steadfast conn"])
    show "steadfast conn conn'" by (rule steadfast_window_frame [OF go_on(2)])
    show "steadfast conn (set_pk pk c)" if "steadfast conn c" for pk c
      using that by (simp add: set_pk_def steadfast_def)
    show "steadfast conn (fst (dispatch_packet env h pk c))" if "steadfast conn c" for pk c
      using steadfast_trans [OF that steadfast_dispatch] .
  qed
  with go_on(1) show ?thesis by simp
qed

lemma conn_receive_control:
  assumes "control ns d"
  shows "receiving_side (fst (conn_receive env h d conn)) = receiving_side conn
    \<and> undisturbed conn (fst (conn_receive env h d conn))"
proof -
  obtain b rest where d: "d = b # rest" "b = BIT_FLAG_NACK OR BIT_FLAG_DATAGRAM \<or> b = BIT_FLAG_ACK OR BIT_FLAG_DATAGRAM"
    using assms by (cases d) (auto simp: control_def reports_def)
  let ?c = "conn\<lparr>c_reads := Suc (c_reads conn), c_last_activity := clock env (c_reads conn)\<rparr>"
  have c: "undisturbed conn ?c" by (simp add: undisturbed_def steadfast_def)
  have "undisturbed conn (fst (handle_ack env rest ?c)) \<and> undisturbed conn (fst (handle_nack env rest ?c))"
    using c undisturbed_trans [OF c undisturbed_acknowledge_all] undisturbed_trans [OF c undisturbed_resend_all]
    by (simp add: handle_ack_def handle_nack_def split: prod.split outcome.split unit.split)
  then show ?thesis using d by (auto simp: conn_receive_def read_clock_def flag_defs Let_def)
qed

lemma conn_receive_window:
  assumes "7 \<le> effective_mtu conn" and "u24_ok seq" and "window_below N conn" and "unat (u24 seq) < N" and "N < 2 ^ 24"
  shows "window_below N (fst (conn_receive env h (build_datagram seq pk) conn))"
proof -
  let ?c = "conn\<lparr>c_reads := Suc (c_reads conn), c_last_activity := clock env (c_reads conn)\<rparr>"
  let ?data = "write_uint24 [] seq @ packet_write pk []" and ?win = "st_win (c_state conn)"
  have "window_below N (fst (receive_datagram env h ?data ?c))"
  proof (rule receive_datagram_effects [of ?c env ?data])
    show "7 \<le> effective_mtu ?c" using assms(1) by (simp add: effective_mtu_def)
    show ?thesis if "requests_only ?c (fst (receive_datagram env h ?data ?c))"
      using that assms(3) by (simp add: requests_only_def window_below_def)
    fix seq' now
    assume "load_uint24 ?data = Ok seq'" and r: "requests_only (?c\<lparr>c_state := (c_state ?c)\<lparr>
        st_win := fst (dw_add now seq' (st_win (c_state ?c))), st_ack_slice := st_ack_slice (c_state ?c) @ [seq']\<rparr>\<rparr>)
        (fst (receive_datagram env h ?data ?c))"
    then have s: "seq' = seq" using assms(2) by simp
    have "u24_inner seq" using assms(4,5) by (simp add: u24_inner_def word_less_nat_alt)
    then have "dw_inv (fst (dw_add now seq ?win))" "unat (u24 (dw_highest (fst (dw_add now seq ?win)))) \<le> N"
      using assms(3,4) dw_inv_add dw_add_highest_le [of seq N ?win now] by (auto simp: window_below_def)
    then show ?thesis using r by (simp add: s requests_only_def window_below_def)
  qed
  then show ?thesis by (simp add: conn_receive_datagram)
qed

lemma conn_receive_fresh:
  assumes "7 \<le> effective_mtu conn" and "u24_ok seq" and "window_below (unat (u24 seq)) conn"
  shows "st_ack_slice (c_state (fst (conn_receive env h (build_datagram seq pk) conn))) = st_ack_slice (c_state conn) @ [seq]"
proof -
  let ?c = "conn\<lparr>c_reads := Suc (c_reads conn), c_last_activity := clock env (c_reads conn)\<rparr>"
  let ?data = "write_uint24 [] seq @ packet_write pk []"
  have high: "u24 (dw_highest (st_win (c_state conn))) \<le> u24 seq" and inv: "dw_inv (st_win (c_state conn))"
    using assms(3) by (simp_all add: window_below_def word_le_nat_alt)
  then have "u24 seq \<notin> dom (dw_queue (st_win (c_state conn)))"
    unfolding dw_inv_def by (metis not_less)
  then have new: "\<not> dw_seen (st_win (c_state ?c)) seq"
    using high inv by (auto simp: dw_inv_def dw_seen_def less_eq_Uint24_def)
  have len: "3 \<le> length ?data" by simp
  have "st_ack_slice (c_state (fst (receive_datagram env h ?data ?c))) = st_ack_slice (c_state conn) @ [seq]"
  proof (rule receive_datagram_effects [of ?c env ?data])
    show "7 \<le> effective_mtu ?c" using assms(1) by (simp add: effective_mtu_def)
    show ?thesis if "\<And>seq. 3 \<le> length ?data \<Longrightarrow> load_uint24 ?data = Ok seq \<Longrightarrow> dw_seen (st_win (c_state ?c)) seq"
      using that [OF len, of seq] new assms(2) by simp
  qed (use assms(2) in \<open>simp add: requests_only_def\<close>)
  then show ?thesis by (simp add: conn_receive_datagram)
qed

lemma conn_receive_data:
  assumes "7 \<le> effective_mtu conn" and "u24_ok seq"
  shows "steadfast conn (fst (conn_receive env h (build_datagram seq pk) conn))
    \<and> set (st_ack_slice (c_state (fst (conn_receive env h (build_datagram seq pk) conn))))
        \<subseteq> insert seq (set (st_ack_slice (c_state conn)))"
proof -
  let ?c = "conn\<lparr>c_reads := Suc (c_reads conn), c_last_activity := clock env (c_reads conn)\<rparr>"
  let ?data = "write_uint24 [] seq @ packet_write pk []"
  have c: "steadfast conn ?c" by (simp add: steadfast_def)
  have "7 \<le> effective_mtu ?c" using assms(1) by (simp add: effective_mtu_def)
  then have "set (st_ack_slice (c_state (fst (receive_datagram env h ?data ?c)))) \<subseteq> insert seq (set (st_ack_slice (c_state conn)))"
    by (rule receive_datagram_effects [of ?c env ?data]) (use assms(2) in \<open>auto simp: requests_only_def\<close>)
  then show ?thesis
    using steadfast_trans [OF c steadfast_receive_datagram] by (simp add: conn_receive_datagram)
qed

end

section \<open>A run that grows\<close>

text \<open>What was said first does not depend on what is said later.\<close>

lemma msg_split_id_append: "p \<le> length msgs \<Longrightarrow> msg_split_id mtu (msgs @ ms) p = msg_split_id mtu msgs p"
  by (simp add: msg_split_id_def)

lemma msg_packet_append: "p < length msgs \<Longrightarrow> msg_packet mtu (msgs @ ms) p i message = msg_packet mtu msgs p i message"
  by (simp add: msg_packet_def nth_append msg_split_id_append)

lemma consistent_append:
  assumes "consistent mtu msgs conn"
  shows "consistent mtu (msgs @ ms) conn"
proof -
  obtain r where r: "c_closing conn = 0" "simulates (st_packet_queue (c_state conn)) r"
      "\<And>p c. stream r p = Some c \<Longrightarrow> p < length msgs \<and> c = msgs ! p"
      "delivered r \<le> length msgs" "user_packets (c_log conn) = for_user (take (delivered r) msgs)"
    using assms by (auto simp: consistent_def queue_consistent_def)
  have "queue_consistent (msgs @ ms) conn"
    unfolding queue_consistent_def
    by (intro conjI exI [of _ r] allI impI) (use r in \<open>force simp: nth_append\<close>)+
  moreover have "splits_consistent mtu (msgs @ ms) conn"
    unfolding splits_consistent_def
  proof (intro allI impI)
    fix s slots
    assume "map_of (st_splits (c_state conn)) s = Some slots"
    then obtain p where p: "p < length msgs" "msg_split mtu (msgs ! p)" "msg_split_id mtu msgs p = s"
        "msg_slots mtu (msgs ! p) slots"
      using assms unfolding consistent_def splits_consistent_def by blast
    then show "\<exists>p < length (msgs @ ms). msg_split mtu ((msgs @ ms) ! p) \<and> msg_split_id mtu (msgs @ ms) p = s
        \<and> msg_slots mtu ((msgs @ ms) ! p) slots"
      by (intro exI [of _ p]) (simp add: nth_append msg_split_id_append)
  qed
  ultimately show ?thesis by (simp add: consistent_def)
qed

lemma held_append: "p < length msgs \<Longrightarrow> held mtu (msgs @ ms) p i conn = held mtu msgs p i conn"
  by (simp add: held_def nth_append msg_split_id_append)

lemma sender_at_append: "sender_at mtu (msgs @ ms) (length msgs) conn = sender_at mtu msgs (length msgs) conn"
  by (simp add: sender_at_def)

text \<open>The packets of a run.\<close>

definition run_packet :: "nat \<Rightarrow> bytes list \<Rightarrow> Packet \<Rightarrow> bool" where
  "run_packet mtu msgs pk \<longleftrightarrow>
     (\<exists>p i message. p < length msgs \<and> i < length (msg_fragments mtu (msgs ! p)) \<and> u24_ok message
        \<and> pk = msg_packet mtu msgs p i message)"

lemma run_packet_datagram: "run_packet mtu msgs pk \<Longrightarrow> u24_ok seq \<Longrightarrow> run_datagram mtu msgs (build_datagram seq pk)"
  by (auto simp: run_packet_def run_datagram_def)

lemma run_packet_append: "run_packet mtu msgs pk \<Longrightarrow> run_packet mtu (msgs @ ms) pk"
  unfolding run_packet_def using msg_packet_append by (metis length_append nth_append trans_less_add1)

section \<open>What one side is committed to\<close>

text \<open>The sending side is typed, has not come round, and has put only this on the wire.\<close>

definition sound :: "(Packet \<Rightarrow> bool) \<Rightarrow> Uint24 set \<Rightarrow> Conn \<Rightarrow> bool" where
  "sound Q ns conn \<longleftrightarrow> outbox_typed conn \<and> ahead conn \<and> next_seq conn \<le> length (c_log conn) \<and> outgoing Q ns conn"

lemma carries_sound:
  assumes "carries Q ns conn conn'" and "sound Q ns conn" and "length (c_log conn') < 2 ^ 24"
  shows "sound Q ns conn'"
proof -
  have r: "retains False conn conn'" using assms(1) by (simp add: carries_def)
  then have log: "length (c_log conn) \<le> length (c_log conn')" by (simp add: retains_def)
  have room: "next_seq conn + grown conn conn' < 2 ^ 24"
    using assms(2,3) log unfolding sound_def grown_def by linarith
  then have "outbox_typed conn'" "ahead conn'" "next_seq conn' \<le> next_seq conn + grown conn conn'"
    using r assms(2) by (simp_all add: retains_def sound_def)
  moreover have "outgoing Q ns conn'" using assms(1,2) room by (simp add: carries_def sound_def)
  ultimately show ?thesis using assms(2) log unfolding sound_def grown_def by linarith
qed

lemma outgoing_mono:
  assumes "outgoing Q ns conn" and "\<And>pk. Q pk \<Longrightarrow> Q' pk" and "ns \<subseteq> ns'"
  shows "outgoing Q' ns' conn"
proof -
  have "carried Q conn d \<Longrightarrow> carried Q' conn d" for d
    unfolding carried_def using assms(2) by blast
  with assms show ?thesis unfolding outgoing_def using control_mono by blast
qed

lemma sound_mono: "sound Q ns conn \<Longrightarrow> (\<And>pk. Q pk \<Longrightarrow> Q' pk) \<Longrightarrow> ns \<subseteq> ns' \<Longrightarrow> sound Q' ns' conn"
  using outgoing_mono [of Q ns conn Q' ns'] by (simp add: sound_def)

lemma sound_new: "sound Q ns (conn_new addr mtu now)"
  using fresh_outbox [of addr mtu now]
  by (simp add: sound_def outgoing_def rm_pending_def conn_new_def conn_state_new_def rm_new_def)

text \<open>Neither closing nor closed.\<close>

definition live :: "Conn \<Rightarrow> bool" where
  "live conn \<longleftrightarrow> c_closing conn = 0 \<and> \<not> c_closed conn"

text \<open>
  One side that has said \<open>said\<close>: its counters stand behind the last message, what it says is \<open>T\<close>,
  and so are the answers its tasks will send.
\<close>

definition speaker :: "(bytes \<Rightarrow> bool) \<Rightarrow> u16 \<Rightarrow> bytes list \<Rightarrow> Conn \<Rightarrow> bool" where
  "speaker T mtu said conn \<longleftrightarrow> 372 \<le> unat mtu \<and> unat mtu < 8192
     \<and> sender_at mtu said (length said) conn \<and> sendables said \<and> list_all T said
     \<and> list_all (\<lambda>m. T m \<and> brief m) (c_tasks conn)
     \<and> sound (run_packet (unat mtu) said) UNIV conn \<and> list_all u24_ok (st_ack_slice (c_state conn))"

lemma speaker_mono: "speaker T mtu said conn \<Longrightarrow> (\<And>m. T m \<Longrightarrow> T' m) \<Longrightarrow> speaker T' mtu said conn"
  by (auto simp: speaker_def list_all_iff)

lemma speaker_mtu: "speaker T mtu said conn \<Longrightarrow> effective_mtu conn = mtu \<and> 7 \<le> effective_mtu conn \<and> 24 < unat mtu"
  by (auto simp: speaker_def sender_at_def word_le_nat_alt)

lemma speaker_wire:
  assumes "speaker T mtu said conn" and "d \<in> set (emitted conn)"
  shows "control UNIV d \<or> (\<exists>seq pk. u24_ok seq \<and> run_packet (unat mtu) said pk \<and> d = build_datagram seq pk)"
  using assms unfolding speaker_def sound_def outgoing_def carried_def by blast

lemma sender_at_steadfast:
  assumes "sender_at mtu said k conn" and "steadfast conn conn'" and "live conn'" and "outbox_typed conn'"
  shows "sender_at mtu said k conn'"
  using assms by (simp add: sender_at_def steadfast_def live_def effective_mtu_def outbox_typed_def outbox_def)

lemma speaker_steadfast:
  assumes "speaker T mtu said conn" and "steadfast conn conn'" and "live conn'"
    and "carries (run_packet (unat mtu) said) UNIV conn conn'" and "length (c_log conn') < 2 ^ 24"
    and "list_all (\<lambda>m. T m \<and> brief m) (c_tasks conn')" and "list_all u24_ok (st_ack_slice (c_state conn'))"
  shows "speaker T mtu said conn'"
proof -
  have "sound (run_packet (unat mtu) said) UNIV conn'"
    using carries_sound [OF assms(4)] assms(1,5) by (simp add: speaker_def)
  moreover from this have "sender_at mtu said (length said) conn'"
    using sender_at_steadfast [OF _ assms(2,3)] assms(1) by (simp add: speaker_def sound_def)
  ultimately show ?thesis using assms by (simp add: speaker_def)
qed

section \<open>The steps of one side\<close>

text \<open>
  A side and everything it has said, in the order its writes and tasks got the order indices.
  \<open>wire\<close> holds the datagrams the other side has emitted.
\<close>

type_synonym peer = "Conn \<times> bytes list"

inductive peer_step :: "env \<Rightarrow> ConnectionHandler \<Rightarrow> bytes set \<Rightarrow> peer \<Rightarrow> peer \<Rightarrow> bool" for env h wire where
  Hears: "d \<in> wire \<Longrightarrow> peer_step env h wire (conn, said) (fst (conn_receive env h d conn), said)"
| Writes: "user_message m \<Longrightarrow>
    peer_step env h wire (conn, said) (fst (conn_write env m conn), if c_closed conn then said else said @ [m])"
| Runs: "k < length (c_tasks conn) \<Longrightarrow>
    peer_step env h wire (conn, said) (run_task env k conn, said @ [c_tasks conn ! k])"
| Ticks: "peer_step env h wire (conn, said) (fst (tick env (h_close h) n conn), said)"
| Closes: "peer_step env h wire (conn, said) (conn_close env conn, said)"
| Closes_now: "peer_step env h wire (conn, said) (close_immediately (h_close h) conn, said)"

inductive_cases peer_stepE: "peer_step env h wire (conn, said) (conn', said')"

text \<open>A message that needs no splitting is one fragment.\<close>

lemma brief_fragments:
  assumes "brief m" and "372 \<le> mtu"
  shows "sendable m" and "\<not> msg_split mtu m" and "msg_fragments mtu m = [m]"
proof -
  show m: "sendable m" using assms(1) by (auto simp: brief_def sendable_def)
  show split: "\<not> msg_split mtu m" using assms unfolding msg_split_def brief_def by linarith
  have "24 < mtu" using assms(2) by simp
  note facts = msg_fragments_facts [OF this m]
  have "length (msg_fragments mtu m) = 1" using facts(3,4) split by linarith
  with facts(1) show "msg_fragments mtu m = [m]" by (cases "msg_fragments mtu m") auto
qed

lemma brief_packet:
  assumes "brief m" and "372 \<le> mtu"
  shows "msg_packet mtu (said @ [m]) (length said) 0 message
    = packet_new\<lparr>content := m, order_index := msg_order (length said), message_index := message\<rparr>"
  using brief_fragments [OF assms] by (simp add: msg_packet_def fragment_packet_def)

lemma run_task_fields:
  assumes "k < length (c_tasks conn)"
  shows "c_reads (run_task env k conn) = Suc (c_reads conn) \<and> c_mtu (run_task env k conn) = c_mtu conn
    \<and> c_closed (run_task env k conn) = c_closed conn
    \<and> st_order_index (c_state (run_task env k conn)) = snd (u24_inc (st_order_index (c_state conn)))
    \<and> st_split_id (c_state (run_task env k conn)) = st_split_id (c_state conn)
    \<and> st_ack_slice (c_state (run_task env k conn)) = st_ack_slice (c_state conn)
    \<and> st_win (c_state (run_task env k conn)) = st_win (c_state conn)
    \<and> set (c_tasks (run_task env k conn)) \<subseteq> set (c_tasks conn)
    \<and> receiving_side (run_task env k conn) = receiving_side conn"
  using assms set_take_subset [of k "c_tasks conn"] set_drop_subset [of "Suc k" "c_tasks conn"]
  by (simp add: run_task_def send_message_task_def read_clock_def chan_try_send_def emit_def u24_inc_def
      receiving_side_def Let_def)

text \<open>Saying one more thing.\<close>

lemma speaker_says:
  assumes "speaker T mtu said conn" and "sendables (said @ [m])" and "T m"
    and "sender_at mtu (said @ [m]) (Suc (length said)) conn'"
    and "carries (run_packet (unat mtu) (said @ [m])) UNIV conn conn'" and "length (c_log conn') < 2 ^ 24"
    and "set (c_tasks conn') \<subseteq> set (c_tasks conn)" and "st_ack_slice (c_state conn') = st_ack_slice (c_state conn)"
  shows "speaker T mtu (said @ [m]) conn'"
proof -
  have "sound (run_packet (unat mtu) (said @ [m])) UNIV conn"
    using assms(1) run_packet_append by (auto simp: speaker_def intro: sound_mono)
  from carries_sound [OF assms(5) this assms(6)] show ?thesis
    using assms by (auto simp: speaker_def list_all_iff)
qed

lemma ping_said: "steady e \<Longrightarrow> says_ping e (Suc n) (CONNECTED_PING # to_be 8 (stamp e n))"
  unfolding says_ping_def
  by (rule exI [of _ "stamp e n"])
    (simp add: connected_ping_write_def connected_ping_new_def past_mono [OF past_stamp])

context dialogue
begin

abbreviation speaks :: "env \<Rightarrow> nat \<Rightarrow> env \<Rightarrow> nat \<Rightarrow> u16 \<Rightarrow> bytes list \<Rightarrow> Conn \<Rightarrow> bool" where
  "speaks e n e' n' \<equiv> speaker (says e n e' n')"

abbreviation hears_of :: "env \<Rightarrow> nat \<Rightarrow> env \<Rightarrow> nat \<Rightarrow> u16 \<Rightarrow> bytes list \<Rightarrow> Conn \<Rightarrow> bool" where
  "hears_of e' n' e n \<equiv> speaker (heard e' n' e n)"

lemma speaks_later: "speaks e n e' n' mtu said conn \<Longrightarrow> n \<le> k \<Longrightarrow> speaks e k e' n' mtu said conn"
  using says_mono by (auto intro: speaker_mono)

lemma says_later: "list_all (\<lambda>m. says e n e' n' m \<and> brief m) ms \<Longrightarrow> n \<le> k \<Longrightarrow> list_all (\<lambda>m. says e k e' n' m \<and> brief m) ms"
  unfolding list_all_iff using says_mono by blast

lemma move_hears:
  assumes me: "speaks e (c_reads conn) e' n' mtu said conn"
    and you: "hears_of e' n' e (c_reads conn) mtu' sayings other"
    and inv: "consistent (unat mtu') sayings conn" and d: "d \<in> set (emitted other)"
    and live: "live (fst (conn_receive e h d conn))" and log: "length (c_log (fst (conn_receive e h d conn))) < 2 ^ 24"
  shows "steadfast conn (fst (conn_receive e h d conn))
    \<and> speaks e (c_reads conn) e' n' mtu said (fst (conn_receive e h d conn))
    \<and> consistent (unat mtu') sayings (fst (conn_receive e h d conn))"
proof -
  let ?c = "fst (conn_receive e h d conn)"
  have mtu: "7 \<le> effective_mtu conn" using speaker_mtu [OF me] by blast
  have carries: "carries Q ns conn ?c" for Q ns by (rule carries_receive [OF mtu])
  have tasks: "list_all (\<lambda>m. says e (c_reads conn) e' n' m \<and> brief m) (c_tasks conn)"
    and slice: "list_all u24_ok (st_ack_slice (c_state conn))" using me by (simp_all add: speaker_def)
  have "steadfast conn ?c \<and> consistent (unat mtu') sayings ?c \<and> list_all u24_ok (st_ack_slice (c_state ?c))
      \<and> list_all (\<lambda>m. says e (c_reads conn) e' n' m \<and> brief m) (c_tasks ?c)"
    using speaker_wire [OF you d]
  proof
    assume "control UNIV d"
    from conn_receive_control [OF this, where conn = conn and env = e] show ?thesis
      using tasks slice inv consistent_side [of ?c conn] by (simp add: undisturbed_def)
  next
    assume "\<exists>seq pk. u24_ok seq \<and> run_packet (unat mtu') sayings pk \<and> d = build_datagram seq pk"
    then obtain seq pk where seq: "u24_ok seq" and d: "d = build_datagram seq pk" "run_packet (unat mtu') sayings pk" by blast
    have said: "sendables sayings" "list_all (heard e' n' e (c_reads conn)) sayings" "24 < unat mtu'" "unat mtu' < 8192"
      using you by (simp_all add: speaker_def)
    have takes: "list_all (takes (\<lambda>m. says e (c_reads conn) e' n' m \<and> brief m) e h (c_reads conn)) sayings"
      using said(2) answers unfolding list_all_iff by blast
    have "run_datagram (unat mtu') sayings d" using run_packet_datagram [OF d(2) seq] d(1) by simp
    from consistent_receive [OF inv said(1) takes tasks said(3,4) this] conn_receive_data [OF mtu seq, of e pk] d(1) seq slice
    show ?thesis by (auto simp: list_all_iff)
  qed
  then show ?thesis using speaker_steadfast [OF me _ live carries log] by simp
qed

lemma move_writes:
  assumes ok: "\<And>es. send_ok e es" and me: "speaks e (c_reads conn) e' n' mtu said conn" and m: "user_message m"
    and log: "length (c_log (fst (conn_write e m conn))) < 2 ^ 24" and bound: "length said < 65536"
  shows "write_frame conn (fst (conn_write e m conn)) \<and> \<not> c_closed conn
    \<and> speaks e (c_reads conn) e' n' mtu (said @ [m]) (fst (conn_write e m conn))"
proof -
  let ?msgs = "said @ [m]" and ?k = "length said"
  have s: "372 \<le> unat mtu" "unat mtu < 8192" "sendables said" "sender_at mtu said ?k conn" "24 < unat mtu"
    using me by (simp_all add: speaker_def)
  have msgs: "sendables ?msgs" using s(3) bound user_message_sendable [OF m] by (simp add: sendables_def)
  have at: "sender_at mtu ?msgs ?k conn" using s(4) by (simp add: sender_at_append)
  obtain c where c: "conn_write e m conn = (c, Ok (length m))" "write_frame conn c" "sender_at mtu ?msgs (Suc ?k) c"
    using sender_at_write [OF ok msgs s(5) at] by (auto simp: Let_def)
  have open': "\<not> c_closed conn" "effective_mtu conn = mtu" "st_order_index (c_state conn) = msg_order ?k"
    using at by (simp_all add: sender_at_def)
  have sid: "ucast (st_split_id (c_state conn)) = msg_split_id (unat mtu) ?msgs ?k"
    using sender_at_split_id [OF at] msgs by (simp add: sendables_def)
  have len: "m \<noteq> []" "length m < 2 ^ 64" using m by (simp_all add: user_message_def)
  have split: "split (env_profile e) m mtu = Ok (msg_fragments (unat mtu) m)"
    unfolding msg_fragments_def by (rule split_eq_fragments_of [OF s(5) len])
  have "carries (run_packet (unat mtu) ?msgs) UNIV conn (fst (conn_write e m conn))"
  proof (rule carries_conn_write [OF ok])
    fix fragments j message
    assume f: "split (env_profile e) m (effective_mtu conn) = Ok fragments" "j < length fragments" "u24_ok message"
    then have "fragments = msg_fragments (unat mtu) m" using split open'(2) by simp
    then show "run_packet (unat mtu) ?msgs (fragment_packet (st_order_index (c_state conn))
        (ucast (st_split_id (c_state conn))) (length fragments) j message (fragments ! j))"
      using f(2,3) unfolding run_packet_def sid open'(3)
      by - (rule exI [of _ ?k], rule exI [of _ j], rule exI [of _ message], simp add: msg_packet_def Let_def)
  qed
  with speaker_says [OF me msgs says_user [OF m], of c] c log open'(1)
  show ?thesis by (simp add: write_frame_def)
qed

lemma move_runs:
  assumes me: "speaks e (c_reads conn) e' n' mtu said conn" and k: "k < length (c_tasks conn)"
    and log: "length (c_log (run_task e k conn)) < 2 ^ 24" and bound: "length said < 65536"
  shows "speaks e (c_reads conn) e' n' mtu (said @ [c_tasks conn ! k]) (run_task e k conn)"
proof -
  let ?m = "c_tasks conn ! k"
  let ?msgs = "said @ [?m]" and ?k = "length said" and ?c = "run_task e k conn"
  have s: "372 \<le> unat mtu" "sendables said" "sender_at mtu said ?k conn" "sound (run_packet (unat mtu) said) UNIV conn"
    using me by (simp_all add: speaker_def)
  have m: "says e (c_reads conn) e' n' ?m" "brief ?m" using me k by (simp_all add: speaker_def list_all_length)
  note f = run_task_fields [OF k, of e] and one = brief_fragments [OF m(2) s(1)]
  have msgs: "sendables ?msgs" using s(2) bound one(1) by (simp add: sendables_def)
  have carries: "carries (run_packet (unat mtu) ?msgs) UNIV conn ?c"
  proof (rule carries_run_task)
    fix message
    assume "u24_ok message"
    moreover have "st_order_index (c_state conn) = msg_order ?k" using s(3) by (simp add: sender_at_def)
    ultimately show "run_packet (unat mtu) ?msgs (packet_new\<lparr>content := ?m,
        order_index := st_order_index (c_state conn), message_index := message\<rparr>)"
      unfolding run_packet_def using brief_packet [OF m(2) s(1), of said message] one(3)
      by (intro exI [of _ ?k] exI [of _ 0] exI [of _ message]) simp
  qed
  have "sound (run_packet (unat mtu) ?msgs) UNIV conn"
    using s(4) run_packet_append by (auto intro: sound_mono)
  from carries_sound [OF carries this log] have typed: "outbox_typed ?c" by (simp add: sound_def)
  have "sender_at mtu ?msgs (Suc ?k) ?c"
    using s(3) f one(2) typed bound msg_order_Suc [of ?k]
    by (simp add: sender_at_def effective_mtu_def outbox_typed_def outbox_def)
  from speaker_says [OF me msgs m(1) this carries log] f show ?thesis by simp
qed

lemma closes_at_once: "c_closed (close_immediately (h_close h) conn)"
proof (cases "c_closed conn")
  case False
  let ?c = "fst (send_message [DISCONNECT_NOTIFICATION] (conn\<lparr>c_closed := True\<rparr>))"
  have "c_closed (h_close h ?c)"
    using close_internal [of ?c] by (simp add: internal_def send_message_def)
  with False show ?thesis by (simp add: close_immediately_def emit_def)
qed (simp add: close_immediately_def)

lemma move_ticks:
  assumes steady: "steady e" and me: "speaks e (c_reads conn) e' n' mtu said conn"
    and live: "live (fst (tick e (h_close h) n conn))" and log: "length (c_log (fst (tick e (h_close h) n conn))) < 2 ^ 24"
  shows "steadfast conn (fst (tick e (h_close h) n conn))
    \<and> speaks e (c_reads (fst (tick e (h_close h) n conn))) e' n' mtu said (fst (tick e (h_close h) n conn))
    \<and> receiving_side (fst (tick e (h_close h) n conn)) = receiving_side conn
    \<and> st_ack_slice (c_state (fst (tick e (h_close h) n conn))) = []
    \<and> st_win (c_state (fst (tick e (h_close h) n conn))) = st_win (c_state conn)"
proof -
  let ?c = "fst (tick e (h_close h) n conn)"
  define P where "P c \<longleftrightarrow> steadfast conn c
    \<and> (\<not> c_closed c \<longrightarrow> list_all (\<lambda>m. says e (c_reads c) e' n' m \<and> brief m) (c_tasks c))
    \<and> (c_closing c = 0 \<longrightarrow> receiving_side c = receiving_side conn) \<and> st_ack_slice (c_state c) = []
    \<and> st_win (c_state c) = st_win (c_state conn)" for c
  have mtu: "7 \<le> effective_mtu conn" using speaker_mtu [OF me] by blast
  have tasks: "list_all (\<lambda>m. says e (c_reads conn) e' n' m \<and> brief m) (c_tasks conn)"
    and slice: "list_all u24_ok (st_ack_slice (c_state conn))" using me by (simp_all add: speaker_def)
  have frame: "P c'" if "P c" "undisturbed c c'" "receiving_side c' = receiving_side c" for c c'
    using that says_later [of e "c_reads c" e' n' "c_tasks c" "c_reads c'"] steadfast_trans [of conn c c']
    by (auto simp: P_def undisturbed_def steadfast_def receiving_side_def)
  have "P ?c"
  proof (rule tick_keeps [where P = P])
    have side: "receiving_side (fst (flush_acks e conn)) = receiving_side conn" by (rule flush_acks_side)
    have "st_win (c_state (fst (flush_acks e conn))) = st_win (c_state conn)"
      using arg_cong [OF flush_acks_frame [THEN conjunct1, of e conn], of st_win] by simp
    then show "P (fst (flush_acks e conn))"
      using steadfast_flush_acks [of conn e] flush_acks_frame [of e conn] side says_later [OF tasks]
      by (simp add: P_def steadfast_def)
  next
    fix now c
    assume "P c"
    from frame [OF this undisturbed_check_resend check_resend_side] show "P (check_resend e now c)" .
  next
    fix c
    assume "P c"
    then show "P (c\<lparr>c_reads := Suc (c_reads c)\<rparr>)"
      by (rule frame) (simp_all add: undisturbed_def steadfast_def receiving_side_def)
  next
    fix c
    assume "P c"
    moreover have "says e (Suc (c_reads c)) e' n' (CONNECTED_PING # to_be 8 (stamp e (c_reads c)))
        \<and> brief (CONNECTED_PING # to_be 8 (stamp e (c_reads c)))"
      using ping_said [OF steady] says_pings brief_ping by blast
    ultimately show "P (c\<lparr>c_reads := Suc (c_reads c),
        c_tasks := c_tasks c @ [CONNECTED_PING # to_be 8 (stamp e (c_reads c))]\<rparr>)"
      using says_later [of e "c_reads c" e' n' "c_tasks c" "Suc (c_reads c)"]
      by (simp add: P_def steadfast_def receiving_side_def)
  next
    fix c
    assume c: "P c"
    have i: "internal c (close_immediately (h_close h) c)"
      by (rule internal_close_immediately) (rule close_internal)
    have "c_closed (close_immediately (h_close h) c)" by (rule closes_at_once)
    moreover have "steadfast conn (close_immediately (h_close h) c)"
      using c steadfast_trans [OF _ steadfast_internal [OF i]] by (simp add: P_def)
    ultimately show "P (close_immediately (h_close h) c)"
      using c i by (simp add: P_def receiving_side_def internal_def)
  next
    fix c
    assume "P c"
    then show "P (conn_close e c)"
      using says_later [of e "c_reads c" e' n' "c_tasks c" "Suc (c_reads c)"]
      by (auto simp: P_def conn_close_def read_wall_def steadfast_def receiving_side_def)
  qed
  then have c: "steadfast conn ?c" "receiving_side ?c = receiving_side conn"
      "st_ack_slice (c_state ?c) = [] \<and> st_win (c_state ?c) = st_win (c_state conn)"
      "list_all (\<lambda>m. says e (c_reads ?c) e' n' m \<and> brief m) (c_tasks ?c)"
    using live by (simp_all add: P_def live_def)
  then have later: "speaks e (c_reads ?c) e' n' mtu said conn"
    using speaks_later [OF me] by (simp add: steadfast_def)
  show ?thesis
    using speaker_steadfast [OF later c(1) live carries_tick [OF mtu slice] log c(4)] c(1-3) by simp
qed

end

text \<open>A step of one side keeps what both sides have agreed on.\<close>

context dialogue
begin

lemma closes_live:
  assumes "live (conn_close e conn)"
  shows "conn_close e conn = conn\<lparr>c_reads := Suc (c_reads conn)\<rparr>"
  using assms by (auto simp: conn_close_def read_wall_def live_def)

lemma move:
  assumes ok: "\<And>es. send_ok e es" and steady: "steady e"
    and step: "peer_step e h (set (emitted other)) (conn, said) (conn', said')"
    and live: "live conn'" and log: "length (c_log conn') < 2 ^ 24" and bound: "length said' \<le> 65536"
    and me: "speaks e (c_reads conn) e' (c_reads other) mtu said conn"
    and you: "hears_of e' (c_reads other) e (c_reads conn) mtu' sayings other"
    and inv: "consistent (unat mtu') sayings conn"
  shows "c_reads conn \<le> c_reads conn' \<and> speaks e (c_reads conn') e' (c_reads other) mtu said' conn'
    \<and> consistent (unat mtu') sayings conn' \<and> (\<exists>ms. said' = said @ ms)"
  using step
proof cases
  case (Hears d)
  then show ?thesis
    using move_hears [OF me you inv] live log speaks_later [OF _ , of e "c_reads conn" e' "c_reads other" mtu said conn']
    by (auto simp: steadfast_def)
next
  case (Writes m)
  have "\<not> c_closed conn" using me by (simp add: speaker_def sender_at_def)
  with Writes have b: "length said < 65536" "said' = said @ [m]" using bound by simp_all
  have w: "write_frame conn conn'" "speaks e (c_reads conn) e' (c_reads other) mtu said' conn'"
    using move_writes [OF ok me, of m] Writes b log by auto
  then have "receiving_side conn' = receiving_side conn" "c_reads conn \<le> c_reads conn'"
    by (simp_all add: write_frame_def)
  with w(2) show ?thesis using b(2) inv consistent_side speaks_later by blast
next
  case (Runs k)
  then have b: "length said < 65536" using bound by simp
  from move_runs [OF me Runs(3) _ b] run_task_fields [OF Runs(3), of e] Runs log
  show ?thesis using inv consistent_side [of conn' conn] speaks_later [of e "c_reads conn" e' "c_reads other" mtu said' conn' "c_reads conn'"] by auto
next
  case (Ticks n)
  then show ?thesis
    using move_ticks [OF steady me] live log inv consistent_side [of conn' conn] by (auto simp: steadfast_def)
next
  case Closes
  have "conn' = conn\<lparr>c_reads := Suc (c_reads conn)\<rparr>" using closes_live Closes live by simp
  then have f: "receiving_side conn' = receiving_side conn" "undisturbed conn conn'" "c_log conn' = c_log conn"
      "outbox conn' = outbox conn"
    by (simp_all add: receiving_side_def undisturbed_def steadfast_def)
  have "speaks e (c_reads conn) e' (c_reads other) mtu said conn'"
    using me f live log
    by (intro speaker_steadfast [OF me]) (auto simp: undisturbed_def speaker_def intro: carries_same)
  then show ?thesis
    using f inv Closes consistent_side [OF f(1)] speaks_later [of e "c_reads conn" e' "c_reads other" mtu said' conn' "c_reads conn'"]
    by (auto simp: undisturbed_def steadfast_def)
next
  case Closes_now
  then show ?thesis using live closes_at_once by (simp add: live_def)
qed

lemma live_before:
  assumes "peer_step e h wire (conn, said) (conn', said')" and "live conn'"
  shows "live conn" and "length (c_log conn) \<le> length (c_log conn')" and "length said \<le> length said'"
proof -
  have "evolves listed conn conn'"
    using assms(1)
    by cases
      (auto intro: evolves_receive evolves_conn_write evolves_run_task evolves_tick close_evolves evolves_conn_close)
  then show "live conn" "length (c_log conn) \<le> length (c_log conn')"
    using assms(2) evolves_log by (auto simp: live_def evolves_def)
  show "length said \<le> length said'" using assms(1) by cases auto
qed

end

section \<open>What waits after a step\<close>

lemma conn_write_awaits:
  assumes ok: "\<And>es. send_ok env es" and typed: "outbox_typed conn" and ahead: "ahead conn"
    and room: "next_seq conn + grown conn (fst (conn_write env data conn)) < 2 ^ 24"
    and open': "\<not> c_closed conn" and split: "split (env_profile env) data (effective_mtu conn) = Ok fragments"
    and j: "j < length fragments"
  shows "\<exists>message. u24_ok message \<and> fragment_packet (st_order_index (c_state conn)) (ucast (st_split_id (c_state conn)))
    (length fragments) j message (fragments ! j) \<in># awaiting (fst (conn_write env data conn))"
proof -
  let ?st = "(c_state conn)\<lparr>st_order_index := snd (u24_inc (st_order_index (c_state conn)))\<rparr>"
  let ?c = "conn\<lparr>c_state := if length fragments > 1 then ?st\<lparr>st_split_id := st_split_id (c_state conn) + 1\<rparr> else ?st\<rparr>"
  have w: "conn_write env data conn = write_fragments env (st_order_index (c_state conn))
      (ucast (st_split_id (c_state conn))) (length fragments) 0 fragments 0 ?c"
    using open' split by (simp add: conn_write_def write_locked_def u24_inc_def Let_def)
  have "outbox_typed ?c" "ahead ?c" "next_seq ?c = next_seq conn"
      "grown ?c (fst (conn_write env data conn)) = grown conn (fst (conn_write env data conn))"
    using typed ahead by (simp_all add: outbox_typed_def outbox_def ahead_def next_seq_def grown_def)
  with write_fragments_await [OF ok, of ?c "st_order_index (c_state conn)" "ucast (st_split_id (c_state conn))"
      "length fragments" 0 fragments 0 j] room j
  show ?thesis by (simp add: w)
qed

lemma run_task_awaits:
  assumes "k < length (c_tasks conn)" and "outbox_typed conn"
  shows "\<exists>message. u24_ok message \<and> packet_new\<lparr>content := c_tasks conn ! k,
    order_index := st_order_index (c_state conn), message_index := message\<rparr> \<in># awaiting (run_task env k conn)"
proof -
  let ?message = "st_message_index (c_state conn)"
  have "rm_pending (st_retransmission (c_state (run_task env k conn))) (u24 (st_seq (c_state conn)))
      = Some (packet_new\<lparr>content := c_tasks conn ! k, order_index := st_order_index (c_state conn), message_index := ?message\<rparr>)"
    using assms(1) by (simp add: run_task_def send_message_task_def read_clock_def chan_try_send_def emit_def
        u24_inc_def rm_pending_add Let_def)
  moreover have "u24_ok ?message" using assms(2) by (simp add: outbox_typed_def outbox_def)
  ultimately show ?thesis using pending_awaiting by blast
qed

text \<open>A datagram tells which fragment of the run it carries, and under which number.\<close>

lemma build_datagram_seq:
  assumes "u24_ok seq" and "u24_ok seq'" and "build_datagram seq q = build_datagram seq' q'"
  shows "seq = seq'"
proof -
  have eq: "write_uint24 [] seq @ packet_write q [] = write_uint24 [] seq' @ packet_write q' []"
    using assms(3) unfolding build_datagram_bytes by (rule list.inject [THEN iffD1, THEN conjunct2])
  have "(Ok seq :: Uint24 outcome) = Ok seq'"
    using arg_cong [OF eq, of load_uint24] assms(1,2) by simp
  then show ?thesis by simp
qed

lemma build_datagram_eq:
  assumes "u24_ok seq" and "u24_ok seq'" and "packet_wf q" and "packet_wf q'"
    and "build_datagram seq q = build_datagram seq' q'"
  shows "seq = seq'" and "packet_decoded packet_new q = packet_decoded packet_new q'"
proof -
  have eq: "write_uint24 [] seq @ packet_write q [] = write_uint24 [] seq' @ packet_write q' []"
    using assms(5) unfolding build_datagram_bytes by (rule list.inject [THEN iffD1, THEN conjunct2])
  show "seq = seq'" by (rule build_datagram_seq [OF assms(1,2,5)])
  then have "packet_write q [] = packet_write q' []" using eq by simp
  then have "packet_read packet_new (packet_write q [] @ []) = packet_read packet_new (packet_write q' [] @ [])" by simp
  then show "packet_decoded packet_new q = packet_decoded packet_new q'"
    unfolding packet_read_write [OF assms(3)] packet_read_write [OF assms(4)] by simp
qed

lemma datagram_fragment:
  assumes msgs: "sendables msgs" and mtu: "24 < mtu" "mtu < 8192" and seq: "u24_ok seq" "u24_ok seq'"
    and p: "p < length msgs" "i < length (msg_fragments mtu (msgs ! p))" "u24_ok message"
    and p': "p' < length msgs" "i' < length (msg_fragments mtu (msgs ! p'))" "u24_ok message'"
    and same: "build_datagram seq (msg_packet mtu msgs p i message) = build_datagram seq' (msg_packet mtu msgs p' i' message')"
  shows "seq = seq' \<and> p = p' \<and> i = i'"
proof -
  let ?q = "msg_packet mtu msgs p i message" and ?q' = "msg_packet mtu msgs p' i' message'"
  note eq = build_datagram_eq [OF seq msg_packet_wf [OF mtu msgs p] msg_packet_wf [OF mtu msgs p'] same]
  have dec: "packet_decoded packet_new ?q = packet_decoded packet_new ?q'" by (rule eq(2))
  have order: "order_index (packet_decoded packet_new (msg_packet mtu msgs p i message)) = msg_order p" for p i message
    by (simp add: packet_decoded_def msg_packet_def fragment_packet_def packet_new_def is_sequenced_or_ordered_def Let_def)
  note ordered = order [of p i message] order [of p' i' message']
  have "msg_order p = msg_order p'"
    using arg_cong [OF dec, of order_index] unfolding ordered .
  moreover have "p < 65536" "p' < 65536" using p(1) p'(1) msgs by (simp_all add: sendables_def)
  ultimately have pp: "p = p'" using msg_order_inner by metis
  note facts = msg_fragments_facts [OF mtu(1) sendables_nth [OF msgs p(1)]]
  have "i = i'"
  proof (cases "msg_split mtu (msgs ! p)")
    case True
    then have long: "1 < length (msg_fragments mtu (msgs ! p))" using facts(3) by simp
    have index: "split_index (packet_decoded packet_new (msg_packet mtu msgs p i message)) = of_nat i" for i message
      using long by (simp add: packet_decoded_def msg_packet_def fragment_packet_def Let_def)
    have "(of_nat i :: u32) = of_nat i'"
      using arg_cong [OF dec, of split_index] unfolding pp [symmetric] index .
    then have "unat (of_nat i :: u32) = unat (of_nat i' :: u32)" by simp
    moreover have "i < 2 ^ 32" "i' < 2 ^ 32" using facts(5) p(2) p'(2) unfolding pp by linarith+
    ultimately show ?thesis by (simp add: unsigned_of_nat take_bit_nat_eq_self)
  next
    case False
    then have "length (msg_fragments mtu (msgs ! p)) = 1" using facts(3,4) by linarith
    with p(2) p'(2) show ?thesis unfolding pp by linarith
  qed
  with eq(1) pp show ?thesis by (intro conjI)
qed

context dialogue
begin

text \<open>Only hearing touches the receiving side, and only an acknowledgement releases what waits.\<close>

lemma step_frame:
  assumes ok: "\<And>es. send_ok e es" and steady: "steady e" and step: "peer_step e h wire (conn, said) (conn', said')"
    and live: "live conn'" and log: "length (c_log conn') < 2 ^ 24"
    and me: "speaks e (c_reads conn) e' n' mtu said conn"
  shows "(\<exists>x \<in> wire. said' = said \<and> conn' = fst (conn_receive e h x conn))
    \<or> retains True conn conn' \<and> receiving_side conn' = receiving_side conn
      \<and> st_win (c_state conn') = st_win (c_state conn)
      \<and> set (st_ack_slice (c_state conn')) \<subseteq> set (st_ack_slice (c_state conn))"
  using step
proof cases
  case (Writes m)
  have s: "24 < unat mtu" "sender_at mtu said (length said) conn" using me by (simp_all add: speaker_def)
  then have "\<exists>c. conn_write e m conn = (c, Ok (length m)) \<and> write_frame conn c"
    using conn_write_sent [OF ok user_message_sendable [OF Writes(3)], of conn mtu] by (auto simp: sender_at_def Let_def)
  then show ?thesis using Writes retains_conn_write [OF ok, of True conn m] by (auto simp: write_frame_def)
next
  case (Runs k)
  then show ?thesis using run_task_fields [OF Runs(3), of e] retains_run_task [of True conn e k] by auto
next
  case (Ticks n)
  then show ?thesis using move_ticks [OF steady me, of n] live log retains_tick [of True conn e n] by auto
next
  case Closes
  then have "conn' = conn\<lparr>c_reads := Suc (c_reads conn)\<rparr>" using closes_live live by simp
  then show ?thesis using retains_read by (simp add: receiving_side_def)
next
  case Closes_now
  then show ?thesis using live closes_at_once by (simp add: live_def)
qed auto

lemma step_carries:
  assumes "\<And>es. send_ok e es" and "peer_step e h wire (conn, said) (conn', said')"
    and "7 \<le> effective_mtu conn" and "list_all u24_ok (st_ack_slice (c_state conn))"
    and "set (st_ack_slice (c_state conn)) \<subseteq> ns"
  shows "carries (\<lambda>_. True) ns conn conn'"
  using assms(2)
proof cases
  case Closes
  then show ?thesis by (intro carries_same) (simp_all add: conn_close_def read_wall_def outbox_def)
qed (simp_all add: carries_receive [OF assms(3)] carries_conn_write [OF assms(1)] carries_run_task
    carries_tick [OF assms(3-5)] carries_close_immediately)

text \<open>What was said last waits.\<close>

lemma step_says:
  assumes ok: "\<And>es. send_ok e es" and step: "peer_step e h wire (conn, said) (conn', said')"
    and log: "length (c_log conn') < 2 ^ 24" and bound: "length said' \<le> 65536"
    and me: "speaks e (c_reads conn) e' n' mtu said conn"
  shows "said' = said \<or> (\<exists>m. said' = said @ [m] \<and> (\<forall>i < length (msg_fragments (unat mtu) m).
    \<exists>message. u24_ok message \<and> msg_packet (unat mtu) said' (length said) i message \<in># awaiting conn'))"
  using step
proof cases
  case (Writes m)
  let ?k = "length said"
  have s: "24 < unat mtu" "sender_at mtu said ?k conn" "sound (run_packet (unat mtu) said) UNIV conn" "sendables said"
    using me by (simp_all add: speaker_def)
  then have open': "\<not> c_closed conn" "effective_mtu conn = mtu" "st_order_index (c_state conn) = msg_order ?k"
    by (simp_all add: sender_at_def)
  have said': "said' = said @ [m]" using Writes open'(1) by simp
  have at: "sender_at mtu said' ?k conn" using s(2) by (simp add: said' sender_at_append)
  have sid: "ucast (st_split_id (c_state conn)) = msg_split_id (unat mtu) said' ?k"
    by (rule sender_at_split_id [OF at bound])
  have len: "m \<noteq> []" "length m < 2 ^ 64" using Writes(3) by (simp_all add: user_message_def)
  have split: "split (env_profile e) m (effective_mtu conn) = Ok (msg_fragments (unat mtu) m)"
    unfolding msg_fragments_def open'(2) by (rule split_eq_fragments_of [OF s(1) len])
  have "length (c_log conn) \<le> length (c_log conn')"
    using retains_conn_write [OF ok, of True conn m] Writes by (simp add: retains_def)
  then have room: "next_seq conn + grown conn (fst (conn_write e m conn)) < 2 ^ 24"
    using s(3) log Writes unfolding sound_def grown_def by (simp, linarith)
  have "\<exists>message. u24_ok message \<and> msg_packet (unat mtu) said' ?k i message \<in># awaiting conn'"
    if "i < length (msg_fragments (unat mtu) m)" for i
    using conn_write_awaits [OF ok _ _ room open'(1) split that] s(3)
    unfolding sid open'(3) Writes(1) by (simp add: sound_def msg_packet_def said' nth_append Let_def)
  with said' show ?thesis by blast
next
  case (Runs k)
  have s: "372 \<le> unat mtu" "sound (run_packet (unat mtu) said) UNIV conn" "sender_at mtu said (length said) conn"
    using me by (simp_all add: speaker_def)
  have m: "brief (c_tasks conn ! k)" using me Runs(3) by (simp add: speaker_def list_all_length)
  have order: "st_order_index (c_state conn) = msg_order (length said)" using s(3) by (simp add: sender_at_def)
  have "\<exists>message. u24_ok message \<and> msg_packet (unat mtu) said' (length said) 0 message \<in># awaiting conn'"
    using run_task_awaits [OF Runs(3), of e] s(2) brief_packet [OF m s(1)] unfolding Runs order by (simp add: sound_def)
  then show ?thesis using Runs(2) brief_fragments(3) [OF m s(1)] by auto
qed auto

end

end
