(* ===== verification/Keeping.thy ===== *)
theory Keeping
  imports Peers
begin

text \<open>
  What is kept on the way from one side of a conversation to the other. Every fragment of what one
  side has said is held by the other side or still waits for its acknowledgement, and the other
  side acknowledges only what it holds; both sides keep this in every step, as long as no limit
  refuses a datagram. So when nothing waits any more, everything has been delivered.
\<close>

section \<open>What gets through\<close>

text \<open>
  The numbers of the datagrams of one side, \<open>l\<close>, whose fragment the other side, \<open>d\<close>, holds. As long as no
  limit refuses a datagram \<open>d\<close> acknowledges only these, and every fragment of what \<open>l\<close> has said is
  held or still waits at \<open>l\<close>.
\<close>

definition got_through :: "nat \<Rightarrow> bytes list \<Rightarrow> Conn \<Rightarrow> Conn \<Rightarrow> Uint24 set" where
  "got_through mtu said l d = {seq. u24_ok seq \<and> (\<exists>p i message. p < length said
     \<and> i < length (msg_fragments mtu (said ! p)) \<and> u24_ok message
     \<and> build_datagram seq (msg_packet mtu said p i message) \<in> set (emitted l) \<and> held mtu said p i d)}"

text \<open>\<open>d\<close> has seen no number beyond those of the datagrams of \<open>l\<close>.\<close>

definition window_behind :: "Conn \<Rightarrow> Conn \<Rightarrow> bool" where
  "window_behind l d \<longleftrightarrow> (\<forall>N < 2 ^ 24.
     (\<forall>seq pk. u24_ok seq \<and> build_datagram seq pk \<in> set (emitted l) \<longrightarrow> unat (u24 seq) < N) \<longrightarrow> window_below N d)"

lemma window_behind_mono:
  "window_behind l d \<Longrightarrow> set (emitted l) \<subseteq> set (emitted l') \<Longrightarrow> window_behind l' d"
  unfolding window_behind_def by blast

lemma window_behind_same: "st_win (c_state d') = st_win (c_state d) \<Longrightarrow> window_behind l d' = window_behind l d"
  by (simp add: window_behind_def window_below_def)

definition kept :: "nat \<Rightarrow> bytes list \<Rightarrow> Conn \<Rightarrow> Conn \<Rightarrow> bool" where
  "kept mtu said l d \<longleftrightarrow> settled d \<and> window_behind l d \<and> sound (\<lambda>_. True) (got_through mtu said l d) d
     \<and> set (st_ack_slice (c_state d)) \<subseteq> got_through mtu said l d
     \<and> (\<forall>p < length said. \<forall>i < length (msg_fragments mtu (said ! p)).
          held mtu said p i d \<or> (\<exists>message. u24_ok message \<and> msg_packet mtu said p i message \<in># awaiting l))"

lemma got_through_mono:
  assumes "set (emitted l) \<subseteq> set (emitted l')"
    and "\<And>p i. p < length said \<Longrightarrow> held mtu said p i d \<Longrightarrow> held mtu said p i d'"
  shows "got_through mtu said l d \<subseteq> got_through mtu (said @ ms) l' d'"
proof
  fix seq
  assume "seq \<in> got_through mtu said l d"
  then obtain p i message where "u24_ok seq" and p: "p < length said" "i < length (msg_fragments mtu (said ! p))" "u24_ok message"
      "build_datagram seq (msg_packet mtu said p i message) \<in> set (emitted l)" "held mtu said p i d"
    unfolding got_through_def by blast
  moreover have "(said @ ms) ! p = said ! p" using p(1) by (simp add: nth_append)
  moreover have "p < length (said @ ms)" using p(1) by simp
  moreover have "build_datagram seq (msg_packet mtu (said @ ms) p i message) \<in> set (emitted l')"
    using p(4) assms(1) by (auto simp: msg_packet_append [OF p(1)])
  moreover have "held mtu (said @ ms) p i d'" using assms(2) [OF p(1,5)] by (simp add: held_append [OF p(1)])
  ultimately show "seq \<in> got_through mtu (said @ ms) l' d'" unfolding got_through_def mem_Collect_eq by metis
qed

lemma window_behind_next:
  assumes "window_behind l d" and "sound Q ns l"
  shows "window_below (next_seq l) d"
proof -
  have "u24_ok (st_seq (c_state l))" using assms(2) by (simp add: sound_def outbox_typed_def outbox_def)
  then have "next_seq l < 2 ^ 24" by (simp add: next_seq_def u24_ok_iff_unat)
  moreover have "unat (u24 seq) < next_seq l" if x: "u24_ok seq" "build_datagram seq pk \<in> set (emitted l)" for seq pk
  proof -
    have "\<not> control ns (build_datagram seq pk)" by (simp add: control_def reports_def build_datagram_bytes flag_defs)
    then obtain seq' q where "u24_ok seq'" "u24 seq' < u24 (st_seq (c_state l))" "build_datagram seq pk = build_datagram seq' q"
      using assms(2) x(2) unfolding sound_def outgoing_def carried_def by blast
    then show ?thesis using build_datagram_seq [OF x(1)] by (auto simp: next_seq_def word_less_nat_alt)
  qed
  ultimately show ?thesis using assms(1) unfolding window_behind_def by blast
qed

lemma awaiting_run:
  assumes "sound Q ns l" and "pk \<in># awaiting l"
  shows "Q pk"
proof -
  have "outbox_typed l" using assms(1) by (simp add: sound_def)
  then obtain i where "rm_pending (st_retransmission (c_state l)) i = Some pk" using assms(2) by (rule awaiting_pending)
  then show ?thesis using assms(1) by (auto simp: sound_def outgoing_def)
qed

text \<open>
  An acknowledgement releases only what \<open>d\<close> holds: its numbers are of datagrams that \<open>l\<close> has
  put on the wire, and a number waits for the packet its datagram carried.
\<close>

lemma acknowledged_held:
  assumes l: "speaker T mtu said l" and kept: "kept (unat mtu) said l d"
    and x: "x \<in> set (emitted d)" "acknowledges x"
    and p: "p < length said" "i < length (msg_fragments (unat mtu) (said ! p))" "u24_ok message"
    and waits: "msg_packet (unat mtu) said p i message \<in># awaiting l"
  shows "held (unat mtu) said p i d \<or> msg_packet (unat mtu) said p i message \<in># awaiting (fst (conn_receive e h x l))"
proof -
  let ?mtu = "unat mtu" and ?pk = "msg_packet (unat mtu) said p i message"
  have said: "sendables said" "24 < ?mtu" "?mtu < 8192" and s: "sound (run_packet ?mtu said) UNIV l"
    using l by (simp_all add: speaker_def)
  obtain b rest where b: "x = b # rest" "b AND BIT_FLAG_ACK \<noteq> 0" using x(2) by (cases x) auto
  have "control (got_through ?mtu said l d) x \<or> (\<exists>seq q. x = build_datagram seq q)"
    using kept x(1) unfolding kept_def sound_def outgoing_def carried_def by blast
  then have reports: "reports BIT_FLAG_ACK (got_through ?mtu said l d) x"
    using b by (auto simp: control_def reports_def build_datagram_bytes flag_defs)
  let ?c = "l\<lparr>c_reads := Suc (c_reads l), c_last_activity := clock e (c_reads l)\<rparr>"
  have r: "conn_receive e h x l = handle_ack e rest ?c"
    using b by (simp add: conn_receive_def read_clock_def Let_def)
  obtain ps r' where read: "ack_read (env_profile e) [] rest = (ps, r')" by fastforce
  have "outbox_typed l" using s by (simp add: sound_def)
  then obtain k where k: "rm_pending (st_retransmission (c_state l)) k = Some ?pk"
    using waits by (rule awaiting_pending)
  show ?thesis
  proof (cases "r' = Ok () \<and> k \<in> u24 ` set ps")
    case True
    then obtain n where n: "n \<in> set ps" "k = u24 n" by blast
    then have "n \<in> got_through ?mtu said l d" using reports read True b(1) unfolding reports_def by auto
    then obtain p' i' message' where ok: "u24_ok n" and p': "p' < length said" "i' < length (msg_fragments ?mtu (said ! p'))"
        "u24_ok message'" and sent: "build_datagram n (msg_packet ?mtu said p' i' message') \<in> set (emitted l)"
        and held: "held ?mtu said p' i' d" unfolding got_through_def by blast
    let ?y = "build_datagram n (msg_packet ?mtu said p' i' message')"
    have "\<not> control ns ?y" for ns by (simp add: control_def reports_def build_datagram_bytes flag_defs)
    then obtain seq q where q: "run_packet ?mtu said q" "u24_ok seq" "?y = build_datagram seq q"
        "\<And>q'. rm_pending (st_retransmission (c_state l)) (u24 seq) = Some q' \<Longrightarrow> q' = q"
      using s sent unfolding sound_def outgoing_def carried_def by blast
    from q(1) obtain p2 i2 message2 where p2: "p2 < length said" "i2 < length (msg_fragments ?mtu (said ! p2))"
        "u24_ok message2" "q = msg_packet ?mtu said p2 i2 message2" unfolding run_packet_def by blast
    have "n = seq" using datagram_fragment [OF said ok q(2) p' p2(1-3)] q(3) p2(4) by simp
    then have "?pk = q" using q(4) k n(2) by simp
    then have "?y = build_datagram n ?pk" using q(3) \<open>n = seq\<close> by simp
    then have "p' = p \<and> i' = i" using datagram_fragment [OF said ok ok p' p] by simp
    with held show ?thesis by simp
  next
    case False
    have "rm_pending (st_retransmission (c_state (fst (handle_ack e rest ?c)))) k = Some ?pk"
      using False k acknowledge_all_fields [of e ps ?c] read
      by (cases r') (auto simp: handle_ack_def split: unit.split)
    then show ?thesis using pending_awaiting unfolding r by blast
  qed
qed

section \<open>The steps of the two sides\<close>

context dialogue
begin

text \<open>A step of the one who listens: it holds more, and acknowledges what it holds.\<close>

lemma kept_hearer:
  assumes ok: "\<And>es. send_ok e es" and steady: "steady e" and step: "peer_step e h wire (d, ds) (d', ds')"
    and wire: "wire \<subseteq> set (emitted l)" and fine: "\<And>x. x \<in> wire \<Longrightarrow> unrefused e h (snd (conn_receive e h x d))"
    and live: "live d'" and log: "length (c_log d') < 2 ^ 24" and l: "speaker T mtu said l"
    and d: "speaks e (c_reads d) e' n' mtu' ds d" "consistent (unat mtu) said d" and kept: "kept (unat mtu) said l d"
  shows "kept (unat mtu) said l d'"
proof -
  let ?mtu = "unat mtu"
  have m: "7 \<le> effective_mtu d" "list_all u24_ok (st_ack_slice (c_state d))"
    using d(1) speaker_mtu by (blast, simp add: speaker_def)
  have said: "sendables said" "24 < ?mtu" "?mtu < 8192" using l by (simp_all add: speaker_def)
  have k: "settled d" "window_behind l d" "sound (\<lambda>_. True) (got_through ?mtu said l d) d" "set (st_ack_slice (c_state d)) \<subseteq> got_through ?mtu said l d"
    using kept by (simp_all add: kept_def)
  have hold: "settled d' \<and> window_behind l d' \<and> (\<forall>p i. p < length said \<longrightarrow> held ?mtu said p i d \<longrightarrow> held ?mtu said p i d')
      \<and> set (st_ack_slice (c_state d')) \<subseteq> set (st_ack_slice (c_state d)) \<union> got_through ?mtu said l d'"
    using step_frame [OF ok steady step live log d(1)]
  proof
    assume "\<exists>x \<in> wire. ds' = ds \<and> d' = fst (conn_receive e h x d)"
    then obtain x where "x \<in> wire" and x: "x \<in> set (emitted l)" "d' = fst (conn_receive e h x d)" using wire by blast
    then have u: "unrefused e h (snd (conn_receive e h x d))" using fine by blast
    from speaker_wire [OF l x(1)] show ?thesis
    proof
      assume "control UNIV x"
      from conn_receive_control [OF this, of e d] x(2) k(1,2) show ?thesis
        using settled_side [of d' d] held_side [of d' d] window_behind_same [of d' d l] by (simp add: undisturbed_def)
    next
      assume "\<exists>seq pk. u24_ok seq \<and> run_packet ?mtu said pk \<and> x = build_datagram seq pk"
      then obtain seq p i message where seq: "u24_ok seq" and p: "p < length said" "i < length (msg_fragments ?mtu (said ! p))"
          "u24_ok message" and eq: "x = build_datagram seq (msg_packet ?mtu said p i message)"
        unfolding run_packet_def by blast
      note h = held_receive [OF u [unfolded eq] d(2) k(1) said p, folded eq x(2)]
      have "set (st_ack_slice (c_state d')) \<subseteq> insert seq (set (st_ack_slice (c_state d)))"
        using conn_receive_data [OF m(1) seq] by (simp add: x(2) eq)
      moreover have "seq \<in> got_through ?mtu said l d'" if "st_ack_slice (c_state d') \<noteq> st_ack_slice (c_state d)"
        using h that seq p x(1) unfolding got_through_def eq by blast
      moreover have "window_behind l d'"
        unfolding window_behind_def
      proof (intro allI impI)
        fix N :: nat
        assume "N < 2 ^ 24" and N: "\<forall>seq pk. u24_ok seq \<and> build_datagram seq pk \<in> set (emitted l) \<longrightarrow> unat (u24 seq) < N"
        then have "window_below N d" using k(2) unfolding window_behind_def by blast
        moreover have "unat (u24 seq) < N" using N seq x(1) eq by blast
        ultimately show "window_below N d'"
          using conn_receive_window [OF m(1) seq _ _ \<open>N < 2 ^ 24\<close>] unfolding x(2) eq by blast
      qed
      ultimately show ?thesis using h by (cases "st_ack_slice (c_state d') = st_ack_slice (c_state d)") auto
    qed
  next
    assume "retains True d d' \<and> receiving_side d' = receiving_side d \<and> st_win (c_state d') = st_win (c_state d)
      \<and> set (st_ack_slice (c_state d')) \<subseteq> set (st_ack_slice (c_state d))"
    then show ?thesis using k(1,2) settled_side [of d' d] held_side [of d' d] window_behind_same [of d' d l] by auto
  qed
  have more: "got_through ?mtu said l d \<subseteq> got_through ?mtu said l d'"
    using got_through_mono [of l l said ?mtu d d' "[]"] hold by simp
  have "sound (\<lambda>_. True) (got_through ?mtu said l d) d'"
    by (rule carries_sound [OF step_carries [OF ok step m k(4)] k(3) log])
  then have "sound (\<lambda>_. True) (got_through ?mtu said l d') d'" by (rule sound_mono) (use more in auto)
  then show ?thesis using hold more k(4) kept unfolding kept_def by blast
qed

text \<open>A step of the one who speaks: what it says waits, and goes on waiting until the other one holds it.\<close>

lemma kept_speaker:
  assumes ok: "\<And>es. send_ok e es" and steady: "steady e" and step: "peer_step e h wire (l, said) (l', said')"
    and wire: "wire \<subseteq> set (emitted d)" and live: "live l'" and log: "length (c_log l') < 2 ^ 24"
    and bound: "length said' \<le> 65536" and l: "speaks e (c_reads l) e' n' mtu said l" and kept: "kept (unat mtu) said l d"
  shows "kept (unat mtu) said' l' d"
proof -
  let ?mtu = "unat mtu"
  have m: "7 \<le> effective_mtu l" "list_all u24_ok (st_ack_slice (c_state l))"
    using l speaker_mtu by (blast, simp add: speaker_def)
  have s: "sound (run_packet ?mtu said) UNIV l" using l by (simp add: speaker_def)
  have emitted: "set (emitted l) \<subseteq> set (emitted l')"
    using step_carries [OF ok step m subset_UNIV] by (simp add: carries_def)
  note grows = step_says [OF ok step log bound l]
  then obtain ms where ms: "said' = said @ ms" by auto
  have more: "got_through ?mtu said l d \<subseteq> got_through ?mtu said' l' d"
    unfolding ms by (rule got_through_mono [OF emitted])
  have "sound (\<lambda>_. True) (got_through ?mtu said' l' d) d"
    using kept more by (auto simp: kept_def intro: sound_mono)
  moreover have "held ?mtu said' p i d \<or> (\<exists>message. u24_ok message \<and> msg_packet ?mtu said' p i message \<in># awaiting l')"
    if p: "p < length said'" "i < length (msg_fragments ?mtu (said' ! p))" for p i
  proof (cases "p < length said")
    case True
    then have same: "said' ! p = said ! p" "held ?mtu said' p i d = held ?mtu said p i d"
        "msg_packet ?mtu said' p i message = msg_packet ?mtu said p i message" for message
      by (simp_all add: ms nth_append held_append msg_packet_append)
    have "held ?mtu said p i d \<or> (\<exists>message. u24_ok message \<and> msg_packet ?mtu said p i message \<in># awaiting l')"
    proof (cases "held ?mtu said p i d")
      case False
      then obtain message where w: "u24_ok message" "msg_packet ?mtu said p i message \<in># awaiting l"
        using kept True p(2) same(1) unfolding kept_def by metis
      have retained: "msg_packet ?mtu said p i message \<in># awaiting l'" if "retains True l l'"
      proof -
        have "length (c_log l) \<le> length (c_log l')" using that by (simp add: retains_def)
        then have "next_seq l + grown l l' < 2 ^ 24" using s log unfolding sound_def grown_def by linarith
        then have "awaiting l \<subseteq># awaiting l'" using that s by (simp add: retains_def sound_def)
        then show ?thesis using w(2) by (rule mset_subset_eqD)
      qed
      show ?thesis
        using step_frame [OF ok steady step live log l]
      proof
        assume "\<exists>x \<in> wire. said' = said \<and> l' = fst (conn_receive e h x l)"
        then obtain x where x: "x \<in> set (emitted d)" "l' = fst (conn_receive e h x l)" using wire by blast
        show ?thesis
        proof (cases "acknowledges x")
          case ack: True
          from acknowledged_held [OF l kept x(1) ack True _ w] p(2) same(1) x(2) w(1) show ?thesis by auto
        next
          case False
          then show ?thesis using retains_receive [of x l e] retained w(1) x(2) by auto
        qed
      qed (use retained w(1) in blast)
    qed simp
    then show ?thesis by (simp add: same)
  next
    case False
    with p(1) grows obtain msg where msg: "said' = said @ [msg]" "p = length said"
        "\<forall>i < length (msg_fragments ?mtu msg). \<exists>message. u24_ok message
          \<and> msg_packet ?mtu said' (length said) i message \<in># awaiting l'" by (auto simp: less_Suc_eq)
    then show ?thesis using p(2) by simp
  qed
  ultimately show ?thesis using kept more window_behind_mono [OF _ emitted] unfolding kept_def by blast
qed

end

section \<open>Delivery\<close>

text \<open>What is held completely has been delivered.\<close>

lemma held_delivered:
  assumes "settled d" and "consistent mtu said d" and "sendables said" and "24 < mtu"
    and held: "\<And>p i. p < length said \<Longrightarrow> i < length (msg_fragments mtu (said ! p)) \<Longrightarrow> held mtu said p i d"
  shows "user_packets (c_log d) = for_user said"
proof -
  have "caught_up (st_packet_queue (c_state d))" using assms(1) by (simp add: settled_def)
  from seen_delivered [OF assms(2) this order_refl assms(3)] held_message_seen [OF assms(2,1,3,4)] held
  obtain n where "length said \<le> n" "user_packets (c_log d) = for_user (take n said)" by blast
  then show ?thesis by simp
qed

end
