(* ===== verification/Conversation.thy ===== *)
theory Conversation
  imports Keeping Dial "HOL-Library.Sublist"
begin

text \<open>
  A listener's and a dialer's connection that talk to each other: every interleaving of the steps
  of the two sides is a run of \<open>conversation_step\<close>, and the network may lose, repeat, delay and
  reorder what they send. Both users get what the other one writes, in order; and when nothing of
  a listener awaits its acknowledgement any more, the dialer's user has got all of it.
\<close>

section \<open>Conversations\<close>

text \<open>A listener's connection and a dialer's; either side may take the next step.\<close>

inductive conversation_step :: "env \<Rightarrow> env \<Rightarrow> peer \<times> peer \<Rightarrow> peer \<times> peer \<Rightarrow> bool" for env env' where
  Listener_steps: "peer_step env listener_handler (set (emitted (fst d))) l l' \<Longrightarrow>
    conversation_step env env' (l, d) (l', d)"
| Dialer_steps: "peer_step env' dialer_handler (set (emitted (fst l))) d d' \<Longrightarrow>
    conversation_step env env' (l, d) (l, d')"

inductive_cases conversation_stepE: "conversation_step env env' (l, d) s"

abbreviation conversation :: "env \<Rightarrow> env \<Rightarrow> peer \<times> peer \<Rightarrow> peer \<times> peer \<Rightarrow> bool" where
  "conversation env env' \<equiv> (conversation_step env env')\<^sup>*\<^sup>*"

text \<open>
  The conversations in which the listener's connection refuses nothing: it hears only datagrams that
  it receives without an error. The first error makes the listener block the sender.
\<close>

definition unrejected :: "env \<Rightarrow> Conn \<Rightarrow> Conn \<Rightarrow> bytes set" where
  "unrejected env d l = {x \<in> set (emitted d). snd (conn_receive env listener_handler x l) = Ok ()}"

inductive smooth_step :: "env \<Rightarrow> env \<Rightarrow> peer \<times> peer \<Rightarrow> peer \<times> peer \<Rightarrow> bool" for env env' where
  Smooth_listener: "peer_step env listener_handler (unrejected env (fst d) (fst l)) l l' \<Longrightarrow> smooth_step env env' (l, d) (l', d)"
| Smooth_dialer: "peer_step env' dialer_handler (set (emitted (fst l))) d d' \<Longrightarrow> smooth_step env env' (l, d) (l, d')"

inductive_cases smooth_stepE: "smooth_step env env' (l, d) s"

abbreviation smooth_conversation :: "env \<Rightarrow> env \<Rightarrow> peer \<times> peer \<Rightarrow> peer \<times> peer \<Rightarrow> bool" where
  "smooth_conversation env env' \<equiv> (smooth_step env env')\<^sup>*\<^sup>*"

lemma peer_step_mono: "peer_step env h wire p p' \<Longrightarrow> wire \<subseteq> wire' \<Longrightarrow> peer_step env h wire' p p'"
  by (induction rule: peer_step.induct) (blast intro: peer_step.intros)+

lemma smooth_conversation_step:
  assumes "smooth_step env env' s s'"
  shows "conversation_step env env' s s'"
  using assms
proof cases
  case (Smooth_listener d l l')
  then have "peer_step env listener_handler (set (emitted (fst d))) l l'"
    using peer_step_mono [of env listener_handler "unrejected env (fst d) (fst l)"] by (simp add: unrejected_def)
  then show ?thesis unfolding Smooth_listener by (rule Listener_steps)
qed (auto intro: Dialer_steps)

text \<open>
  How it starts: the listener has made a connection, and the dialer one that is about to send its
  connection request.
\<close>

definition conversation_start ::
  "env \<Rightarrow> SocketAddr \<Rightarrow> u16 \<Rightarrow> instant \<Rightarrow> SocketAddr \<Rightarrow> u64 \<Rightarrow> u16 \<Rightarrow> instant \<Rightarrow> peer \<times> peer" where
  "conversation_start env' addr mtu now addr' guid mtu' now' =
     ((conn_new addr mtu now, []), (fst (dial_start env' addr' guid mtu' now'), []))"

text \<open>The run stayed within the counters, and both sides are still there.\<close>

definition within :: "peer \<Rightarrow> bool" where
  "within p \<longleftrightarrow> live (fst p) \<and> length (c_log (fst p)) < 2 ^ 24 \<and> length (snd p) \<le> 65536"

definition agreed :: "env \<Rightarrow> env \<Rightarrow> u16 \<Rightarrow> u16 \<Rightarrow> peer \<times> peer \<Rightarrow> bool" where
  "agreed env env' mtu mtu' s \<longleftrightarrow> (case s of ((l, said), (d, said')) \<Rightarrow>
     speaker (listener_says env (c_reads l) env' (c_reads d)) mtu said l
     \<and> speaker (dialer_says env' (c_reads d) env (c_reads l)) mtu' said' d
     \<and> consistent (unat mtu') said' l \<and> consistent (unat mtu) said d)"

lemma agreed_step:
  assumes "\<And>es. send_ok env es" and "\<And>es. send_ok env' es" and "steady env" and "steady env'"
    and "conversation_step env env' (l, d) (l', d')" and "within l'" and "within d'"
    and "agreed env env' mtu mtu' (l, d)"
  shows "agreed env env' mtu mtu' (l', d')"
  using assms(5)
proof (cases rule: conversation_step.cases)
  case Listener_steps
  obtain lc ls lc' ls' dc ds where p: "l = (lc, ls)" "l' = (lc', ls')" "d = (dc, ds)" by (cases l; cases l'; cases d)
  note a = assms(8) [unfolded agreed_def p prod.case]
  have m: "c_reads lc \<le> c_reads lc'" "speaker (listener_says env (c_reads lc') env' (c_reads dc)) mtu ls' lc'"
      "consistent (unat mtu') ds lc'" "\<exists>ms. ls' = ls @ ms"
    using listening.move [OF assms(1,3), of dc lc ls lc' ls' env' mtu mtu' ds] Listener_steps p assms(6) a
    by (auto simp: within_def)
  then have "speaker (dialer_says env' (c_reads dc) env (c_reads lc')) mtu' ds dc"
    using a dialer_says_mono by (auto intro: speaker_mono)
  with m a Listener_steps p consistent_append show ?thesis by (auto simp: agreed_def)
next
  case Dialer_steps
  obtain lc ls dc ds dc' ds' where p: "l = (lc, ls)" "d = (dc, ds)" "d' = (dc', ds')" by (cases l; cases d; cases d')
  note a = assms(8) [unfolded agreed_def p prod.case]
  have m: "c_reads dc \<le> c_reads dc'" "speaker (dialer_says env' (c_reads dc') env (c_reads lc)) mtu' ds' dc'"
      "consistent (unat mtu) ls dc'" "\<exists>ms. ds' = ds @ ms"
    using dialing.move [OF assms(2,4), of lc dc ds dc' ds' env mtu' mtu ls] Dialer_steps p assms(7) a
    by (auto simp: within_def)
  then have "speaker (listener_says env (c_reads lc) env' (c_reads dc')) mtu ls lc"
    using a listener_says_mono by (auto intro: speaker_mono)
  with m a Dialer_steps p consistent_append show ?thesis by (auto simp: agreed_def)
qed

lemma within_before:
  assumes "conversation_step env env' (l, d) (l', d')" and "within l'" and "within d'"
  shows "within l \<and> within d"
  using assms(1)
proof (cases rule: conversation_step.cases)
  case Listener_steps
  then show ?thesis
    using assms(2,3) listening.live_before [of env "set (emitted (fst d))" "fst l" "snd l" "fst l'" "snd l'"]
    by (auto simp: within_def)
next
  case Dialer_steps
  then show ?thesis
    using assms(2,3) dialing.live_before [of env' "set (emitted (fst l))" "fst d" "snd d" "fst d'" "snd d'"]
    by (auto simp: within_def)
qed

text \<open>Before the first step.\<close>

lemma effective_mtu_least: "372 \<le> unat (effective_mtu (conn_new addr mtu now))"
proof -
  have "400 \<le> clamp_mtu mtu" by (auto simp: clamp_mtu_def MIN_MTU_SIZE_def MAX_MTU_SIZE_def min_def max_def)
  then show ?thesis by (simp add: effective_mtu_def conn_new_def unat_sub word_le_nat_alt)
qed

lemma speaker_new: "speaker T (effective_mtu (conn_new addr mtu now)) [] (conn_new addr mtu now)"
proof -
  have "c_tasks (conn_new addr mtu now) = []" "st_ack_slice (c_state (conn_new addr mtu now)) = []"
    by (simp_all add: conn_new_def conn_state_new_def)
  then show ?thesis
    using effective_mtu_least effective_mtu_new sender_at_new [of addr mtu now "[]"] sound_new
    by (simp add: speaker_def sendables_def)
qed

lemma dial_start_conn:
  obtains request where "connection_request_write (connection_request_new guid (stamp env 0)) = Ok request"
    and "fst (dial_start env addr guid mtu now) = (conn_new addr mtu now)\<lparr>c_reads := 1, c_tasks := [request]\<rparr>"
proof -
  obtain request where r: "connection_request_write (connection_request_new guid (stamp env 0)) = Ok request"
    by (simp add: connection_request_write_def)
  have "c_reads (conn_new addr mtu now) = 0" "c_tasks (conn_new addr mtu now) = []" by (simp_all add: conn_new_def)
  then have "fst (dial_start env addr guid mtu now) = (conn_new addr mtu now)\<lparr>c_reads := 1, c_tasks := [request]\<rparr>"
    using r by (simp add: dial_start_def timestamp_stamp send_message_def Let_def)
  with r show ?thesis by (rule that)
qed

lemma dial_start_fields:
  "c_mtu (fst (dial_start env addr guid mtu now)) = c_mtu (conn_new addr mtu now)"
  "c_state (fst (dial_start env addr guid mtu now)) = conn_state_new"
  "c_log (fst (dial_start env addr guid mtu now)) = []"
  "receiving_side (fst (dial_start env addr guid mtu now)) = receiving_side (conn_new addr mtu now)"
  by (rule dial_start_conn [of guid env addr mtu now]; simp add: conn_new_def receiving_side_def)+

lemma agreed_start:
  assumes "conversation_start env' addr mtu now addr' guid mtu' now' = (l, d)"
  shows "agreed env env' (effective_mtu (fst l)) (effective_mtu (fst d)) (l, d)"
proof -
  let ?l = "conn_new addr mtu now" and ?n = "conn_new addr' mtu' now'" and ?d = "fst (dial_start env' addr' guid mtu' now')"
  have p: "l = (?l, [])" "d = (?d, [])" using assms by (simp_all add: conversation_start_def)
  obtain request where r: "connection_request_write (connection_request_new guid (stamp env' 0)) = Ok request"
      "?d = ?n\<lparr>c_reads := 1, c_tasks := [request]\<rparr>" by (rule dial_start_conn)
  have says: "dialer_says env' n env n' request \<and> brief request" for n n'
    using r(1) brief_request unfolding dialer_says_def by blast
  have mtu: "effective_mtu ?d = effective_mtu ?n" by (simp add: r(2) effective_mtu_def)
  have "speaker (dialer_says env' (c_reads ?d) env (c_reads ?l)) (effective_mtu ?d) [] ?d"
    unfolding mtu
  proof (rule speaker_steadfast [OF speaker_new])
    show "carries (run_packet (unat (effective_mtu ?n)) []) UNIV ?n ?d"
      by (rule carries_same) (simp_all add: r(2))
    show "steadfast ?n ?d" "live ?d" "length (c_log ?d) < 2 ^ 24" "list_all u24_ok (st_ack_slice (c_state ?d))"
      by (simp_all add: r(2) steadfast_def live_def conn_new_def conn_state_new_def)
    show "list_all (\<lambda>m. dialer_says env' (c_reads ?d) env (c_reads ?l) m \<and> brief m) (c_tasks ?d)"
      using says by (simp add: r(2))
  qed
  moreover have "consistent m [] ?d \<longleftrightarrow> consistent m [] ?n" for m
    by (rule consistent_side) (rule dial_start_fields)
  ultimately show ?thesis
    using consistent_new [of "[]"] speaker_new by (auto simp: agreed_def p sendables_def)
qed

text \<open>What every step keeps holds after a run that stays within the counters.\<close>

lemma run_within:
  assumes env: "\<And>es. send_ok env es" "\<And>es. send_ok env' es" "steady env" "steady env'"
    and run: "r\<^sup>*\<^sup>* s s'" and sub: "\<And>a b. r a b \<Longrightarrow> conversation_step env env' a b"
    and start: "agreed env env' mtu mtu' s" "P s"
    and step: "\<And>l said d ds l' said' d' ds'. r ((l, said), (d, ds)) ((l', said'), (d', ds')) \<Longrightarrow> within (l', said') \<Longrightarrow>
      within (d', ds') \<Longrightarrow> agreed env env' mtu mtu' ((l, said), (d, ds)) \<Longrightarrow> P ((l, said), (d, ds)) \<Longrightarrow> P ((l', said'), (d', ds'))"
  shows "within (fst s') \<and> within (snd s') \<longrightarrow> agreed env env' mtu mtu' s' \<and> P s'"
  using run
proof induction
  case (step a b)
  obtain l said d ds l' said' d' ds' where p: "a = ((l, said), (d, ds))" "b = ((l', said'), (d', ds'))"
    by (cases a; cases b) auto
  note s = sub [OF step(2), unfolded p]
  show ?case
    using step.IH within_before [OF s] agreed_step [OF env s] assms(9) [OF step(2) [unfolded p]] by (auto simp: p)
qed (use start in simp)

lemma agreed_conversation:
  assumes "\<And>es. send_ok env es" and "\<And>es. send_ok env' es" and "steady env" and "steady env'"
    and "conversation env env' s s'" and "agreed env env' mtu mtu' s"
  shows "within (fst s') \<and> within (snd s') \<longrightarrow> agreed env env' mtu mtu' s'"
  using run_within [OF assms(1-5) _ assms(6), of "\<lambda>_. True"] by blast

lemma conversation_agreed:
  assumes "\<And>es. send_ok env es" and "\<And>es. send_ok env' es" and "steady env" and "steady env'"
    and "conversation env env' (conversation_start env' addr mtu now addr' guid mtu' now') (l, d)"
    and "within l" and "within d"
  obtains m m' where "agreed env env' m m' (l, d)"
proof -
  obtain l0 d0 where s: "conversation_start env' addr mtu now addr' guid mtu' now' = (l0, d0)"
    by (cases "conversation_start env' addr mtu now addr' guid mtu' now'")
  from agreed_conversation [OF assms(1-5) agreed_start [OF s, folded s]] assms(6,7) show ?thesis by (intro that) simp
qed

lemma consistent_for_user:
  "consistent mtu msgs conn \<Longrightarrow> prefix (user_packets (c_log conn)) (for_user msgs)"
  unfolding consistent_def queue_consistent_def
  by (metis append_take_drop_id for_user_append prefixI)

section \<open>What gets through\<close>

lemma kept_new:
  assumes "settled d" and "c_log d = []" and "c_state d = conn_state_new"
  shows "kept mtu [] l d"
proof -
  have "sound Q ns d" for Q ns
    by (simp add: sound_def outgoing_def outbox_typed_def outbox_def ahead_def next_seq_def assms(2,3) conn_state_new_def
        rm_new_def rm_inv_def rm_pending_def u24_new_def u24_ok_def)
  moreover have "window_behind l d"
    by (simp add: window_behind_def window_below_def assms(3) conn_state_new_def dw_inv_new)
      (simp add: dw_new_def u24_new_def)
  ultimately show ?thesis using assms by (simp add: kept_def conn_state_new_def)
qed

lemma kept_start:
  assumes "conversation_start env' addr mtu now addr' guid mtu' now' = ((l, said), (d, ds))"
  shows "kept m said l d \<and> kept m' ds d l"
proof -
  have p: "said = []" "ds = []" "l = conn_new addr mtu now" "d = fst (dial_start env' addr' guid mtu' now')"
    using assms by (simp_all add: conversation_start_def)
  note f = dial_start_fields [of env' addr' guid mtu' now']
  have "settled d" using settled_side [OF f(4)] by (simp add: p)
  then show ?thesis using kept_new [of d] kept_new [of l] f by (simp add: p conn_new_def settled_new [unfolded conn_new_def])
qed

lemma kept_conversation:
  assumes "\<And>es. send_ok env es" and "\<And>es. send_ok env' es" and "steady env" and "steady env'"
    and release: "env_profile env' = Release"
    and "conversation env env' s s'" and start: "agreed env env' mtu mtu' s" "kept (unat mtu) (snd (fst s)) (fst (fst s)) (fst (snd s))"
  shows "within (fst s') \<and> within (snd s') \<longrightarrow>
    agreed env env' mtu mtu' s' \<and> kept (unat mtu) (snd (fst s')) (fst (fst s')) (fst (snd s'))"
proof (rule run_within [where P = "\<lambda>s. kept (unat mtu) (snd (fst s)) (fst (fst s)) (fst (snd s))", OF assms(1-4,6) _ start])
  fix l said d ds l' said' d' ds'
  assume step: "conversation_step env env' ((l, said), (d, ds)) ((l', said'), (d', ds'))"
    and w: "within (l', said')" "within (d', ds')" and a: "agreed env env' mtu mtu' ((l, said), (d, ds))"
    and "kept (unat mtu) (snd (fst ((l, said), (d, ds)))) (fst (fst ((l, said), (d, ds)))) (fst (snd ((l, said), (d, ds))))"
  then have k: "kept (unat mtu) said l d" by simp
  from step have "kept (unat mtu) said' l' d'"
  proof cases
    case Listener_steps
    then show ?thesis
      using listening.kept_speaker [OF assms(1,3) _ subset_refl _ _ _ _ k] w a by (auto simp: within_def agreed_def)
  next
    case Dialer_steps
    have "unrefused env' dialer_handler r" for r using release by (simp add: unrefused_def dialer_handler_def)
    with Dialer_steps show ?thesis
      using dialing.kept_hearer [OF assms(2,4) _ subset_refl _ _ _ _ _ _ k] w a by (auto simp: within_def agreed_def)
  qed
  then show "kept (unat mtu) (snd (fst ((l', said'), (d', ds')))) (fst (fst ((l', said'), (d', ds')))) (fst (snd ((l', said'), (d', ds'))))"
    by simp
qed

text \<open>The other way, if the listener refuses nothing.\<close>

lemma kept_smooth:
  assumes "\<And>es. send_ok env es" and "\<And>es. send_ok env' es" and "steady env" and "steady env'"
    and "smooth_conversation env env' s s'" and start: "agreed env env' mtu mtu' s" "kept (unat mtu') (snd (snd s)) (fst (snd s)) (fst (fst s))"
  shows "within (fst s') \<and> within (snd s') \<longrightarrow>
    agreed env env' mtu mtu' s' \<and> kept (unat mtu') (snd (snd s')) (fst (snd s')) (fst (fst s'))"
proof (rule run_within [where P = "\<lambda>s. kept (unat mtu') (snd (snd s)) (fst (snd s)) (fst (fst s))",
      OF assms(1-5) smooth_conversation_step start])
  fix l said d ds l' said' d' ds'
  assume step: "smooth_step env env' ((l, said), (d, ds)) ((l', said'), (d', ds'))"
    and w: "within (l', said')" "within (d', ds')" and a: "agreed env env' mtu mtu' ((l, said), (d, ds))"
    and "kept (unat mtu') (snd (snd ((l, said), (d, ds)))) (fst (snd ((l, said), (d, ds)))) (fst (fst ((l, said), (d, ds))))"
  then have k: "kept (unat mtu') ds d l" by simp
  from step have "kept (unat mtu') ds' d' l'"
  proof cases
    case Smooth_listener
    have "unrefused env listener_handler (snd (conn_receive env listener_handler x l))" "x \<in> set (emitted d)"
      if "x \<in> unrejected env d l" for x using that by (simp_all add: unrejected_def unrefused_def)
    moreover have s: "speaker (listener_says env (c_reads l) env' (c_reads d)) mtu said l"
        "speaker (dialer_says env' (c_reads d) env (c_reads l)) mtu' ds d" "consistent (unat mtu') ds l"
      using a by (simp_all add: agreed_def)
    ultimately show ?thesis
      using listening.kept_hearer [OF assms(1,3) _ _ _ _ _ s(2,1,3) k, of "unrejected env d l" l' said'] Smooth_listener w
      by (auto simp: within_def)
  next
    case Smooth_dialer
    then show ?thesis
      using dialing.kept_speaker [OF assms(2,4) _ subset_refl _ _ _ _ k] w a by (auto simp: within_def agreed_def)
  qed
  then show "kept (unat mtu') (snd (snd ((l', said'), (d', ds')))) (fst (snd ((l', said'), (d', ds')))) (fst (fst ((l', said'), (d', ds'))))"
    by simp
qed

section \<open>A conversation\<close>

text \<open>The listener writes, the dialer hears it and ticks, and the listener hears the acknowledgement.\<close>

lemma still_steady: "steady (still_env prof)"
  by (simp add: steady_def stamp_def)

definition sample_listener :: Conn where
  "sample_listener = fst (conn_receive (still_env Release) listener_handler [0xc0, 0, 1, 1, 0, 0, 0]
     (fst (conn_write (still_env Release) [0xfe] (conn_new (V4 1 2) 1400 0))))"

definition sample_dialer :: Conn where
  "sample_dialer = fst (tick (still_env Release) dialer_close 0 (fst (conn_receive (still_env Release) dialer_handler
     [0x84, 0, 0, 0, 0x60, 0, 8, 0, 0, 0, 0, 0, 0, 0, 0xfe]
     ((conn_new (V4 3 4) 1400 0)\<lparr>c_reads := 1, c_tasks := [[9, 0, 0, 0, 0, 0, 0, 0, 7, 0, 0, 0, 0, 0, 0, 0, 0, 0]]\<rparr>))))"

lemma sample_listener_facts:
  "unacknowledged (st_retransmission (c_state sample_listener)) = [] \<and> c_closing sample_listener = 0
   \<and> \<not> c_closed sample_listener \<and> length (c_log sample_listener) = 1"
  by code_simp

lemma sample_dialer_facts:
  "c_log sample_dialer = [Delivered [0xfe], Sent [0xc0, 0, 1, 1, 0, 0, 0]] \<and> c_closing sample_dialer = 0
   \<and> \<not> c_closed sample_dialer"
  by code_simp

lemma sample_write:
  "c_log (fst (conn_write (still_env Release) [0xfe] (conn_new (V4 1 2) 1400 0)))
     = [Sent [0x84, 0, 0, 0, 0x60, 0, 8, 0, 0, 0, 0, 0, 0, 0, 0xfe]]"
  by code_simp

lemma sample_dial:
  "fst (dial_start (still_env Release) (V4 3 4) 7 1400 0)
     = (conn_new (V4 3 4) 1400 0)\<lparr>c_reads := 1, c_tasks := [[9, 0, 0, 0, 0, 0, 0, 0, 7, 0, 0, 0, 0, 0, 0, 0, 0, 0]]\<rparr>"
proof -
  have "connection_request_write (connection_request_new 7 0) = Ok [9, 0, 0, 0, 0, 0, 0, 0, 7, 0, 0, 0, 0, 0, 0, 0, 0, 0]"
    by code_simp
  then show ?thesis by (simp add: dial_start_def timestamp_stamp stamp_def send_message_def conn_new_def Let_def)
qed

lemma sample_conversation:
  "conversation (still_env Release) (still_env Release)
     (conversation_start (still_env Release) (V4 1 2) 1400 0 (V4 3 4) 7 1400 0)
     ((sample_listener, [[0xfe]]), (sample_dialer, []))"
proof -
  let ?env = "still_env Release" and ?l0 = "conn_new (V4 1 2) 1400 0"
  let ?x = "[0x84, 0, 0, 0, 0x60, 0, 8, 0, 0, 0, 0, 0, 0, 0, 0xfe :: u8]"
  let ?d0 = "(conn_new (V4 3 4) 1400 0)\<lparr>c_reads := 1, c_tasks := [[9, 0, 0, 0, 0, 0, 0, 0, 7, 0, 0, 0, 0, 0, 0, 0, 0, 0]]\<rparr>"
  let ?l1 = "fst (conn_write ?env [0xfe] ?l0)" and ?d1 = "fst (conn_receive ?env dialer_handler ?x ?d0)"
  have start: "conversation_start ?env (V4 1 2) 1400 0 (V4 3 4) 7 1400 0 = ((?l0, []), (?d0, []))"
    by (simp add: conversation_start_def sample_dial)
  have "user_message [0xfe]" by (simp add: user_message_def reserved_ids_def id_defs)
  from peer_step.Writes [OF this, of ?env listener_handler "{}" ?l0 "[]"]
  have "peer_step ?env listener_handler (set (emitted (fst (?d0, [])))) (?l0, []) (?l1, [[0xfe]])"
    by (simp add: conn_new_def)
  then have "conversation ?env ?env ((?l0, []), (?d0, [])) ((?l1, [[0xfe]]), (?d0, []))"
    by (intro r_into_rtranclp Listener_steps)
  moreover have "conversation_step ?env ?env ((?l1, [[0xfe]]), (?d0, [])) ((?l1, [[0xfe]]), (?d1, []))"
    by (intro Dialer_steps Hears) (simp add: sample_write)
  moreover have "conversation_step ?env ?env ((?l1, [[0xfe]]), (?d1, [])) ((?l1, [[0xfe]]), (sample_dialer, []))"
    using peer_step.Ticks [of ?env dialer_handler _ ?d1 "[]" 0] unfolding sample_dialer_def
    by (intro Dialer_steps) (simp add: dialer_handler_def)
  moreover have "conversation_step ?env ?env ((?l1, [[0xfe]]), (sample_dialer, [])) ((sample_listener, [[0xfe]]), (sample_dialer, []))"
    unfolding sample_listener_def by (intro Listener_steps Hears) (simp add: sample_dialer_facts)
  ultimately show ?thesis unfolding start by (meson rtranclp.rtrancl_into_rtrancl)
qed

lemma sample_within: "within (sample_listener, [[0xfe]])" "within (sample_dialer, [])"
  using sample_listener_facts sample_dialer_facts by (simp_all add: within_def live_def)

text \<open>The other way: the dialer writes, the listener hears it and ticks, the dialer hears the acknowledgement.\<close>

definition asking_dialer :: Conn where
  "asking_dialer = fst (conn_write (still_env Release) [0xfe]
     ((conn_new (V4 3 4) 1400 0)\<lparr>c_reads := 1, c_tasks := [[9, 0, 0, 0, 0, 0, 0, 0, 7, 0, 0, 0, 0, 0, 0, 0, 0, 0]]\<rparr>))"

definition asked_listener :: Conn where
  "asked_listener = fst (conn_receive (still_env Release) listener_handler
     [0x84, 0, 0, 0, 0x60, 0, 8, 0, 0, 0, 0, 0, 0, 0, 0xfe] (conn_new (V4 1 2) 1400 0))"

definition told_listener :: Conn where
  "told_listener = fst (tick (still_env Release) listener_close 0 asked_listener)"

definition told_dialer :: Conn where
  "told_dialer = fst (conn_receive (still_env Release) dialer_handler [0xc0, 0, 1, 1, 0, 0, 0] asking_dialer)"

lemma asking_facts:
  "c_log asking_dialer = [Sent [0x84, 0, 0, 0, 0x60, 0, 8, 0, 0, 0, 0, 0, 0, 0, 0xfe]]
   \<and> snd (conn_receive (still_env Release) listener_handler
       [0x84, 0, 0, 0, 0x60, 0, 8, 0, 0, 0, 0, 0, 0, 0, 0xfe] (conn_new (V4 1 2) 1400 0)) = Ok ()"
  by code_simp

lemma told_facts:
  "c_log told_listener = [Delivered [0xfe], Sent [0xc0, 0, 1, 1, 0, 0, 0]] \<and> c_closing told_listener = 0
   \<and> \<not> c_closed told_listener"
  "unacknowledged (st_retransmission (c_state told_dialer)) = [] \<and> c_closing told_dialer = 0
   \<and> \<not> c_closed told_dialer \<and> length (c_log told_dialer) = 1"
  by code_simp+

lemma told_conversation:
  "smooth_conversation (still_env Release) (still_env Release)
     (conversation_start (still_env Release) (V4 1 2) 1400 0 (V4 3 4) 7 1400 0)
     ((told_listener, []), (told_dialer, [[0xfe]]))"
proof -
  let ?env = "still_env Release" and ?l0 = "conn_new (V4 1 2) 1400 0"
  let ?d0 = "(conn_new (V4 3 4) 1400 0)\<lparr>c_reads := 1, c_tasks := [[9, 0, 0, 0, 0, 0, 0, 0, 7, 0, 0, 0, 0, 0, 0, 0, 0, 0]]\<rparr>"
  have start: "conversation_start ?env (V4 1 2) 1400 0 (V4 3 4) 7 1400 0 = ((?l0, []), (?d0, []))"
    by (simp add: conversation_start_def sample_dial)
  have "user_message [0xfe]" by (simp add: user_message_def reserved_ids_def id_defs)
  from peer_step.Writes [OF this, of ?env dialer_handler "set (emitted (fst (?l0, [])))" ?d0 "[]"]
  have "smooth_step ?env ?env ((?l0, []), (?d0, [])) ((?l0, []), (asking_dialer, [[0xfe]]))"
    unfolding asking_dialer_def by (intro Smooth_dialer) (simp add: conn_new_def)
  moreover have "smooth_step ?env ?env ((?l0, []), (asking_dialer, [[0xfe]])) ((asked_listener, []), (asking_dialer, [[0xfe]]))"
    unfolding asked_listener_def by (intro Smooth_listener Hears) (simp add: unrejected_def asking_facts)
  moreover have "smooth_step ?env ?env ((asked_listener, []), (asking_dialer, [[0xfe]])) ((told_listener, []), (asking_dialer, [[0xfe]]))"
    using peer_step.Ticks [of ?env listener_handler _ asked_listener "[]" 0] unfolding told_listener_def
    by (intro Smooth_listener) (simp add: listener_handler_def)
  moreover have "smooth_step ?env ?env ((told_listener, []), (asking_dialer, [[0xfe]])) ((told_listener, []), (told_dialer, [[0xfe]]))"
    unfolding told_dialer_def by (intro Smooth_dialer Hears) (simp add: told_facts)
  ultimately show ?thesis unfolding start by (meson rtranclp.intros)
qed

lemma told_within: "within (told_listener, [])" "within (told_dialer, [[0xfe]])"
  using told_facts by (simp_all add: within_def live_def)

section \<open>Properties\<close>

text \<open>
  C2. Two connections that talk to each other, in any interleaving, over any network: what each
  user has got is a prefix of what the other user has written, in the order of writing, whatever
  pings, pongs, login messages, acknowledgements and retransmissions went in between.
\<close>

theorem conversation_in_order:
  assumes "\<And>es. send_ok env es" and "\<And>es. send_ok env' es" and "steady env" and "steady env'"
    and "conversation env env' (conversation_start env' addr mtu now addr' guid mtu' now') ((l, said), (d, said'))"
    and "within (l, said)" and "within (d, said')"
  shows "prefix (user_packets (c_log d)) (for_user said) \<and> prefix (user_packets (c_log l)) (for_user said')"
proof (rule conversation_agreed [OF assms])
  fix m m'
  assume "agreed env env' m m' ((l, said), (d, said'))"
  then show ?thesis using consistent_for_user by (auto simp: agreed_def)
qed

theorem conversation_in_order_witness:
  "prefix (user_packets (c_log sample_dialer)) (for_user [[0xfe]]) \<and> user_packets (c_log sample_dialer) = [[0xfe]]"
  using conversation_in_order [OF _ _ still_steady still_steady sample_conversation sample_within] sample_dialer_facts
  by simp

text \<open>
  C1. When nothing the listener has sent awaits its acknowledgement any more, the dialer's user has
  got everything the listener's user has written: whatever the network did, in any interleaving.
  The dialer is compiled without overflow checks.
\<close>

theorem conversation_complete:
  assumes "\<And>es. send_ok env es" and "\<And>es. send_ok env' es" and "steady env" and "steady env'"
    and "env_profile env' = Release"
    and "conversation env env' (conversation_start env' addr mtu now addr' guid mtu' now') ((l, said), (d, said'))"
    and "within (l, said)" and "within (d, said')" and "awaiting l = {#}"
  shows "user_packets (c_log d) = for_user said"
proof -
  obtain l0 ls d0 ds where s: "conversation_start env' addr mtu now addr' guid mtu' now' = ((l0, ls), (d0, ds))"
    by (cases "conversation_start env' addr mtu now addr' guid mtu' now'") auto
  from kept_conversation [OF assms(1-6) agreed_start [OF s, folded s]] kept_start [OF s] assms(7,8)
  have a: "agreed env env' (effective_mtu l0) (effective_mtu d0) ((l, said), (d, said'))"
    and k: "kept (unat (effective_mtu l0)) said l d" by (simp_all add: s)
  from a have "consistent (unat (effective_mtu l0)) said d" "sendables said" "24 < unat (effective_mtu l0)"
    by (simp_all add: agreed_def speaker_def)
  moreover have "settled d" "\<And>p i. p < length said \<Longrightarrow> i < length (msg_fragments (unat (effective_mtu l0)) (said ! p)) \<Longrightarrow>
      held (unat (effective_mtu l0)) said p i d"
    using k assms(9) by (auto simp: kept_def)
  ultimately show ?thesis by (intro held_delivered)
qed

theorem conversation_complete_witness:
  "awaiting sample_listener = {#} \<and> user_packets (c_log sample_dialer) = for_user [[0xfe]]"
proof -
  have "awaiting sample_listener = {#}" using sample_listener_facts by (simp add: awaiting_def packets_of_def)
  with conversation_complete [OF _ _ still_steady still_steady _ sample_conversation sample_within] show ?thesis by simp
qed

text \<open>
  C4. The same the other way, as long as the listener's connection refuses no datagram: when nothing
  the dialer has sent awaits its acknowledgement any more, the listener's user has got everything
  the dialer's user has written. Without that proviso the limits of a listener can drop what it
  has acknowledged.
\<close>

theorem listener_gets_all:
  assumes "\<And>es. send_ok env es" and "\<And>es. send_ok env' es" and "steady env" and "steady env'"
    and "smooth_conversation env env' (conversation_start env' addr mtu now addr' guid mtu' now') ((l, said), (d, said'))"
    and "within (l, said)" and "within (d, said')" and "awaiting d = {#}"
  shows "user_packets (c_log l) = for_user said'"
proof -
  obtain l0 ls d0 ds where s: "conversation_start env' addr mtu now addr' guid mtu' now' = ((l0, ls), (d0, ds))"
    by (cases "conversation_start env' addr mtu now addr' guid mtu' now'") auto
  from kept_smooth [OF assms(1-5) agreed_start [OF s, folded s]] kept_start [OF s] assms(6,7)
  have a: "agreed env env' (effective_mtu l0) (effective_mtu d0) ((l, said), (d, said'))"
    and k: "kept (unat (effective_mtu d0)) said' d l" by (simp_all add: s)
  from a have "consistent (unat (effective_mtu d0)) said' l" "sendables said'" "24 < unat (effective_mtu d0)"
    by (simp_all add: agreed_def speaker_def)
  moreover have "settled l" "\<And>p i. p < length said' \<Longrightarrow> i < length (msg_fragments (unat (effective_mtu d0)) (said' ! p)) \<Longrightarrow>
      held (unat (effective_mtu d0)) said' p i l"
    using k assms(8) by (auto simp: kept_def)
  ultimately show ?thesis by (intro held_delivered)
qed

theorem listener_gets_all_witness:
  "awaiting told_dialer = {#} \<and> user_packets (c_log told_listener) = for_user [[0xfe]]"
proof -
  have "awaiting told_dialer = {#}" using told_facts by (simp add: awaiting_def packets_of_def)
  with listener_gets_all [OF _ _ still_steady still_steady told_conversation told_within] show ?thesis by simp
qed

end
