(* ===== verification/Catching_Up.thy ===== *)
theory Catching_Up
  imports Conversation
begin

text \<open>
  How a conversation recovers from losses: a tick of one side that finds everything that waits
  overdue sends all of it again, and when these datagrams arrive the user of the other side has
  everything that was written, whatever was lost before. Of a listener this holds as long as its
  connection receives without an error.
\<close>

section \<open>Fresh datagrams are accepted\<close>

lemma takes_any: "takes T env h n m \<Longrightarrow> takes (\<lambda>_. True) env h n m"
  unfolding takes_def by (simp add: list_all_iff) blast

text \<open>What the receptions of a list of datagrams return.\<close>

fun outcomes :: "env \<Rightarrow> ConnectionHandler \<Rightarrow> bytes list \<Rightarrow> Conn \<Rightarrow> unit outcome list" where
  "outcomes env h [] conn = []"
| "outcomes env h (d # ds) conn = snd (conn_receive env h d conn) # outcomes env h ds (fst (conn_receive env h d conn))"

lemma outcomes_append: "outcomes env h (ds @ ds') conn = outcomes env h ds conn @ outcomes env h ds' (receive_all env h ds conn)"
  by (induction ds arbitrary: conn) simp_all

context connection_handler
begin

lemma hears_fresh:
  assumes msgs: "sendables msgs" and mtu: "24 < mtu" "mtu < 8192" and takes: "list_all (takes (\<lambda>_. True) env h n) msgs"
  shows "consistent mtu msgs conn \<Longrightarrow> settled conn \<Longrightarrow> window_below (unat (u24 seq)) conn \<Longrightarrow> n \<le> c_reads conn \<Longrightarrow>
    7 \<le> effective_mtu conn \<Longrightarrow> list_all (run_packet mtu msgs) pks \<Longrightarrow> u24_ok seq \<Longrightarrow> unat (u24 seq) + length pks < 2 ^ 24 \<Longrightarrow>
    list_all (unrefused env h) (outcomes env h (emitted_log (next_datagrams seq pks)) conn) \<Longrightarrow>
    (let c = receive_all env h (emitted_log (next_datagrams seq pks)) conn in consistent mtu msgs c \<and> settled c
       \<and> (\<forall>p < length msgs. \<forall>i. held mtu msgs p i conn \<longrightarrow> held mtu msgs p i c)
       \<and> (\<forall>p < length msgs. \<forall>i < length (msg_fragments mtu (msgs ! p)). \<forall>message. u24_ok message \<longrightarrow>
            msg_packet mtu msgs p i message \<in> set pks \<longrightarrow> held mtu msgs p i c))"
proof (induction pks arbitrary: seq conn)
  case (Cons pk pks)
  let ?d = "build_datagram seq pk" and ?c = "fst (conn_receive env h (build_datagram seq pk) conn)"
  let ?seq = "snd (u24_inc seq)"
  obtain p i message where pk: "p < length msgs" "i < length (msg_fragments mtu (msgs ! p))" "u24_ok message"
      "pk = msg_packet mtu msgs p i message" using Cons.prems(6) by (auto simp: run_packet_def)
  have seq: "unat (u24 ?seq) = unat (u24 seq) + 1" using Cons.prems(7,8) by (simp add: unat_u24_inc)
  have run: "run_datagram mtu msgs ?d" using run_packet_datagram Cons.prems(6,7) by simp
  have data: "steadfast conn ?c" using conn_receive_data [OF Cons.prems(5,7)] by simp
  have c: "consistent mtu msgs ?c"
    using consistent_receive [OF Cons.prems(1) msgs takes_all_mono [OF takes Cons.prems(4)] _ mtu run] by (simp add: list_all_iff)
  have fresh: "st_ack_slice (c_state ?c) \<noteq> st_ack_slice (c_state conn)"
    using conn_receive_fresh [OF Cons.prems(5,7,3)] by simp
  have u: "unrefused env h (snd (conn_receive env h ?d conn))"
    and us: "list_all (unrefused env h) (outcomes env h (emitted_log (next_datagrams ?seq pks)) ?c)"
    using Cons.prems(9) by simp_all
  have step: "settled ?c \<and> (\<forall>p < length msgs. \<forall>j. held mtu msgs p j conn \<longrightarrow> held mtu msgs p j ?c) \<and> held mtu msgs p i ?c"
    if "p < length msgs" "i < length (msg_fragments mtu (msgs ! p))" "u24_ok message" "pk = msg_packet mtu msgs p i message"
    for p i message
    using held_receive [OF _ Cons.prems(1,2) msgs mtu that(1-3), of env seq] u fresh unfolding that(4) by blast
  note held = step [OF pk]
  have "window_below (unat (u24 ?seq)) conn" using Cons.prems(3) seq by (simp add: window_below_def)
  then have w: "window_below (unat (u24 ?seq)) ?c"
    using conn_receive_window [OF Cons.prems(5,7)] seq Cons.prems(8) by simp
  have rest: "n \<le> c_reads ?c" "7 \<le> effective_mtu ?c" "unat (u24 ?seq) + length pks < 2 ^ 24"
    using data Cons.prems(4,5,8) seq by (simp_all add: steadfast_def effective_mtu_def)
  note IH = Cons.IH [OF c conjunct1 [OF held] w rest(1,2) _ u24_ok_inc rest(3) us]
  show ?case
    using IH Cons.prems(6) held step unfolding Let_def by simp blast
qed simp

lemma receive_all_control:
  "list_all (control ns) ds \<Longrightarrow> receiving_side (receive_all env h ds conn) = receiving_side conn
    \<and> undisturbed conn (receive_all env h ds conn)"
proof (induction ds arbitrary: conn)
  case (Cons d ds)
  let ?c = "fst (conn_receive env h d conn)"
  have c: "receiving_side ?c = receiving_side conn" "undisturbed conn ?c"
    using conn_receive_control [of ns d env conn] Cons.prems by simp_all
  with Cons show ?case using undisturbed_trans [OF c(2)] by simp
qed simp

end

section \<open>A tick that finds everything overdue\<close>

text \<open>The iteration order of a hash map is an order of its keys.\<close>

definition orders :: "env \<Rightarrow> bool" where
  "orders env \<longleftrightarrow> (\<forall>seqs. mset (hash_order env seqs) = mset seqs)"

text \<open>The delay after which a tick sends again, and that all that waits is older at its clock reading.\<close>

definition all_overdue :: "env \<Rightarrow> Conn \<Rightarrow> bool" where
  "all_overdue env conn \<longleftrightarrow>
     (let now = clock env (c_reads conn); m = st_retransmission (c_state conn); rtt = snd (rm_rtt now m)
      in list_all (\<lambda>(k, r). duration_since now (rr_timestamp r) > rtt + rtt div 2) (unacknowledged m))"

lemma overdue_all:
  assumes "orders env" and "rm_inv m" and "\<forall>k \<in> fst ` set (unacknowledged m). unat k < 2 ^ 24"
    and "list_all (\<lambda>(seq, record). duration_since now (rr_timestamp record) > delay) (unacknowledged m)"
  shows "distinct (overdue_records env now delay m) \<and> u24 ` set (overdue_records env now delay m) = fst ` set (unacknowledged m)
    \<and> length (overdue_records env now delay m) = length (unacknowledged m)"
proof -
  let ?keys = "map fst (unacknowledged m)"
  have "filter (\<lambda>(seq, record). duration_since now (rr_timestamp record) > delay) (unacknowledged m) = unacknowledged m"
    using assms(4) by (simp add: filter_id_conv list_all_iff case_prod_beta)
  then have o: "overdue_records env now delay m = map u24_new (hash_order env ?keys)"
    by (simp add: overdue_records_def)
  have p: "mset (hash_order env ?keys) = mset ?keys" using assms(1) by (simp add: orders_def)
  then have s: "set (hash_order env ?keys) = fst ` set (unacknowledged m)" "length (hash_order env ?keys) = length (unacknowledged m)"
    using mset_eq_setD [OF p] mset_eq_length [OF p] by simp_all
  have "distinct ?keys" using assms(2) by (simp add: rm_inv_def)
  then have d: "distinct (hash_order env ?keys)" using mset_eq_imp_distinct_iff [OF p] by simp
  have new: "u24 (u24_new k) = k" if "k \<in> set (hash_order env ?keys)" for k
    using that assms(3) s(1) u24_new_small by metis
  then have "inj_on u24_new (set (hash_order env ?keys))" by (intro inj_on_inverseI [of _ u24])
  with d s new show ?thesis by (simp add: o distinct_map image_image)
qed

lemma waiting_under_all:
  assumes "rm_inv (st_retransmission (c_state conn))"
    and "u24 ` set ps = fst ` set (unacknowledged (st_retransmission (c_state conn)))"
  shows "set (waiting_under conn ps) = set_mset (awaiting conn) \<and> length (waiting_under conn ps) = length ps"
proof -
  let ?m = "st_retransmission (c_state conn)"
  let ?p = "\<lambda>k. rr_packet (the (map_of (unacknowledged ?m) k))"
  have rec: "map_of (unacknowledged ?m) k = Some r" if "(k, r) \<in> set (unacknowledged ?m)" for k r
    using that assms(1) by (simp add: rm_inv_def)
  have "rm_pending ?m (u24 p) = Some (?p (u24 p))" if "p \<in> set ps" for p
  proof -
    have "u24 p \<in> fst ` set (unacknowledged ?m)" using that assms(2) by blast
    then show ?thesis using rec by (auto simp: rm_pending_def)
  qed
  then have w: "waiting_under conn qs = map (\<lambda>p. ?p (u24 p)) qs" if "set qs \<subseteq> set ps" for qs
    using that by (induction qs) (simp_all add: waiting_under_def map_filter_simps)
  have "set (waiting_under conn ps) = ?p ` fst ` set (unacknowledged ?m)"
    unfolding assms(2) [symmetric] by (simp add: w image_image)
  also have "\<dots> = (\<lambda>(k, r). rr_packet r) ` set (unacknowledged ?m)"
    unfolding image_image by (rule image_cong) (auto simp: rec)
  finally show ?thesis by (simp add: w awaiting_def packets_of_def)
qed

text \<open>What the third tick puts on the wire: acknowledgements, and then everything that waits.\<close>

lemma tick_resends:
  assumes release: "env_profile env = Release" and orders: "orders env" and third: "(n + 1) mod 3 = (0 :: u64)"
    and typed: "outbox_typed conn" and ahead: "ahead conn" and room: "next_seq conn + size (awaiting conn) < 2 ^ 24"
    and mtu: "7 \<le> effective_mtu conn" and slice: "list_all u24_ok (st_ack_slice (c_state conn))"
    and overdue: "all_overdue env conn"
    and close: "\<And>c. internal c (close c)"
  obtains acks pks where
    "emitted (fst (tick env close n conn)) = emitted conn @ acks @ emitted_log (next_datagrams (st_seq (c_state conn)) pks)"
    and "list_all (control UNIV) acks" and "set pks = set_mset (awaiting conn)" and "length pks = size (awaiting conn)"
    and "st_ack_slice (c_state conn) = [] \<Longrightarrow> acks = []"
proof -
  let ?m = "st_retransmission (c_state conn)" and ?now = "clock env (c_reads conn)" and ?seq = "st_seq (c_state conn)"
  obtain c1 where c1: "flush_acks env conn = (c1, Ok ())" using flush_acks_Release [OF release] by blast
  obtain acks where acks: "emitted c1 = emitted conn @ acks" "list_all (reports BIT_FLAG_ACK (set (st_ack_slice (c_state conn)))) acks"
    using flush_acks_emitted [OF mtu slice, of env] c1 by auto
  have none: "acks = []" if "st_ack_slice (c_state conn) = []"
    using that acks(1) c1 by (simp add: flush_acks_def)
  have same: "(c_state c1)\<lparr>st_ack_slice := []\<rparr> = (c_state conn)\<lparr>st_ack_slice := []\<rparr>"
    using flush_acks_frame [of env conn] by (simp add: c1)
  have f1: "st_seq (c_state c1) = ?seq" "st_retransmission (c_state c1) = ?m" "c_reads c1 = c_reads conn"
      "st_order_index (c_state c1) = st_order_index (c_state conn)" "st_message_index (c_state c1) = st_message_index (c_state conn)"
    using steadfast_flush_acks [of conn env] arg_cong [OF same, of st_seq] arg_cong [OF same, of st_retransmission]
      arg_cong [OF same, of st_order_index] arg_cong [OF same, of st_message_index] by (simp_all add: c1)
  obtain m rtt where rtt: "rm_rtt ?now ?m = (m, rtt)" by (cases "rm_rtt ?now ?m")
  have m: "unacknowledged m = unacknowledged ?m" "rm_inv ?m \<Longrightarrow> rm_inv m"
    using rm_rtt_pending [of ?now ?m] rm_inv_rtt [of ?m ?now] rtt by simp_all
  let ?ps = "overdue_records env ?now (rtt + rtt div 2) m"
  let ?c2 = "c1\<lparr>c_reads := Suc (c_reads c1), c_rtt := of_nat rtt, c_state := (c_state c1)\<lparr>st_retransmission := m\<rparr>\<rparr>"
  have before: "before_closing env (n + 1) conn = resend_all env ?ps ?c2"
    using third by (simp add: before_closing_def c1 read_clock_def check_resend_def f1 rtt Let_def)
  have inv: "rm_inv ?m" "\<forall>k \<in> fst ` set (unacknowledged ?m). unat k < 2 ^ 24" "u24_ok ?seq"
    using typed by (simp_all add: outbox_typed_def outbox_def)
  have ps: "distinct ?ps" "u24 ` set ?ps = fst ` set (unacknowledged ?m)" "length ?ps = length (unacknowledged ?m)"
    using overdue_all [OF orders m(2) [OF inv(1)], where now = ?now and delay = "rtt + rtt div 2"] overdue inv
    by (simp_all add: m(1) all_overdue_def rtt Let_def)
  have c2: "outbox_typed ?c2" "ahead ?c2" "next_seq ?c2 = next_seq conn"
    using typed ahead m inv by (simp_all add: outbox_typed_def outbox_def ahead_def next_seq_def f1)
  have "\<forall>p \<in> set ?ps. u24 p < u24 (st_seq (c_state ?c2))"
  proof
    fix p
    assume "p \<in> set ?ps"
    then have "u24 p \<in> fst ` set (unacknowledged ?m)" using ps(2) by blast
    then have "u24 p < i" if "i = u24 ?seq" for i using ahead that unfolding ahead_def by blast
    then show "u24 p < u24 (st_seq (c_state ?c2))" by (simp add: f1)
  qed
  moreover have "next_seq ?c2 + length ?ps < 2 ^ 24"
    using room by (simp add: c2(3) ps(3) awaiting_def packets_of_def)
  ultimately have log: "c_log (resend_all env ?ps ?c2) = c_log c1 @ next_datagrams ?seq (waiting_under ?c2 ?ps)"
    using resend_all_fields [OF c2(1,2) ps(1)] by (simp add: f1)
  let ?pks = "waiting_under ?c2 ?ps"
  have pks: "set ?pks = set_mset (awaiting conn)" "length ?pks = size (awaiting conn)"
    using waiting_under_all [of ?c2 ?ps] ps m inv(1) by (simp_all add: awaiting_def packets_of_def)
  have "emitted (fst (tick env close n conn)) = emitted (before_closing env (n + 1) conn)"
    by (rule tick_after [where P = "\<lambda>c. emitted c = emitted (before_closing env (n + 1) conn)", OF c1])
      (use internal_close_immediately [OF close] in \<open>simp_all add: internal_def conn_close_def read_wall_def\<close>)
  then have "emitted (fst (tick env close n conn)) = emitted conn @ acks @ emitted_log (next_datagrams ?seq ?pks)"
    by (simp add: before log acks(1))
  moreover have "list_all (control UNIV) acks"
    using acks(2) reports_mono unfolding control_def list_all_iff by blast
  ultimately show ?thesis using pks none by (rule that)
qed

section \<open>A round of retransmission\<close>

context dialogue
begin

text \<open>The one side ticks, the other one, with handler \<open>h\<close>, takes all that the tick has put on the wire.\<close>

lemma round_completes:
  assumes release: "env_profile e' = Release" and orders: "orders e'" and third: "(n + 1) mod 3 = (0 :: u64)"
    and close: "\<And>c. internal c (close c)" and room: "next_seq l + size (awaiting l) < 2 ^ 24" and overdue: "all_overdue e' l"
    and l: "hears_of e' n' e (c_reads d) mtu said l" and kept: "kept (unat mtu) said l d"
    and cons: "consistent (unat mtu) said d" and room': "7 \<le> effective_mtu d"
  defines "sent \<equiv> drop (length (emitted l)) (emitted (fst (tick e' close n l)))"
  assumes fine: "list_all (unrefused e h) (outcomes e h sent d)"
  shows "user_packets (c_log (receive_all e h sent d)) = for_user said"
proof -
  let ?mtu = "unat mtu"
  have said: "sendables said" "24 < ?mtu" "?mtu < 8192" and out: "sound (run_packet ?mtu said) UNIV l"
    and slice: "list_all u24_ok (st_ack_slice (c_state l))" and heard: "list_all (heard e' n' e (c_reads d)) said"
    using l by (simp_all add: speaker_def)
  have typed: "outbox_typed l" "ahead l" using out by (simp_all add: sound_def)
  have mtu: "7 \<le> effective_mtu l" using speaker_mtu [OF l] by blast
  obtain acks pks where emitted: "emitted (fst (tick e' close n l)) =
        emitted l @ acks @ emitted_log (next_datagrams (st_seq (c_state l)) pks)"
      and acks: "list_all (control UNIV) acks" and pks: "set pks = set_mset (awaiting l)" "length pks = size (awaiting l)"
    by (rule tick_resends [OF release orders third typed room mtu slice overdue close]) (rule that)
  let ?ds = "emitted_log (next_datagrams (st_seq (c_state l)) pks)" and ?d1 = "receive_all e h acks d"
  have d1: "receiving_side ?d1 = receiving_side d" "undisturbed d ?d1"
    using receive_all_control [OF acks] by simp_all
  have "window_below (next_seq l) d"
    by (rule window_behind_next [OF _ out]) (use kept in \<open>simp add: kept_def\<close>)
  then have w: "window_below (unat (u24 (st_seq (c_state l)))) ?d1"
    using d1(2) by (simp add: window_below_def undisturbed_def next_seq_def)
  have takes: "list_all (takes (\<lambda>_. True) e h (c_reads d)) said"
    using heard answers takes_any unfolding list_all_iff by blast
  have c1: "consistent ?mtu said ?d1" "settled ?d1" "\<And>p i. held ?mtu said p i ?d1 = held ?mtu said p i d"
    using consistent_side [OF d1(1)] cons settled_side [OF d1(1)] kept held_side [OF d1(1)] by (simp_all add: kept_def)
  have r1: "c_reads d \<le> c_reads ?d1" "7 \<le> effective_mtu ?d1"
    using d1(2) room' by (simp_all add: undisturbed_def steadfast_def effective_mtu_def)
  have run: "list_all (run_packet ?mtu said) pks" using awaiting_run [OF out] pks(1) by (simp add: list_all_iff)
  have ok: "u24_ok (st_seq (c_state l))" using typed(1) by (simp add: outbox_typed_def outbox_def)
  have fits: "unat (u24 (st_seq (c_state l))) + length pks < 2 ^ 24" using room by (simp add: pks(2) next_seq_def)
  have sent: "sent = acks @ ?ds" by (simp add: sent_def emitted)
  have "list_all (unrefused e h) (outcomes e h ?ds ?d1)" using fine by (simp add: sent outcomes_append)
  note f = hears_fresh [OF said takes c1(1,2) w r1 run ok fits this, unfolded Let_def]
  have "held ?mtu said p i (receive_all e h ?ds ?d1)" if "p < length said" "i < length (msg_fragments ?mtu (said ! p))" for p i
    using kept that f c1(3) pks(1) unfolding kept_def by metis
  then have "user_packets (c_log (receive_all e h ?ds ?d1)) = for_user said" using f said(1,2) by (intro held_delivered) auto
  then show ?thesis by (simp add: sent)
qed

end

section \<open>A conversation that loses a datagram\<close>

text \<open>A clock that stands a second later from the reading \<open>k\<close> on.\<close>

definition late_env :: "nat \<Rightarrow> env" where
  "late_env k = (still_env Release)\<lparr>clock := (\<lambda>n. if n < k then 0 else 1000000000)\<rparr>"

lemma late_env_simps [simp]:
  "env_profile (late_env k) = Release" "send_ok (late_env k) es" "orders (late_env k)"
  by (simp_all add: late_env_def orders_def)

lemma late_steady: "steady (late_env k)"
  by (simp add: steady_def stamp_def late_env_def)

definition lost_listener :: Conn where
  "lost_listener = fst (conn_write (late_env 1) [0xfe] (conn_new (V4 1 2) 1400 0))"

definition fresh_dialer :: Conn where
  "fresh_dialer = fst (dial_start (still_env Release) (V4 3 4) 7 1400 0)"

lemma lost_listener_facts:
  "c_log lost_listener = [Sent [0x84, 0, 0, 0, 0x60, 0, 8, 0, 0, 0, 0, 0, 0, 0, 0xfe]] \<and> c_closing lost_listener = 0
   \<and> \<not> c_closed lost_listener \<and> u24 (st_seq (c_state lost_listener)) = 1 \<and> c_reads lost_listener = 1
   \<and> map (\<lambda>(k, r). (k, rr_timestamp r)) (unacknowledged (st_retransmission (c_state lost_listener))) = [(0, 0)]
   \<and> delays (st_retransmission (c_state lost_listener)) = []"
  by code_simp

lemma lost_waits:
  "size (awaiting lost_listener) = 1 \<and> all_overdue (late_env 1) lost_listener"
proof -
  obtain r where "unacknowledged (st_retransmission (c_state lost_listener)) = [(0, r)]" "rr_timestamp r = 0"
    using lost_listener_facts by auto
  then show ?thesis using lost_listener_facts
    by (simp add: awaiting_def packets_of_def all_overdue_def rm_rtt_def late_env_def duration_since_def)
qed

lemma lost_conversation:
  "conversation (late_env 1) (still_env Release)
     (conversation_start (still_env Release) (V4 1 2) 1400 0 (V4 3 4) 7 1400 0)
     ((lost_listener, [[0xfe]]), (fresh_dialer, []))"
proof -
  have "user_message [0xfe]" by (simp add: user_message_def reserved_ids_def id_defs)
  from peer_step.Writes [OF this, of "late_env 1" listener_handler "{}" "conn_new (V4 1 2) 1400 0" "[]"]
  show ?thesis unfolding conversation_start_def fresh_dialer_def lost_listener_def
    by (intro r_into_rtranclp Listener_steps) (simp add: conn_new_def sample_dial)
qed

lemma lost_within: "within (lost_listener, [[0xfe]])" "within (fresh_dialer, [])"
  using lost_listener_facts by (simp_all add: within_def live_def fresh_dialer_def sample_dial conn_new_def)

text \<open>The other way: the listener has heard the dialer, but its acknowledgement is lost.\<close>

definition lost_dialer :: Conn where
  "lost_dialer = fst (conn_write (late_env 2) [0xfe] fresh_dialer)"

lemma fresh_dialer: "fresh_dialer = (conn_new (V4 3 4) 1400 0)\<lparr>c_reads := 1, c_tasks := [[9, 0, 0, 0, 0, 0, 0, 0, 7, 0, 0, 0, 0, 0, 0, 0, 0, 0]]\<rparr>"
  by (simp add: fresh_dialer_def sample_dial)

lemma lost_dialer_facts:
  "c_log lost_dialer = [Sent [0x84, 0, 0, 0, 0x60, 0, 8, 0, 0, 0, 0, 0, 0, 0, 0xfe]] \<and> c_closing lost_dialer = 0
   \<and> \<not> c_closed lost_dialer \<and> st_seq (c_state lost_dialer) = Uint24 1
   \<and> st_order_index (c_state lost_dialer) = Uint24 1 \<and> st_message_index (c_state lost_dialer) = Uint24 1 \<and> c_reads lost_dialer = 2
   \<and> unacknowledged (st_retransmission (c_state lost_dialer)) =
       [(0, \<lparr>rr_packet = packet_new\<lparr>content := [0xfe], order_index := Uint24 0, message_index := Uint24 0\<rparr>, rr_timestamp = 0\<rparr>)]
   \<and> delays (st_retransmission (c_state lost_dialer)) = [] \<and> st_ack_slice (c_state lost_dialer) = []
   \<and> effective_mtu lost_dialer = 1372"
  unfolding lost_dialer_def fresh_dialer by code_simp

lemma lost_dialer_conversation:
  "smooth_conversation (still_env Release) (late_env 2)
     (conversation_start (late_env 2) (V4 1 2) 1400 0 (V4 3 4) 7 1400 0)
     ((asked_listener, []), (lost_dialer, [[0xfe]]))"
proof -
  have start: "fst (dial_start (late_env 2) (V4 3 4) 7 1400 0) = fresh_dialer"
    by (simp add: fresh_dialer_def dial_start_def timestamp_stamp stamp_def late_env_def send_message_def conn_new_def Let_def)
  have "user_message [0xfe]" by (simp add: user_message_def reserved_ids_def id_defs)
  from peer_step.Writes [OF this, of "late_env 2" dialer_handler "{}" fresh_dialer "[]"]
  have "smooth_step (still_env Release) (late_env 2) ((conn_new (V4 1 2) 1400 0, []), (fresh_dialer, []))
      ((conn_new (V4 1 2) 1400 0, []), (lost_dialer, [[0xfe]]))"
    unfolding lost_dialer_def by (intro Smooth_dialer) (simp add: fresh_dialer conn_new_def)
  moreover have "smooth_step (still_env Release) (late_env 2) ((conn_new (V4 1 2) 1400 0, []), (lost_dialer, [[0xfe]]))
      ((asked_listener, []), (lost_dialer, [[0xfe]]))"
    unfolding asked_listener_def by (intro Smooth_listener Hears) (simp add: unrejected_def asking_facts lost_dialer_facts)
  ultimately show ?thesis unfolding conversation_start_def start by (meson rtranclp.intros)
qed

lemma lost_dialer_resent:
  "drop (length (emitted lost_dialer)) (emitted (fst (tick (late_env 2) dialer_close 2 lost_dialer)))
     = [[0x84, 1, 0, 0, 0x60, 0, 8, 0, 0, 0, 0, 0, 0, 0, 0xfe]] \<and> all_overdue (late_env 2) lost_dialer
   \<and> size (awaiting lost_dialer) = 1"
proof -
  have w: "awaiting lost_dialer = {#packet_new\<lparr>content := [0xfe], order_index := Uint24 0, message_index := Uint24 0\<rparr>#}"
    and o: "all_overdue (late_env 2) lost_dialer"
    using lost_dialer_facts
    by (simp_all add: awaiting_def packets_of_def all_overdue_def rm_rtt_def late_env_def duration_since_def)
  have typed: "outbox_typed lost_dialer" "ahead lost_dialer" "next_seq lost_dialer = 1"
    using lost_dialer_facts by (simp_all add: outbox_typed_def outbox_def ahead_def next_seq_def rm_inv_def u24_ok_def)
  obtain acks pks where "emitted (fst (tick (late_env 2) dialer_close 2 lost_dialer)) =
        emitted lost_dialer @ acks @ emitted_log (next_datagrams (Uint24 1) pks)"
      "set pks = set_mset (awaiting lost_dialer)" "length pks = size (awaiting lost_dialer)" "acks = []"
    by (rule tick_resends [OF late_env_simps(1,3) _ typed(1,2) _ _ _ o internal_dialer_close, of 2])
      (use that typed(3) w lost_dialer_facts in auto)
  moreover from this w have "pks = [packet_new\<lparr>content := [0xfe], order_index := Uint24 0, message_index := Uint24 0\<rparr>]"
    by (cases pks) auto
  moreover have "emitted_log (next_datagrams (Uint24 1) [packet_new\<lparr>content := [0xfe], order_index := Uint24 0, message_index := Uint24 0\<rparr>])
      = [[0x84, 1, 0, 0, 0x60, 0, 8, 0, 0, 0, 0, 0, 0, 0, 0xfe]]"
    by code_simp
  ultimately show ?thesis using w o by simp
qed

lemma asked_listener_facts:
  "c_log asked_listener = [Delivered [0xfe]] \<and> c_closing asked_listener = 0 \<and> \<not> c_closed asked_listener"
  "snd (conn_receive (still_env Release) listener_handler [0x84, 1, 0, 0, 0x60, 0, 8, 0, 0, 0, 0, 0, 0, 0, 0xfe] asked_listener) = Ok ()"
  by code_simp+

section \<open>Properties\<close>

text \<open>
  C3. A round of retransmission makes up for every loss. In any conversation, at a third tick of the
  listener that finds all that waits overdue: when the datagrams of this tick arrive, the dialer's
  user has got everything the listener's user has written, whatever the network did before. Both
  are compiled without overflow checks.
\<close>

theorem retransmission_completes:
  assumes "\<And>es. send_ok env es" and "\<And>es. send_ok env' es" and "steady env" and "steady env'"
    and "env_profile env = Release" and "env_profile env' = Release" and "orders env"
    and "conversation env env' (conversation_start env' addr mtu now addr' guid mtu' now') ((l, said), (d, said'))"
    and "within (l, said)" and "within (d, said')"
    and "next_seq l + size (awaiting l) < 2 ^ 24" and "all_overdue env l" and "(n + 1) mod 3 = (0 :: u64)"
  shows "let sent = drop (length (emitted l)) (emitted (fst (tick env listener_close n l)))
    in user_packets (c_log (receive_all env' dialer_handler sent d)) = for_user said"
proof -
  obtain l0 ls d0 ds where s: "conversation_start env' addr mtu now addr' guid mtu' now' = ((l0, ls), (d0, ds))"
    by (cases "conversation_start env' addr mtu now addr' guid mtu' now'") auto
  from kept_conversation [OF assms(1-4,6,8) agreed_start [OF s, folded s]] kept_start [OF s, of "unat (effective_mtu l0)" 0] assms(9,10)
  have a: "agreed env env' (effective_mtu l0) (effective_mtu d0) ((l, said), (d, said'))"
    and k: "kept (unat (effective_mtu l0)) said l d" by (simp_all add: s)
  have "unrefused env' dialer_handler r" for r using assms(6) by (simp add: unrefused_def dialer_handler_def)
  then have fine: "list_all (unrefused env' dialer_handler) rs" for rs by (simp add: list_all_iff)
  have sl: "speaker (listener_says env (c_reads l) env' (c_reads d)) (effective_mtu l0) said l"
    and sd: "speaker (dialer_says env' (c_reads d) env (c_reads l)) (effective_mtu d0) said' d"
    and cons: "consistent (unat (effective_mtu l0)) said d" using a by (simp_all add: agreed_def)
  have "7 \<le> effective_mtu d" using speaker_mtu [OF sd] by blast
  from dialing.round_completes [OF assms(5,7,13) internal_listener_close assms(11,12) sl k cons this fine]
  show ?thesis by (simp add: Let_def)
qed

theorem retransmission_completes_witness:
  "user_packets (c_log fresh_dialer) = [] \<and> emitted lost_listener = [[0x84, 0, 0, 0, 0x60, 0, 8, 0, 0, 0, 0, 0, 0, 0, 0xfe]]
   \<and> user_packets (c_log (receive_all (still_env Release) dialer_handler
       (drop 1 (emitted (fst (tick (late_env 1) listener_close 2 lost_listener)))) fresh_dialer)) = [[0xfe]]"
proof -
  have "next_seq lost_listener + size (awaiting lost_listener) < 2 ^ 24" "length (emitted lost_listener) = 1"
    using lost_listener_facts lost_waits by (simp_all add: next_seq_def)
  with retransmission_completes [OF _ _ late_steady still_steady _ _ _ lost_conversation lost_within, of 2]
    lost_listener_facts lost_waits
  show ?thesis by (simp add: fresh_dialer_def sample_dial conn_new_def for_user_def reserved_ids_def id_defs)
qed

text \<open>
  C5. And the other way: a third tick of the dialer that finds all that waits overdue makes up for every
  loss as well, if the listener's connection receives the datagrams of this tick without an error
  and has refused none before.
\<close>

theorem retransmission_reaches_listener:
  assumes "\<And>es. send_ok env es" and "\<And>es. send_ok env' es" and "steady env" and "steady env'"
    and "env_profile env' = Release" and "orders env'"
    and "smooth_conversation env env' (conversation_start env' addr mtu now addr' guid mtu' now') ((l, said), (d, said'))"
    and "within (l, said)" and "within (d, said')"
    and "next_seq d + size (awaiting d) < 2 ^ 24" and "all_overdue env' d" and "(n + 1) mod 3 = (0 :: u64)"
    and "list_all (\<lambda>r. r = Ok ())
      (outcomes env listener_handler (drop (length (emitted d)) (emitted (fst (tick env' dialer_close n d)))) l)"
  shows "let sent = drop (length (emitted d)) (emitted (fst (tick env' dialer_close n d)))
    in user_packets (c_log (receive_all env listener_handler sent l)) = for_user said'"
proof -
  obtain l0 ls d0 ds where s: "conversation_start env' addr mtu now addr' guid mtu' now' = ((l0, ls), (d0, ds))"
    by (cases "conversation_start env' addr mtu now addr' guid mtu' now'") auto
  from kept_smooth [OF assms(1-4,7) agreed_start [OF s, folded s]] kept_start [OF s] assms(8,9)
  have a: "agreed env env' (effective_mtu l0) (effective_mtu d0) ((l, said), (d, said'))"
    and k: "kept (unat (effective_mtu d0)) said' d l" by (simp_all add: s)
  have sl: "speaker (listener_says env (c_reads l) env' (c_reads d)) (effective_mtu l0) said l"
    and sd: "speaker (dialer_says env' (c_reads d) env (c_reads l)) (effective_mtu d0) said' d"
    and cons: "consistent (unat (effective_mtu d0)) said' l" using a by (simp_all add: agreed_def)
  have "7 \<le> effective_mtu l" using speaker_mtu [OF sl] by blast
  moreover have "list_all (unrefused env listener_handler)
      (outcomes env listener_handler (drop (length (emitted d)) (emitted (fst (tick env' dialer_close n d)))) l)"
    using assms(13) unfolding list_all_iff unrefused_def by blast
  ultimately show ?thesis
    using listening.round_completes [OF assms(5,6,12) internal_dialer_close assms(10,11) sd k cons] by (simp add: Let_def)
qed

theorem retransmission_reaches_listener_witness:
  "user_packets (c_log (receive_all (still_env Release) listener_handler
       [[0x84, 1, 0, 0, 0x60, 0, 8, 0, 0, 0, 0, 0, 0, 0, 0xfe]] asked_listener)) = for_user [[0xfe]]"
proof -
  have w: "within (asked_listener, [])" "within (lost_dialer, [[0xfe]])"
    using lost_dialer_facts asked_listener_facts by (simp_all add: within_def live_def)
  have "next_seq lost_dialer + size (awaiting lost_dialer) < 2 ^ 24"
    using lost_dialer_resent lost_dialer_facts by (simp add: next_seq_def)
  with retransmission_reaches_listener [OF _ _ still_steady late_steady _ _ lost_dialer_conversation w, of 2]
    lost_dialer_resent asked_listener_facts
  show ?thesis by (simp add: Let_def)
qed

end
