(* ===== verification/Spec2Isabelle.thy ===== *)
theory Spec2Isabelle
  imports Handshake Ack_Sending Retransmission Closing Channels Errors Entry_Points Catching_Up
begin

text \<open>
  A verification library for \<open>ragnet\<close>, an implementation in Rust of the RakNet protocol over UDP as
  Minecraft uses it.

  \<^bold>\<open>The program.\<close> A listener (\<open>src/listener.rs\<close>) owns a UDP socket. It answers unconnected pings,
  carries out the two-step open connection handshake, whose second request must bring the cookie
  that the reply to the first one handed out, and hands every datagram of a known address to its
  connection. A dialer (\<open>src/dial.rs\<close>) is the other side of the handshake. A connection
  (\<open>src/conn.rs\<close>) cuts messages into fragments, sends them as numbered datagrams and keeps them until
  they are acknowledged; it receives datagrams through a window that filters repetitions, orders
  and reassembles the packets, and gives what its handler (\<open>src/handler.rs\<close>) does not consume to the
  user. The rest are the parts these use: counters (\<open>src/binary.rs\<close>), packets (\<open>src/packet.rs\<close>),
  acknowledgements (\<open>src/acknowledge.rs\<close>), the window (\<open>src/datagram_window.rs\<close>), the order queue
  (\<open>src/packet_queue.rs\<close>), the resend map (\<open>src/resend_map.rs\<close>) and the messages (\<open>src/message/\<close>).

  \<^bold>\<open>The theories.\<close> In the order of their imports:

  \<^item> \<open>Prelude\<close>: words, bytes, outcomes (a value, an error of \<open>src/error.rs\<close>, or a panic), state
    passing, arithmetic that depends on the compilation profile, slices, big-endian codecs.
    \<open>Errors\<close>: the messages of the errors and \<open>OpError\<close>.
  \<^item> \<open>Binary\<close>, \<open>Packet\<close>, \<open>Acknowledge\<close>: the wire formats below the messages. Round trips, readers that
    never panic, splitting, what fits an acknowledgement.
  \<^item> \<open>Sequence_Filter\<close>: the contract of a filter of sequence numbers as a locale;
    \<open>Datagram_Window\<close> and \<open>Packet_Queue\<close> interpret it. The queue also refines the abstract
    \<open>reorder\<close>, a stream of packets by position with a delivery point. \<open>Resend_Map\<close>: what waits.
  \<^item> \<open>Addr\<close>, \<open>Wire_Codec\<close>, \<open>Unconnected_Messages\<close>, \<open>Connected_Messages\<close>: the messages; \<open>Wire_Codec\<close> states
    the laws of a codec as a locale, which every message interprets.
  \<^item> \<open>Conn\<close>, \<open>Conn_Receive\<close>: the connection, one record \<open>Conn\<close> for the struct and the state behind its
    mutex, one definition per method. \<open>Handler_Contract\<close>: what the receive path relies on from a
    handler, as the locale \<open>connection_handler\<close>. \<open>Handler\<close>: the two handlers, which interpret it.
    \<open>Channels\<close>: the sender task, reading, waiting for the connection.
  \<^item> \<open>Conn_Robustness\<close>: no datagram panics a connection. \<open>Conn_Life\<close>: the steps of a connection as
    the relation \<open>conn_step\<close>, and its life cycle in every reachable state, through the locale
    \<open>life_handler\<close>. \<open>Closing\<close>: ticks that close. \<open>Reassembly\<close>: bounds and defects of the
    reassembly. \<open>Ack_Sending\<close>: what the emitted acknowledgements tell the peer,
    completely up to the 8192 numbers it accepts in one datagram, and nothing beyond them.
  \<^item> \<open>Delivery\<close>: two connections. What arrives at the user is a prefix of what was written, for any
    network, and all of it in order on a good one. \<open>Reliability\<close>: what is acknowledged gets
    delivered. \<open>Retransmission\<close>: what is not acknowledged is kept and sent again.
  \<^item> \<open>Outgoing\<close>: what a connection puts on the wire, in every state it can get into. \<open>Dialogue\<close>: what
    the two sides say to each other besides the messages of their users, pings, pongs and the login,
    as the locale \<open>dialogue\<close>, which the two handlers meet against each other. \<open>Peers\<close>: the steps of one
    side and what it is committed to. \<open>Keeping\<close>: what one side has said is held by the other one or
    still waits, and acknowledged is only what is held. \<open>Conversation\<close>: both sides at once, over a
    network that may deliver any datagram either has emitted, at any time, any number of times or
    never. What each user gets is a prefix of what the other one has written; once nothing of the
    listener awaits its acknowledgement the dialer's user has all of it, and the other way round
    unless the listener's limits refuse a datagram. \<open>Catching_Up\<close>: how that state is reached. A third
    tick of the listener at which everything that waits is older than the delay sends all of it
    again; when these datagrams arrive, the dialer's user has everything. The same for a tick of the
    dialer, if the listener receives its datagrams without an error.
  \<^item> \<open>Listener\<close>: the listener and its table of connections. \<open>Listener_Life\<close>: its steps and the
    invariant that relates the table, the waiting tasks and the connections. \<open>Listener_Security\<close>:
    cookies, blocks, timeouts, closing. \<open>Dial\<close>: the dialer. \<open>Handshake\<close>: both sides together.
    \<open>Login\<close>: the whole way from the first request of a dialer to \<open>accept\<close>. \<open>Addr_Text\<close>: socket
    addresses as texts, the parser of the standard library. \<open>Entry_Points\<close>: the calls of a user, \<open>dial\<close>,
    \<open>ping\<close> and \<open>listen\<close>, from the text of an address to their results; while \<open>dial\<close> waits, its tasks, its
    ticker and its waiter take turns in any order until the timeout.

  \<^bold>\<open>Conventions.\<close> A method is a function from its state to the state it leaves and its outcome, so the
  state after an error is part of the model. What a connection does to the outside is appended to
  a log of effects; what it learns from the outside is read from an environment: clocks indexed by
  the number of readings, whether the send channel is open, the order of a hash map, the
  compilation profile (\<open>Debug\<close> checks overflow, \<open>Release\<close> wraps). Statements quantify over all
  environments. Machine integers are words. A spawned task is an entry of a list whose execution
  is a step of its own, so the statements over \<open>conn_steps\<close> and \<open>listener_step\<close> cover every
  interleaving of calls, tasks and ticks; those over \<open>conversation\<close> cover every interleaving of two
  connections with the network between them. A method that holds the mutex over its awaits is one
  step. \<open>receive_datagram\<close> releases the mutex between its parts; the listener's and the dialer's loop
  await each \<open>receive\<close>, so no other datagram of the connection comes between them.

  \<^bold>\<open>Bounds.\<close> There is no fuel: the loops terminate by a measure, the length of the rest of a buffer or
  list, the distance of two indices, or the attempts left. Counters have 24 bits; statements that
  need them not to wrap say so: at most 65536 messages per run, which also keeps the 16-bit
  identifiers of split messages apart, and fewer than \<open>2 ^ 24\<close> datagrams. What happens when the
  counter of the window wraps is shown in \<open>Datagram_Window\<close>.

  \<^bold>\<open>Not modelled.\<close> Sockets: whether they can be bound and connected, and what arrives, are arguments,
  as are the random numbers, the checksum of \<open>crc32fast\<close> (a parameter), logging, and the getters of the socket.
  The scheduler of \<open>tokio\<close> appears only as the order of steps: that a task is run at all, and that a
  notification can be missed between two turns of a \<open>select!\<close> loop, is outside. Three waits are taken
  as one step with what ends them: an \<open>accept\<close> that already waits when the listener is closed, the
  end of the sender task after it has drained its channel, and the two updates of a block inside
  the reception of a datagram (apart from \<open>block_races_collector\<close>, which takes them one by one).
  Instants and durations are unbounded numbers, so subtracting an hour from an instant cannot
  fail. Wall clocks before 1970 are excluded.
\<close>

end
